(* ===== verification/Prelude.thy ===== *)
theory Prelude
  imports Main "HOL-Library.Word" "HOL-Library.Multiset" "HOL-Library.Sublist"
begin

text \<open>
  What every component of the model shares: names for Rust's machine types, the operations of
  Rust's standard library on strings that the sources use, the \<open>?\<close> operator on results, and
  the interfaces stated as locales: inductive invariants of a transition system, simulations of one
  system by another, ledgers (a run of steps that loses nothing it was handed) and first-writer-wins
  maps.
\<close>

text \<open>Definitions that are only ever unfolded: the edition's constants and the HTTP status codes.\<close>

named_theorems edition_limits
named_theorems response_codes

section \<open>Machine types\<close>

type_synonym u16 = "16 word"
type_synonym u32 = "32 word"
type_synonym u64 = "64 word"
type_synonym i32 = "32 word"
type_synonym i64 = "64 word"

text \<open>
  A \<open>String\<close>, \<open>&str\<close> or \<open>Vec<u8>\<close> is the list of its bytes.  A \<open>usize\<close> length and a
  \<open>Duration\<close> in milliseconds are natural numbers: the sources compare them and never wrap them.
\<close>

type_synonym bytes = string
type_synonym millis = nat

text \<open>\<open>x as i32\<close> for an \<open>i64\<close> keeps the low 32 bits; widening an \<open>i32\<close> extends its sign.\<close>

definition as_i32 :: "i64 \<Rightarrow> i32" where
  "as_i32 x = ucast x"

definition i32_to_i64 :: "i32 \<Rightarrow> i64" where
  "i32_to_i64 x = scast x"

section \<open>Results\<close>

text \<open>\<open>Result<T, E>\<close> is \<open>'e + 't\<close>; \<open>res_bind\<close> is the \<open>?\<close> operator, \<open>map_err\<close> Rust's.\<close>

definition res_bind :: "'e + 'a \<Rightarrow> ('a \<Rightarrow> 'e + 'b) \<Rightarrow> 'e + 'b" where
  "res_bind r f = (case r of Inl e \<Rightarrow> Inl e | Inr a \<Rightarrow> f a)"

definition map_err :: "('e \<Rightarrow> 'f) \<Rightarrow> 'e + 'a \<Rightarrow> 'f + 'a" where
  "map_err f r = (case r of Inl e \<Rightarrow> Inl (f e) | Inr a \<Rightarrow> Inr a)"

definition is_ok :: "'e + 'a \<Rightarrow> bool" where
  "is_ok r = (case r of Inl _ \<Rightarrow> False | Inr _ \<Rightarrow> True)"

lemma res_bind_simps [simp]:
  "res_bind (Inl e) f = Inl e"
  "res_bind (Inr a) f = f a"
  by (simp_all add: res_bind_def)

lemma map_err_simps [simp]:
  "map_err f (Inl e) = Inl (f e)"
  "map_err f (Inr a) = Inr a"
  by (simp_all add: map_err_def)

lemma is_ok_simps [simp]:
  "is_ok (Inl e) = False"
  "is_ok (Inr a) = True"
  by (simp_all add: is_ok_def)

lemma res_bind_eq_Inr: "res_bind r f = Inr b \<longleftrightarrow> (\<exists>a. r = Inr a \<and> f a = Inr b)"
  by (cases r) auto

section \<open>Strings\<close>

text \<open>\<open>str::split_once\<close>: the parts before and after the first occurrence of the separator.\<close>

fun split_once :: "char \<Rightarrow> string \<Rightarrow> (string \<times> string) option" where
  "split_once c [] = None"
| "split_once c (x # xs) =
     (if x = c then Some ([], xs)
      else map_option (\<lambda>(a, b). (x # a, b)) (split_once c xs))"

lemma split_once_Some_iff:
  "split_once c s = Some (a, b) \<longleftrightarrow> s = a @ c # b \<and> c \<notin> set a"
proof (induction s arbitrary: a)
  case Nil
  then show ?case by simp
next
  case (Cons x xs)
  then show ?case by (cases a) auto
qed

lemma split_once_None_iff: "split_once c s = None \<longleftrightarrow> c \<notin> set s"
  by (induction s) auto

text \<open>\<open>str::split\<close> with a character: always at least one segment.\<close>

fun split_on :: "char \<Rightarrow> string \<Rightarrow> string list" where
  "split_on c [] = [[]]"
| "split_on c (x # xs) =
     (if x = c then [] # split_on c xs
      else (case split_on c xs of [] \<Rightarrow> [[x]] | y # ys \<Rightarrow> (x # y) # ys))"

lemma split_on_not_Nil [simp]: "split_on c s \<noteq> []"
  by (induction s) (auto split: list.splits)

lemma split_on_fresh: "c \<notin> set s \<Longrightarrow> split_on c s = [s]"
  by (induction s) auto

lemma split_on_append: "c \<notin> set a \<Longrightarrow> split_on c (a @ c # b) = a # split_on c b"
  by (induction a) auto

lemma hd_split_on: "hd (split_on c s) = takeWhile (\<lambda>x. x \<noteq> c) s"
proof (induction s)
  case Nil
  then show ?case by simp
next
  case (Cons x xs)
  then show ?case by (auto split: list.splits)
qed

text \<open>\<open>Iterator::nth\<close>.\<close>

definition nth_opt :: "'a list \<Rightarrow> nat \<Rightarrow> 'a option" where
  "nth_opt xs n = (if n < length xs then Some (xs ! n) else None)"

text \<open>\<open>str::trim\<close>, on the ASCII white space characters.\<close>

definition is_ws :: "char \<Rightarrow> bool" where
  "is_ws c \<longleftrightarrow> c = CHR '' '' \<or> (9 \<le> (of_char c :: nat) \<and> (of_char c :: nat) \<le> 13)"

definition trim :: "string \<Rightarrow> string" where
  "trim s = rev (dropWhile is_ws (rev (dropWhile is_ws s)))"

text \<open>\<open>str::contains\<close> with a string.\<close>

definition str_contains :: "string \<Rightarrow> string \<Rightarrow> bool" where
  "str_contains hay needle = sublist needle hay"

text \<open>\<open>str::parse::<u16>\<close>: an optional plus sign, then at least one digit, no overflow.\<close>

definition digit_val :: "char \<Rightarrow> nat option" where
  "digit_val c = (let n = of_char c :: nat in if 48 \<le> n \<and> n \<le> 57 then Some (n - 48) else None)"

fun parse_digits :: "nat \<Rightarrow> string \<Rightarrow> nat option" where
  "parse_digits acc [] = Some acc"
| "parse_digits acc (c # cs) =
     (case digit_val c of
        None \<Rightarrow> None
      | Some d \<Rightarrow> if acc * 10 + d < 2 ^ 16 then parse_digits (acc * 10 + d) cs else None)"

definition parse_u16 :: "string \<Rightarrow> u16 option" where
  "parse_u16 s =
     (let ds = (case s of CHR ''+'' # rest \<Rightarrow> rest | _ \<Rightarrow> s)
      in if ds = [] then None else map_option of_nat (parse_digits 0 ds))"

section \<open>Transition systems and their invariants\<close>

inductive reach :: "('s \<Rightarrow> bool) \<Rightarrow> ('s \<Rightarrow> 's \<Rightarrow> bool) \<Rightarrow> 's \<Rightarrow> bool"
  for init :: "'s \<Rightarrow> bool" and step :: "'s \<Rightarrow> 's \<Rightarrow> bool" where
  reach_init: "init s \<Longrightarrow> reach init step s"
| reach_step: "reach init step s \<Longrightarrow> step s t \<Longrightarrow> reach init step t"

locale inductive_invariant =
  fixes init :: "'s \<Rightarrow> bool"
    and step :: "'s \<Rightarrow> 's \<Rightarrow> bool"
    and inv :: "'s \<Rightarrow> bool"
  assumes init_inv: "init s \<Longrightarrow> inv s"
    and step_inv: "inv s \<Longrightarrow> step s t \<Longrightarrow> inv t"
begin

lemma reach_inv: "reach init step s \<Longrightarrow> inv s"
  by (induction rule: reach.induct) (auto intro: init_inv step_inv)

end

lemma reach_mono:
  assumes "reach init step s" and "\<And>s. init s \<Longrightarrow> init' s" and "\<And>s t. step s t \<Longrightarrow> step' s t"
  shows "reach init' step' s"
  using assms(1) by induction (auto intro: reach_init reach_step assms(2,3))

lemma reach_steps: "reach init step s \<Longrightarrow> step\<^sup>*\<^sup>* s t \<Longrightarrow> reach init step t"
  by (rotate_tac 1, induction rule: rtranclp_induct) (auto intro: reach_step)

section \<open>Refinement\<close>

text \<open>
  A system refines a more abstract one if a function takes its states to abstract ones such that each
  of its steps is a step of the abstract system or leaves the abstract state as it is.  Then what is
  invariant of the abstract system is invariant of the concrete one.
\<close>

locale simulation =
  fixes init :: "'s \<Rightarrow> bool"
    and step :: "'s \<Rightarrow> 's \<Rightarrow> bool"
    and ainit :: "'a \<Rightarrow> bool"
    and astep :: "'a \<Rightarrow> 'a \<Rightarrow> bool"
    and abstraction :: "'s \<Rightarrow> 'a"
  assumes sim_init: "init s \<Longrightarrow> ainit (abstraction s)"
    and sim_step: "step s t \<Longrightarrow> astep\<^sup>=\<^sup>= (abstraction s) (abstraction t)"
begin

lemma reach_abstraction: "reach init step s \<Longrightarrow> reach ainit astep (abstraction s)"
proof (induction rule: reach.induct)
  case (reach_init s)
  then show ?case by (intro reach.reach_init sim_init)
next
  case (reach_step s t)
  from sim_step [OF reach_step.hyps(2)] reach_step.IH show ?case by (auto intro: reach.reach_step)
qed

end

locale refined_invariant =
  simulation init step ainit astep abstraction + spec: inductive_invariant ainit astep ainv
  for init :: "'s \<Rightarrow> bool" and step ainit astep and abstraction :: "'s \<Rightarrow> 'a" and ainv

sublocale refined_invariant \<subseteq> inductive_invariant init step "\<lambda>s. ainv (abstraction s)"
proof unfold_locales
  show "ainv (abstraction s)" if "init s" for s
    using sim_init [OF that] by (rule spec.init_inv)
next
  show "ainv (abstraction t)" if "ainv (abstraction s)" and "step s t" for s t
    using sim_step [OF that(2)] that(1) spec.step_inv by auto
qed

section \<open>Ledgers\<close>

text \<open>
  A component is handed items one step after the other and books each of them somewhere.
  The contract of one step: what is booked afterwards covers what was booked before and what the
  step was handed.  Then a run loses nothing.
\<close>

locale ledger =
  fixes step :: "'i \<Rightarrow> 's \<Rightarrow> 's"
    and inflow :: "'i \<Rightarrow> 'e list"
    and booked :: "'s \<Rightarrow> 'e multiset"
  assumes books: "booked s + mset (inflow i) \<subseteq># booked (step i s)"
begin

lemma run_books: "booked s + mset (concat (map inflow is)) \<subseteq># booked (fold step is s)"
proof (induction "is" arbitrary: s)
  case Nil
  then show ?case by simp
next
  case (Cons i rest)
  have "booked s + mset (inflow i) + mset (concat (map inflow rest))
      \<subseteq># booked (step i s) + mset (concat (map inflow rest))"
    using books by (rule mset_subset_eq_mono_add) simp
  also have "\<dots> \<subseteq># booked (fold step rest (step i s))"
    by (rule Cons.IH)
  finally show ?case by (simp add: add.assoc)
qed

lemma run_keeps:
  assumes "x \<in># booked s"
  shows "x \<in># booked (fold step is s)"
proof -
  have "x \<in># booked s + mset (concat (map inflow is))" using assms by simp
  then show ?thesis by (rule mset_subset_eqD [OF run_books])
qed

lemma run_covers:
  assumes "i \<in> set is" and "x \<in> set (inflow i)"
  shows "x \<in># booked (fold step is s)"
proof -
  have "x \<in># booked s + mset (concat (map inflow is))" using assms by auto
  then show ?thesis by (rule mset_subset_eqD [OF run_books])
qed

end

section \<open>First-writer-wins stores\<close>

text \<open>
  A store of keyed records in which a key, once taken, is never written again: putting a record
  under a taken key is a silent no-op.  Repeating a put, or replaying a run of puts, then changes
  nothing.
\<close>

locale first_wins =
  fixes put :: "'r \<Rightarrow> 's \<Rightarrow> 's"
    and key :: "'r \<Rightarrow> 'k"
    and lookup :: "'s \<Rightarrow> 'k \<Rightarrow> 'r option"
  assumes lookup_put:
      "lookup (put r s) k = (if k = key r \<and> lookup s k = None then Some r else lookup s k)"
    and put_taken: "lookup s (key r) \<noteq> None \<Longrightarrow> put r s = s"
begin

lemma put_idem: "key r = key r' \<Longrightarrow> put r (put r' s) = put r' s"
  by (rule put_taken) (simp add: lookup_put)

lemma lookup_puts:
  "lookup (fold put rs s) k = (case lookup s k of None \<Rightarrow> find (\<lambda>r. key r = k) rs | Some r \<Rightarrow> Some r)"
  by (induction rs arbitrary: s) (auto simp: lookup_put split: option.splits)

lemma lookup_kept: "lookup s k = Some r \<Longrightarrow> lookup (fold put rs s) k = Some r"
  by (simp add: lookup_puts)

lemma puts_taken: "\<forall>r \<in> set rs. lookup s (key r) \<noteq> None \<Longrightarrow> fold put rs s = s"
  by (induction rs arbitrary: s) (auto simp: put_taken)

lemma puts_stored:
  assumes "r \<in> set rs"
  shows "lookup (fold put rs s) (key r) \<noteq> None"
proof -
  have "find (\<lambda>r'. key r' = key r) rs \<noteq> None"
    using assms unfolding find_None_iff by blast
  then show ?thesis by (simp add: lookup_puts split: option.splits)
qed

lemma puts_replay:
  assumes "set replay \<subseteq> set rs"
  shows "fold put replay (fold put rs s) = fold put rs s"
  using assms puts_stored by (intro puts_taken) blast

lemma puts_resume: "fold put rs (fold put (take n rs) s) = fold put rs s"
proof -
  have "fold put rs (fold put (take n rs) s)
      = fold put (drop n rs) (fold put (take n rs) (fold put (take n rs) s))"
    by (metis append_take_drop_id comp_apply fold_append)
  also have "\<dots> = fold put (drop n rs) (fold put (take n rs) s)"
    by (simp add: puts_replay)
  also have "\<dots> = fold put rs s"
    by (metis append_take_drop_id comp_apply fold_append)
  finally show ?thesis .
qed

lemma puts_resume_from:
  assumes "j \<le> i"
  shows "fold put (drop j rs) (fold put (take i rs) s) = fold put rs s"
proof -
  have "take i rs = take j rs @ take (i - j) (drop j rs)"
    using assms by (simp add: take_add [of j "i - j", simplified] flip: take_add)
  then have "fold put (drop j rs) (fold put (take i rs) s) = fold put (drop j rs) (fold put (take j rs) s)"
    by (simp add: puts_resume)
  also have "\<dots> = fold put rs s"
    by (metis append_take_drop_id comp_apply fold_append)
  finally show ?thesis .
qed

end

end
