(* ===== verification/Limits.thy ===== *)
theory Limits
  imports Prelude
begin

text \<open>
  \<open>src/limits.rs\<close>: the edition's limits and the per-second rate limiter \<open>RateLimiter::wait\<close>.
  The loop is modelled at the grain of its atomic operations (\<open>wait_step\<close>), so that any number of
  callers can interleave on one limiter (\<open>rl_step\<close>), and as one uninterrupted pass (\<open>wait_pass\<close>)
  for a caller that runs alone.  The atomics are sequentially consistent here; the \<open>Relaxed\<close> loads
  and stores of the code may reorder further.
\<close>

section \<open>The limits of an edition\<close>

text \<open>The Cargo feature \<open>managed\<close> is a parameter of the build.\<close>

definition COMMUNITY_RATE_LIMIT :: u32 where [edition_limits]:
  "COMMUNITY_RATE_LIMIT = 1000"

definition u32_MAX :: u32 where
  "u32_MAX = 0xFFFFFFFF"

definition usize_MAX :: nat where [edition_limits]:
  "usize_MAX = 2 ^ 64 - 1"

definition MAX_BATCH_SIZE :: "bool \<Rightarrow> nat" where [edition_limits]:
  "MAX_BATCH_SIZE managed = (if managed then usize_MAX else 64)"

definition MIN_FLUSH_INTERVAL_MS :: "bool \<Rightarrow> millis" where [edition_limits]:
  "MIN_FLUSH_INTERVAL_MS managed = (if managed then 0 else 100)"

definition is_managed :: "bool \<Rightarrow> bool" where
  "is_managed managed = managed"

lemma u32_MAX_unat [simp]: "unat u32_MAX = 2 ^ 32 - 1"
  by (simp add: u32_MAX_def)

lemma COMMUNITY_RATE_LIMIT_unat [simp]: "unat COMMUNITY_RATE_LIMIT = 1000"
  by (simp add: COMMUNITY_RATE_LIMIT_def)

lemma COMMUNITY_not_MAX [simp]: "COMMUNITY_RATE_LIMIT \<noteq> u32_MAX"
  by (simp add: COMMUNITY_RATE_LIMIT_def u32_MAX_def)

section \<open>The clock\<close>

text \<open>
  A reading of \<open>SystemTime::now()\<close> is the number of milliseconds since the Unix epoch, negative
  before it, where \<open>duration_since(UNIX_EPOCH)\<close> fails and \<open>unwrap_or_default()\<close> gives zero.
\<close>

definition epoch_ms :: "int \<Rightarrow> millis" where
  "epoch_ms t = nat t"

definition epoch_secs :: "int \<Rightarrow> nat" where
  "epoch_secs t = epoch_ms t div 1000"

definition sleep_ms :: "int \<Rightarrow> millis" where
  "sleep_ms t = 1001 - epoch_ms t mod 1000"

section \<open>The rate limiter\<close>

record rate_limiter =
  window_start :: nat
  slots :: u32  \<comment> \<open>the field \<open>count\<close>\<close>

definition rate_limiter_default :: rate_limiter where
  "rate_limiter_default = \<lparr>window_start = 0, slots = 0\<rparr>"

text \<open>
  Where a call of \<open>wait\<close> stands: before the clock is read, after it (with \<open>now_secs\<close>), between
  the two stores that open a window, before the load of the counter, before the compare-exchange
  (with the value loaded), in a full window, asleep for some milliseconds, or returned.
\<close>

datatype wait_pc =
    Loop_top
  | Have_now nat
  | Store_window nat
  | Store_count
  | Load_count
  | Claim u32
  | Full
  | Asleep millis
  | Returned

definition wait_enter :: "u32 \<Rightarrow> wait_pc" where
  "wait_enter limit = (if limit = u32_MAX then Returned else Loop_top)"

text \<open>One atomic operation of a call; \<open>t\<close> is the clock, read at the loop's top and in a full window.\<close>

fun wait_step :: "u32 \<Rightarrow> int \<Rightarrow> rate_limiter \<Rightarrow> wait_pc \<Rightarrow> rate_limiter \<times> wait_pc" where
  "wait_step limit t l Loop_top = (l, Have_now (epoch_secs t))"
| "wait_step limit t l (Have_now now_secs) =
     (if now_secs \<noteq> window_start l then (l, Store_window now_secs) else (l, Load_count))"
| "wait_step limit t l (Store_window now_secs) = (l\<lparr>window_start := now_secs\<rparr>, Store_count)"
| "wait_step limit t l Store_count = (l\<lparr>slots := 1\<rparr>, Returned)"
| "wait_step limit t l Load_count =
     (let c = slots l in if c < limit then (l, Claim c) else (l, Full))"
| "wait_step limit t l (Claim c) =
     (if slots l = c then (l\<lparr>slots := c + 1\<rparr>, Returned) else (l, Loop_top))"
| "wait_step limit t l Full = (l, Asleep (sleep_ms t))"
| "wait_step limit t l (Asleep d) = (l, Loop_top)"
| "wait_step limit t l Returned = (l, Returned)"

fun_cases wait_step_LoopE: "wait_step limit t l Loop_top = (l', pc')"
fun_cases wait_step_ClaimE: "wait_step limit t l (Claim c) = (l', pc')"

subsection \<open>A caller that runs alone\<close>

text \<open>One pass of the loop with no other caller in between: returned, or asleep until the next.\<close>

definition wait_pass :: "u32 \<Rightarrow> int \<Rightarrow> rate_limiter \<Rightarrow> rate_limiter \<times> wait_pc" where
  "wait_pass limit t l =
     (if epoch_secs t \<noteq> window_start l
      then (\<lparr>window_start = epoch_secs t, slots = 1\<rparr>, Returned)
      else if slots l < limit then (l\<lparr>slots := slots l + 1\<rparr>, Returned)
      else (l, Asleep (sleep_ms t)))"

fun wait_steps :: "u32 \<Rightarrow> int \<Rightarrow> nat \<Rightarrow> rate_limiter \<times> wait_pc \<Rightarrow> rate_limiter \<times> wait_pc" where
  "wait_steps limit t 0 c = c"
| "wait_steps limit t (Suc n) c = wait_steps limit t n (wait_step limit t (fst c) (snd c))"

text \<open>
  A whole call, one clock reading per pass (the one of a full window is taken at the same instant):
  the loop is fuelled, \<open>None\<close> meaning that it has not returned yet.
\<close>

fun wait_alone :: "u32 \<Rightarrow> nat \<Rightarrow> (nat \<Rightarrow> int) \<Rightarrow> rate_limiter \<Rightarrow> rate_limiter option" where
  "wait_alone limit fuel clock l =
     (if limit = u32_MAX then Some l
      else (case fuel of
        0 \<Rightarrow> None
      | Suc n \<Rightarrow>
          (case wait_pass limit (clock 0) l of
             (l', Returned) \<Rightarrow> Some l'
           | (l', _) \<Rightarrow> wait_alone limit n (\<lambda>i. clock (Suc i)) l')))"

declare wait_alone.simps [simp del]

text \<open>
  The admissions of a sequence of passes, each of a new call or of one that goes on: the seconds in
  which they returned.  Without a limit a call does not reach the loop.
\<close>

fun admissions :: "u32 \<Rightarrow> rate_limiter \<Rightarrow> int list \<Rightarrow> nat list" where
  "admissions limit l [] = []"
| "admissions limit l (t # ts) =
     (if wait_enter limit = Returned then epoch_secs t # admissions limit l ts
      else (case wait_pass limit t l of
        (l', Returned) \<Rightarrow> epoch_secs t # admissions limit l' ts
      | (l', _) \<Rightarrow> admissions limit l' ts))"

subsection \<open>Callers that interleave\<close>

text \<open>
  Caller \<open>i\<close> is one call of \<open>wait\<close>.  The counters \<open>admitted\<close> and \<open>resets\<close> record how many calls
  have returned and how many of them by opening a window; the code does not keep them.
\<close>

record rl_system =
  limiter :: rate_limiter
  callers :: "nat \<Rightarrow> wait_pc"
  admitted :: nat
  resets :: nat

definition rl_init :: "u32 \<Rightarrow> rl_system \<Rightarrow> bool" where
  "rl_init limit s \<longleftrightarrow>
     limiter s = rate_limiter_default \<and> callers s = (\<lambda>_. wait_enter limit)
     \<and> admitted s = 0 \<and> resets s = 0"

definition rl_move :: "u32 \<Rightarrow> int \<Rightarrow> nat \<Rightarrow> rl_system \<Rightarrow> rl_system" where
  "rl_move limit t i s =
     (let pc = callers s i; (l', pc') = wait_step limit t (limiter s) pc
      in \<lparr>limiter = l', callers = (callers s)(i := pc'),
          admitted = admitted s + (if pc \<noteq> Returned \<and> pc' = Returned then 1 else 0),
          resets = resets s + (if pc = Store_count then 1 else 0)\<rparr>)"

inductive rl_step :: "u32 \<Rightarrow> rl_system \<Rightarrow> rl_system \<Rightarrow> bool" for limit :: u32 where
  move: "rl_step limit s (rl_move limit t i s)"

inductive_cases rl_stepE: "rl_step limit s s'"

section \<open>One pass\<close>

text \<open>The pass is what the atomic operations do when no other caller runs in between.\<close>

lemma wait_pass_steps:
  "\<exists>n. wait_steps limit t n (l, Loop_top) = wait_pass limit t l"
proof (cases "epoch_secs t = window_start l")
  case False
  then have "wait_steps limit t 4 (l, Loop_top) = wait_pass limit t l"
    by (simp add: wait_pass_def eval_nat_numeral)
  then show ?thesis ..
next
  case True
  then have "wait_steps limit t 4 (l, Loop_top) = wait_pass limit t l"
    by (simp add: wait_pass_def eval_nat_numeral Let_def)
  then show ?thesis ..
qed

lemma wait_pass_Returned_iff:
  "snd (wait_pass limit t l) = Returned \<longleftrightarrow> epoch_secs t \<noteq> window_start l \<or> slots l < limit"
  by (simp add: wait_pass_def)

lemma wait_pass_blocked:
  "snd (wait_pass limit t l) \<noteq> Returned \<Longrightarrow> wait_pass limit t l = (l, Asleep (sleep_ms t))"
  by (simp add: wait_pass_def split: if_splits)

lemma unat_slot_Suc:
  fixes c limit :: u32
  assumes "c < limit"
  shows "unat (c + 1) = unat c + 1"
proof -
  have "unat limit < 2 ^ LENGTH(32)" by (rule unsigned_less)
  with assms have "unat c + 1 < 2 ^ 32" by (simp add: word_less_nat_alt)
  then show ?thesis by (simp add: unat_word_ariths)
qed

lemma wait_pass_slots_bound:
  assumes "unat (slots l) \<le> max 1 (unat limit)"
  shows "unat (slots (fst (wait_pass limit t l))) \<le> max 1 (unat limit)"
  using assms by (auto simp: wait_pass_def word_less_nat_alt unat_word_ariths split: if_splits)

section \<open>The sleep\<close>

lemma sleep_ms_bounds: "2 \<le> sleep_ms t \<and> sleep_ms t \<le> 1001"
proof -
  have "epoch_ms t mod 1000 < 1000" by simp
  then show ?thesis unfolding sleep_ms_def by linarith
qed

lemma sleep_reaches_next_window:
  "(epoch_ms t + sleep_ms t) div 1000 = epoch_secs t + 1 \<and> (epoch_ms t + sleep_ms t) mod 1000 = 1"
proof -
  let ?m = "epoch_ms t"
  have "?m mod 1000 \<le> 1001" using mod_less_divisor [of 1000 ?m] by simp
  then have "?m + sleep_ms t = (?m div 1000) * 1000 + 1001"
    unfolding sleep_ms_def using div_mult_mod_eq [of ?m 1000] by linarith
  then show ?thesis by (simp add: epoch_secs_def div_add1_eq mod_add_eq)
qed

section \<open>A call that runs alone returns\<close>

lemma wait_alone_unlimited: "wait_alone u32_MAX fuel clock l = Some l"
  by (subst wait_alone.simps) simp

lemma wait_alone_Suc:
  "limit \<noteq> u32_MAX \<Longrightarrow> wait_alone limit (Suc n) clock l =
     (if snd (wait_pass limit (clock 0) l) = Returned then Some (fst (wait_pass limit (clock 0) l))
      else wait_alone limit n (\<lambda>i. clock (Suc i)) l)"
  by (subst wait_alone.simps) (auto simp: wait_pass_def)

lemma wait_pass_later_window:
  "window_start l < epoch_secs t \<Longrightarrow>
     wait_pass limit t l = (\<lparr>window_start = epoch_secs t, slots = 1\<rparr>, Returned)"
  by (simp add: wait_pass_def)

lemma slept_into_later_window:
  assumes "epoch_ms t + sleep_ms t \<le> epoch_ms t'"
  shows "epoch_secs t < epoch_secs t'"
proof -
  have "epoch_secs t + 1 \<le> epoch_ms t' div 1000"
    using div_le_mono [OF assms, of 1000] sleep_reaches_next_window [of t] by simp
  then show ?thesis by (simp add: epoch_secs_def)
qed

text \<open>
  C25.  A caller that runs alone never waits for more than one window: if its sleep lasts at least as
  long as it asked for, \<open>wait\<close> returns after at most two passes of its loop, in the window it
  started in with one more slot taken, or in a fresh window with exactly one slot taken.
\<close>

theorem wait_alone_returns:
  assumes slept: "epoch_ms (clock 0) + sleep_ms (clock 0) \<le> epoch_ms (clock 1)"
    and limited: "limit \<noteq> u32_MAX"
  shows "\<exists>l'. wait_alone limit (Suc (Suc n)) clock l = Some l'
    \<and> (l' = l\<lparr>slots := slots l + 1\<rparr> \<and> slots l < limit
       \<or> (\<exists>i \<in> {0, 1}. l' = \<lparr>window_start = epoch_secs (clock i), slots = 1\<rparr>))"
proof (cases "snd (wait_pass limit (clock 0) l) = Returned")
  case True
  with limited have "wait_alone limit (Suc (Suc n)) clock l = Some (fst (wait_pass limit (clock 0) l))"
    by (simp add: wait_alone_Suc)
  with True show ?thesis by (auto simp: wait_pass_def split: if_splits)
next
  case False
  then have "window_start l = epoch_secs (clock 0)" by (simp add: wait_pass_Returned_iff)
  with slept_into_later_window [OF slept]
  have "wait_pass limit (clock 1) l = (\<lparr>window_start = epoch_secs (clock 1), slots = 1\<rparr>, Returned)"
    by (intro wait_pass_later_window) simp
  with False limited have "wait_alone limit (Suc (Suc n)) clock l =
      Some \<lparr>window_start = epoch_secs (clock 1), slots = 1\<rparr>"
    by (simp add: wait_alone_Suc)
  then show ?thesis by auto
qed

theorem wait_alone_returns_witness:
  "\<exists>l'. wait_alone 3 2 (\<lambda>i. 5999 + 2 * int i) \<lparr>window_start = 5, slots = 3\<rparr> = Some l'"
proof -
  let ?clock = "\<lambda>i. 5999 + 2 * int i"
  have slept: "epoch_ms (?clock 0) + sleep_ms (?clock 0) \<le> epoch_ms (?clock 1)"
    by (simp add: epoch_ms_def sleep_ms_def)
  have "(3 :: u32) \<noteq> u32_MAX" by (simp add: u32_MAX_def)
  from wait_alone_returns [OF slept this, of 0 "\<lparr>window_start = 5, slots = 3\<rparr>"]
  show ?thesis by (auto simp: numeral_2_eq_2)
qed

section \<open>No second admits more than the limit\<close>

lemma admissions_Cons:
  "limit \<noteq> u32_MAX \<Longrightarrow> admissions limit l (t # ts) =
     (if snd (wait_pass limit t l) = Returned then [epoch_secs t] else [])
     @ admissions limit (fst (wait_pass limit t l)) ts"
  by (simp add: wait_pass_def wait_enter_def)

text \<open>How often the clock comes to the second \<open>w\<close>, readings in a row within it counted once.\<close>

definition visits :: "nat \<Rightarrow> nat list \<Rightarrow> nat" where
  "visits w secs = count_list (remdups_adj secs) w"

lemma visits_Cons_Cons:
  "visits w (s # t # secs) = (if s = t then visits w (s # secs) else (if w = s then 1 else 0) + visits w (t # secs))"
  by (simp add: visits_def)

lemma visits_head: "0 < visits s (s # secs)"
proof -
  have "s \<in> set (remdups_adj (s # secs))" by simp
  then show ?thesis by (simp only: visits_def count_list_0_iff neq0_conv [symmetric] not_not)
qed

text \<open>
  The window is the second that was read last, so each visit fills its own window; what is taken of the
  present one counts too.
\<close>

lemma admissions_per_visit:
  assumes "limit \<noteq> u32_MAX" and "unat (slots l) \<le> max 1 (unat limit)"
  shows "count_list (admissions limit l ts) w + (if w = window_start l then unat (slots l) else 0)
    \<le> max 1 (unat limit) * visits w (window_start l # map epoch_secs ts)"
  using assms(2)
proof (induction ts arbitrary: l)
  case Nil
  then show ?case by (simp add: visits_def)
next
  case (Cons t ts)
  let ?cap = "max 1 (unat limit)" and ?secs = "map epoch_secs ts"
  obtain l' pc where pass: "wait_pass limit t l = (l', pc)" by fastforce
  note IH = Cons.IH [of l'] and step = admissions_Cons [OF assms(1), of l t ts]
  show ?case
  proof (cases "epoch_secs t = window_start l")
    case same: True
    show ?thesis
    proof (cases "slots l < limit")
      case True
      with same pass have l': "l' = l\<lparr>slots := slots l + 1\<rparr>" and "pc = Returned"
        by (auto simp: wait_pass_def)
      moreover have "unat (slots l') = unat (slots l) + 1" and "unat (slots l) + 1 \<le> ?cap"
        using True unat_slot_Suc [of "slots l" limit] by (simp_all add: l' word_less_nat_alt)
      ultimately show ?thesis using IH same pass step by (auto simp: visits_Cons_Cons split: if_splits)
    next
      case False
      with same pass have "l' = l" and "pc \<noteq> Returned" by (auto simp: wait_pass_def)
      with IH Cons.prems same pass step show ?thesis by (auto simp: visits_Cons_Cons split: if_splits)
    qed
  next
    case False
    with pass have l': "l' = \<lparr>window_start = epoch_secs t, slots = 1\<rparr>" and pc: "pc = Returned"
      by (auto simp: wait_pass_def)
    have "count_list (admissions limit l (t # ts)) w
        = count_list (admissions limit l' ts) w + (if w = window_start l' then unat (slots l') else 0)"
      using pass pc step by (simp add: l')
    also have "\<dots> \<le> ?cap * visits w (epoch_secs t # ?secs)"
      using IH by (simp add: l')
    finally have "count_list (admissions limit l (t # ts)) w \<le> ?cap * visits w (epoch_secs t # ?secs)" .
    moreover have "(if w = window_start l then unat (slots l) else 0) \<le> ?cap * (if w = window_start l then 1 else 0)"
      using Cons.prems by simp
    moreover have "visits w (window_start l # map epoch_secs (t # ts))
        = (if w = window_start l then 1 else 0) + visits w (epoch_secs t # ?secs)"
      using False by (simp add: visits_Cons_Cons)
    ultimately show ?thesis
      using add_mono [of "if w = window_start l then unat (slots l) else 0" "?cap * (if w = window_start l then 1 else 0)"
        "count_list (admissions limit l (t # ts)) w" "?cap * visits w (epoch_secs t # ?secs)"]
      by (simp only: distrib_left add.commute [of "count_list (admissions limit l (t # ts)) w"])
  qed
qed

lemma visits_sorted: "sorted secs \<Longrightarrow> visits w secs \<le> 1"
proof (induction secs rule: remdups_adj.induct)
  case (3 s t secs)
  then show ?case
  proof (cases "s = t")
    case False
    with 3(3) have "s \<notin> set (remdups_adj (t # secs))" by auto
    then have "visits s (t # secs) = 0" by (simp add: visits_def)
    with 3 False show ?thesis by (auto simp: visits_Cons_Cons)
  qed (simp add: visits_Cons_Cons)
qed (simp_all add: visits_def)

text \<open>
  C19.  Callers that do not interleave, from a fresh limiter and with a limit: however many passes are
  made, those admitted in a second are at most the limit for each time that the clock comes to that
  second, and so at most the limit if the clock does not run backwards; a limit of zero admits one.
  A clock that is set back gives a second its slots again.
\<close>

theorem admissions_within_limit:
  assumes "limit \<noteq> u32_MAX"
  shows "count_list (admissions limit rate_limiter_default ts) w \<le> max 1 (unat limit) * visits w (map epoch_secs ts)
    \<and> (sorted (map epoch_secs ts) \<longrightarrow> count_list (admissions limit rate_limiter_default ts) w \<le> max 1 (unat limit))"
proof -
  have "count_list (admissions limit rate_limiter_default ts) w \<le> max 1 (unat limit) * visits w (map epoch_secs ts)"
  proof (cases ts)
    case (Cons t rest)
    have start: "count_list (admissions limit rate_limiter_default ts) w
        \<le> max 1 (unat limit) * visits w (0 # map epoch_secs ts)"
      using admissions_per_visit [OF assms, of rate_limiter_default ts w] by (simp add: rate_limiter_default_def)
    show ?thesis
    proof (cases "epoch_secs t = 0")
      case True
      with start Cons show ?thesis by (simp add: visits_Cons_Cons)
    next
      case False
      let ?l = "\<lparr>window_start = epoch_secs t, slots = 1\<rparr>"
      from False have "wait_pass limit t rate_limiter_default = (?l, Returned)"
        by (simp add: wait_pass_def rate_limiter_default_def)
      then have "count_list (admissions limit rate_limiter_default ts) w
          = count_list (admissions limit ?l rest) w + (if w = window_start ?l then unat (slots ?l) else 0)"
        using admissions_Cons [OF assms, of rate_limiter_default t rest] by (simp add: Cons)
      also have "\<dots> \<le> max 1 (unat limit) * visits w (window_start ?l # map epoch_secs rest)"
        by (rule admissions_per_visit [OF assms]) simp
      finally show ?thesis by (simp add: Cons)
    qed
  qed simp
  moreover from this have "count_list (admissions limit rate_limiter_default ts) w \<le> max 1 (unat limit) * 1"
    if "sorted (map epoch_secs ts)"
    using visits_sorted [OF that, of w] by (meson le_trans mult_le_mono2)
  ultimately show ?thesis by simp
qed

theorem admissions_within_limit_witness:
  "count_list (admissions 2 rate_limiter_default [7000, 7001, 7002, 8003, 7001]) 7
     \<le> max 1 (unat (2 :: u32)) * visits 7 [7, 7, 7, 8, 7]
   \<and> admissions 2 rate_limiter_default [7000, 7001, 7002, 8003, 7001] = [7, 7, 8, 7]"
proof
  have limited: "(2 :: u32) \<noteq> u32_MAX" by (simp add: u32_MAX_def)
  from admissions_within_limit [OF limited, of "[7000, 7001, 7002, 8003, 7001]" 7]
  show "count_list (admissions 2 rate_limiter_default [7000, 7001, 7002, 8003, 7001]) 7
      \<le> max 1 (unat (2 :: u32)) * visits 7 [7, 7, 7, 8, 7]"
    by (simp add: epoch_secs_def epoch_ms_def del: admissions.simps(2))
  show "admissions 2 rate_limiter_default [7000, 7001, 7002, 8003, 7001] = [7, 7, 8, 7]"
    by (simp add: admissions_Cons [OF limited] wait_pass_def rate_limiter_default_def epoch_secs_def epoch_ms_def
        del: admissions.simps(2))
qed

section \<open>Callers that interleave\<close>

definition slot_cap :: "u32 \<Rightarrow> nat" where
  "slot_cap limit = max 1 (unat limit)"

text \<open>
  The counter never exceeds the limit, whoever holds a loaded value for its compare-exchange holds
  one below the limit, and the admissions so far fit in the windows opened so far.
\<close>

definition rl_inv :: "u32 \<Rightarrow> rl_system \<Rightarrow> bool" where
  "rl_inv limit s \<longleftrightarrow>
     unat (slots (limiter s)) \<le> slot_cap limit
     \<and> (\<forall>i c. callers s i = Claim c \<longrightarrow> c < limit)
     \<and> admitted s + (slot_cap limit - unat (slots (limiter s))) \<le> Suc (resets s) * slot_cap limit"

lemma rl_init_inv: "rl_init limit s \<Longrightarrow> rl_inv limit s"
  by (auto simp: rl_init_def rl_inv_def rate_limiter_default_def wait_enter_def slot_cap_def
      split: if_splits)

lemma rl_move_Store_count:
  "callers s i = Store_count \<Longrightarrow> rl_move limit t i s =
     \<lparr>limiter = limiter s\<lparr>slots := 1\<rparr>, callers = (callers s)(i := Returned),
      admitted = Suc (admitted s), resets = Suc (resets s)\<rparr>"
  by (simp add: rl_move_def)

lemma rl_move_Claim:
  "callers s i = Claim c \<Longrightarrow> rl_move limit t i s =
     (if slots (limiter s) = c
      then s\<lparr>limiter := limiter s\<lparr>slots := c + 1\<rparr>, callers := (callers s)(i := Returned),
             admitted := Suc (admitted s)\<rparr>
      else s\<lparr>callers := (callers s)(i := Loop_top)\<rparr>)"
  by (simp add: rl_move_def)

text \<open>Every other operation leaves the counter and the books alone.\<close>

lemma rl_move_other:
  assumes "callers s i \<noteq> Store_count" and "\<And>c. callers s i \<noteq> Claim c"
  shows "slots (limiter (rl_move limit t i s)) = slots (limiter s)"
    and "admitted (rl_move limit t i s) = admitted s"
    and "resets (rl_move limit t i s) = resets s"
    and "callers (rl_move limit t i s) j = Claim c \<Longrightarrow> callers s j = Claim c \<or> c < limit"
  using assms by (cases "callers s i"; auto simp: rl_move_def Let_def split: if_splits)+

lemma rl_move_other_inv:
  assumes "rl_inv limit s" and "callers s i \<noteq> Store_count" and "\<And>c. callers s i \<noteq> Claim c"
  shows "rl_inv limit (rl_move limit t i s)"
proof -
  note other = rl_move_other [OF assms(2,3), of limit t]
  have "\<forall>j c. callers (rl_move limit t i s) j = Claim c \<longrightarrow> c < limit"
    using other(4) assms(1) by (auto simp: rl_inv_def)
  with assms(1) other(1-3) show ?thesis by (auto simp: rl_inv_def)
qed

lemma rl_move_inv:
  assumes "rl_inv limit s"
  shows "rl_inv limit (rl_move limit t i s)"
proof (cases "callers s i")
  case Store_count
  have "1 \<le> slot_cap limit" by (simp add: slot_cap_def)
  moreover from assms have "admitted s \<le> Suc (resets s) * slot_cap limit"
    by (simp add: rl_inv_def)
  ultimately show ?thesis using assms Store_count
    by (auto simp: rl_inv_def rl_move_Store_count)
next
  case (Claim c)
  with assms have below: "c < limit" by (auto simp: rl_inv_def)
  then have "unat (c + 1) = unat c + 1" and "unat c + 1 \<le> slot_cap limit"
    using unat_slot_Suc [OF below] by (auto simp: word_less_nat_alt slot_cap_def)
  with Claim assms show ?thesis
    by (auto simp: rl_inv_def rl_move_Claim split: if_splits)
qed (auto intro!: rl_move_other_inv [OF assms])

interpretation rl: inductive_invariant "rl_init limit" "rl_step limit" "rl_inv limit" for limit
  by unfold_locales (auto intro: rl_init_inv rl_move_inv elim: rl_stepE)

text \<open>
  C18.  Any number of callers, interleaving at any of the loop's atomic operations on any clock: the
  counter never exceeds the limit (so its increment never wraps), and the calls admitted are at
  most the limit for each window opened, the initial one included; a limit of zero counts as one.  No
  compare-exchange lets two callers share a slot.
\<close>

theorem interleaved_within_limit:
  assumes "reach (rl_init limit) (rl_step limit) s"
  shows "unat (slots (limiter s)) \<le> max 1 (unat limit)
    \<and> admitted s \<le> Suc (resets s) * max 1 (unat limit)"
  using rl.reach_inv [OF assms] by (auto simp: rl_inv_def slot_cap_def)

text \<open>A schedule names, step by step, the caller that moves and the clock it would read.\<close>

definition rl_run :: "u32 \<Rightarrow> (int \<times> nat) list \<Rightarrow> rl_system \<Rightarrow> rl_system" where
  "rl_run limit sched s = fold (\<lambda>(t, i). rl_move limit t i) sched s"

definition rl_start :: "u32 \<Rightarrow> rl_system" where
  "rl_start limit = \<lparr>limiter = rate_limiter_default, callers = (\<lambda>_. wait_enter limit),
     admitted = 0, resets = 0\<rparr>"

lemma rl_run_reach:
  "reach (rl_init limit) (rl_step limit) s \<Longrightarrow> reach (rl_init limit) (rl_step limit) (rl_run limit sched s)"
  unfolding rl_run_def
  by (induction sched arbitrary: s) (auto intro: reach_step rl_step.move)

lemma rl_start_reach: "reach (rl_init limit) (rl_step limit) (rl_start limit)"
  by (rule reach_init) (simp add: rl_init_def rl_start_def)

text \<open>Two callers that both see the new second before either has stored it.\<close>

definition racing :: "(int \<times> nat) list" where
  "racing = [(5000, 0), (5000, 1), (5000, 0), (5000, 1), (5000, 0), (5000, 0),
             (5001, 1), (5001, 1)]"

lemma racing_run:
  "admitted (rl_run 1 racing (rl_start 1)) = 2"
  "resets (rl_run 1 racing (rl_start 1)) = 2"
  "limiter (rl_run 1 racing (rl_start 1)) = \<lparr>window_start = 5, slots = 1\<rparr>"
  by (simp_all add: rl_run_def racing_def rl_start_def rl_move_def wait_enter_def u32_MAX_def
      rate_limiter_default_def epoch_secs_def epoch_ms_def)

theorem interleaved_within_limit_witness:
  "admitted (rl_run 1 racing (rl_start 1)) = 2
   \<and> admitted (rl_run 1 racing (rl_start 1))
      \<le> Suc (resets (rl_run 1 racing (rl_start 1))) * max 1 (unat (1 :: u32))"
  using interleaved_within_limit [OF rl_run_reach [OF rl_start_reach], of 1 racing]
  by (simp add: racing_run)

text \<open>
  The window boundary is a soft one: there is a schedule of two callers, both admitted in the
  same second under a limit of one event per second, because the second reset of the window
  forgets the first caller's slot.
\<close>

theorem window_race_overshoots:
  "reach (rl_init 1) (rl_step 1) (rl_run 1 racing (rl_start 1))
   \<and> list_all (\<lambda>(t, i). epoch_secs t = 5) racing
   \<and> limiter (rl_run 1 racing (rl_start 1)) = \<lparr>window_start = 5, slots = 1\<rparr>
   \<and> admitted (rl_run 1 racing (rl_start 1)) = 2"
proof (intro conjI)
  show "reach (rl_init 1) (rl_step 1) (rl_run 1 racing (rl_start 1))"
    by (rule rl_run_reach [OF rl_start_reach])
  show "list_all (\<lambda>(t, i). epoch_secs t = 5) racing"
    by (simp add: racing_def epoch_secs_def epoch_ms_def)
qed (simp_all add: racing_run)

text \<open>A limit of zero does not stop the events: the first call of every second is still admitted.\<close>

lemma zero_limit_admits:
  "snd (wait_pass 0 t l) = Returned \<longleftrightarrow> epoch_secs t \<noteq> window_start l"
  by (simp add: wait_pass_Returned_iff)

section \<open>Lock freedom\<close>

text \<open>The counter changes only when a caller is admitted.\<close>

lemma rl_move_admits:
  "admitted s \<le> admitted (rl_move limit t i s)
   \<and> (slots (limiter (rl_move limit t i s)) = slots (limiter s) \<or> admitted s < admitted (rl_move limit t i s))"
proof (cases "callers s i")
  case Store_count
  then show ?thesis by (simp add: rl_move_Store_count)
next
  case (Claim c)
  then show ?thesis by (simp add: rl_move_Claim)
qed (use rl_move_other [of s i limit t] in simp_all)

lemma rl_steps_admit:
  assumes "(rl_step limit)\<^sup>*\<^sup>* s u"
  shows "admitted s \<le> admitted u \<and> (slots (limiter u) = slots (limiter s) \<or> admitted s < admitted u)"
  using assms
proof (induction rule: rtranclp_induct)
  case (step u v)
  from step.hyps(2) obtain t i where "v = rl_move limit t i u" by (auto elim: rl_stepE)
  with rl_move_admits [of u limit t i] step.IH show ?case by auto
qed simp

text \<open>
  C14.  The compare-exchange makes the loop lock-free: whenever it fails, so that the caller starts over,
  some other call has been admitted since this caller loaded the counter.
\<close>

theorem failed_claim_means_admission:
  assumes "callers s i = Load_count" and "callers (rl_move limit t i s) i = Claim c"
    and "(rl_step limit)\<^sup>*\<^sup>* (rl_move limit t i s) u"
    and "callers u i = Claim c" and "callers (rl_move limit t' i u) i = Loop_top"
  shows "admitted s < admitted u"
proof -
  have loaded: "slots (limiter s) = c"
    using assms(1,2) by (simp add: rl_move_def Let_def split: if_splits)
  have same: "slots (limiter (rl_move limit t i s)) = slots (limiter s)"
      "admitted (rl_move limit t i s) = admitted s"
    using assms(1) by (simp_all add: rl_move_other)
  have "slots (limiter u) \<noteq> c"
    using assms(4,5) by (auto simp: rl_move_Claim split: if_splits)
  with rl_steps_admit [OF assms(3)] loaded same show ?thesis by auto
qed

text \<open>Two callers in an open window: the second claims its slot between the load and the claim of the first.\<close>

definition contended :: rl_system where
  "contended = \<lparr>limiter = \<lparr>window_start = 5, slots = 1\<rparr>, callers = (\<lambda>_. Load_count), admitted = 1, resets = 1\<rparr>"

lemma rl_run_steps: "(rl_step limit)\<^sup>*\<^sup>* s (rl_run limit sched s)"
  unfolding rl_run_def
  by (induction sched arbitrary: s) (auto intro: converse_rtranclp_into_rtranclp rl_step.move)

theorem failed_claim_means_admission_witness:
  "\<exists>u. (rl_step 9)\<^sup>*\<^sup>* contended u \<and> callers u 0 = Claim 1 \<and> admitted contended < admitted u"
proof -
  let ?s1 = "rl_move 9 0 0 contended"
  let ?u = "rl_run 9 [(0, 1), (0, 1)] ?s1"
  have "callers contended 0 = Load_count" and "callers ?s1 0 = Claim 1"
    by (simp_all add: contended_def rl_move_def Let_def)
  moreover note rl_run_steps [of 9 ?s1 "[(0, 1), (0, 1)]"]
  moreover have failing: "callers ?u 0 = Claim 1" "callers (rl_move 9 0 0 ?u) 0 = Loop_top"
    by (simp_all add: contended_def rl_move_def rl_run_def Let_def)
  ultimately have "admitted contended < admitted ?u" by (rule failed_claim_means_admission)
  moreover have "(rl_step 9)\<^sup>*\<^sup>* contended ?u"
    using rl_step.move rl_run_steps by (rule converse_rtranclp_into_rtranclp)
  ultimately show ?thesis using failing(1) by blast
qed

end
