(* ===== verification/License.thy ===== *)
theory License
  imports Limits
begin

text \<open>
  \<open>src/license.rs\<close>: loading and verifying the enterprise licence key, and the rights it gives.
  The decoder of the \<open>base64\<close> crate, the Ed25519 keys of \<open>ed25519_dalek\<close> and \<open>serde_json\<close>'s
  reader of the payload are parameters, collected in the record \<open>license_crates\<close>.
\<close>

section \<open>Data\<close>

definition VERIFYING_KEY :: bytes where
  "VERIFYING_KEY = replicate 32 (CHR 0x00)"

record license_payload =
  lp_customer_id :: string
  lp_max_events_per_second :: "u32 option"
  lp_allow_ha :: bool
  lp_expires_at :: u64

record license =
  customer_id :: string
  max_events_per_second :: "u32 option"
  allow_ha :: bool
  expires_at :: u64

record 'k license_crates =
  url_safe_no_pad_decode :: "string \<Rightarrow> bytes option"
  key_from_bytes :: "bytes \<Rightarrow> 'k option"
  verify :: "'k \<Rightarrow> bytes \<Rightarrow> bytes \<Rightarrow> bool"
  payload_from_slice :: "bytes \<Rightarrow> license_payload option"

section \<open>Rights\<close>

definition is_expired :: "int \<Rightarrow> license \<Rightarrow> bool" where
  "is_expired now l \<longleftrightarrow> unat (expires_at l) \<le> epoch_secs now"

definition license_rate_limit :: "int \<Rightarrow> license \<Rightarrow> u32" where
  "license_rate_limit now l =
     (if is_expired now l then COMMUNITY_RATE_LIMIT
      else (case max_events_per_second l of None \<Rightarrow> u32_MAX | Some m \<Rightarrow> m))"

definition license_allows_ha :: "int \<Rightarrow> license \<Rightarrow> bool" where
  "license_allows_ha now l \<longleftrightarrow> \<not> is_expired now l \<and> allow_ha l"

definition effective_rate_limit :: "int \<Rightarrow> license option \<Rightarrow> u32" where
  "effective_rate_limit now lic =
     (case map_option (license_rate_limit now) lic of None \<Rightarrow> COMMUNITY_RATE_LIMIT | Some r \<Rightarrow> r)"

definition allows_ha :: "int \<Rightarrow> license option \<Rightarrow> bool" where
  "allows_ha now lic =
     (case map_option (license_allows_ha now) lic of None \<Rightarrow> False | Some b \<Rightarrow> b)"

section \<open>Loading\<close>

definition b64_decode :: "'k license_crates \<Rightarrow> string \<Rightarrow> bytes option" where
  "b64_decode c s = url_safe_no_pad_decode c s"

text \<open>\<open>try_into\<close> an array of 64 bytes fails on any other length; \<open>Signature::from_bytes\<close> cannot fail.\<close>

definition to_sig_bytes :: "bytes \<Rightarrow> bytes option" where
  "to_sig_bytes b = (if length b = 64 then Some b else None)"

definition parse_and_verify :: "'k license_crates \<Rightarrow> string \<Rightarrow> license option" where
  "parse_and_verify c key_str =
     Option.bind (split_once (CHR ''.'') key_str) (\<lambda>(payload_b64, sig_b64).
     Option.bind (b64_decode c payload_b64) (\<lambda>payload_bytes.
     Option.bind (Option.bind (b64_decode c sig_b64) to_sig_bytes) (\<lambda>sig_bytes.
     Option.bind (key_from_bytes c VERIFYING_KEY) (\<lambda>verifying_key.
     if \<not> verify c verifying_key payload_bytes sig_bytes then None
     else Option.bind (payload_from_slice c payload_bytes) (\<lambda>p.
       Some \<lparr>customer_id = lp_customer_id p,
             max_events_per_second = lp_max_events_per_second p,
             allow_ha = lp_allow_ha p,
             expires_at = lp_expires_at p\<rparr>)))))"

text \<open>\<open>var\<close> is the value of \<open>SKIALITH_LICENSE_KEY\<close>, absent when unset or not Unicode.\<close>

definition load :: "'k license_crates \<Rightarrow> string option \<Rightarrow> license option" where
  "load c var = (case var of None \<Rightarrow> None | Some raw \<Rightarrow> parse_and_verify c (trim raw))"

section \<open>What a licence rests on\<close>

text \<open>
  A payload is licensed when it was signed: both parts of the key decode, the second to 64 bytes,
  and the embedded key accepts the second as the signature of the first.
\<close>

definition signed_payload :: "'k license_crates \<Rightarrow> string \<Rightarrow> license_payload \<Rightarrow> bool" where
  "signed_payload c key_str p \<longleftrightarrow>
     (\<exists>a b m sig vk. key_str = a @ CHR ''.'' # b \<and> CHR ''.'' \<notin> set a
        \<and> url_safe_no_pad_decode c a = Some m \<and> url_safe_no_pad_decode c b = Some sig
        \<and> length sig = 64 \<and> key_from_bytes c VERIFYING_KEY = Some vk
        \<and> verify c vk m sig \<and> payload_from_slice c m = Some p)"

definition license_of :: "license_payload \<Rightarrow> license" where
  "license_of p = \<lparr>customer_id = lp_customer_id p, max_events_per_second = lp_max_events_per_second p,
     allow_ha = lp_allow_ha p, expires_at = lp_expires_at p\<rparr>"

lemma to_sig_bytes_Some [simp]: "to_sig_bytes b = Some s \<longleftrightarrow> s = b \<and> length b = 64"
  by (auto simp: to_sig_bytes_def)

lemma accepted_iff:
  "parse_and_verify c key_str = Some lic \<longleftrightarrow> (\<exists>p. signed_payload c key_str p \<and> lic = license_of p)"
  unfolding parse_and_verify_def signed_payload_def license_of_def b64_decode_def
  by (auto simp: bind_eq_Some_conv split_once_Some_iff split: if_splits) blast+

text \<open>A set of crates for the concrete runs: identity decoding, and a key that signs by repetition.\<close>

definition demo_crates :: "unit license_crates" where
  "demo_crates = \<lparr>url_safe_no_pad_decode = Some,
     key_from_bytes = (\<lambda>k. if length k = 32 then Some () else None),
     verify = (\<lambda>_ m sig. m \<noteq> [] \<and> sig = replicate 64 (hd m)),
     payload_from_slice = (\<lambda>m. Some \<lparr>lp_customer_id = m, lp_max_events_per_second = Some 5000,
       lp_allow_ha = True, lp_expires_at = 100\<rparr>)\<rparr>"

definition demo_key :: string where
  "demo_key = ''acme.'' @ replicate 64 (CHR ''a'')"

definition demo_license :: license where
  "demo_license = \<lparr>customer_id = ''acme'', max_events_per_second = Some 5000, allow_ha = True,
     expires_at = 100\<rparr>"

lemma demo_key_accepted: "parse_and_verify demo_crates demo_key = Some demo_license"
  by (simp add: parse_and_verify_def demo_key_def demo_crates_def demo_license_def b64_decode_def
      VERIFYING_KEY_def to_sig_bytes_def)

section \<open>Expiry\<close>

lemma is_expired_mono: "is_expired now l \<Longrightarrow> now \<le> now' \<Longrightarrow> is_expired now' l"
  unfolding is_expired_def epoch_secs_def epoch_ms_def
  by (meson div_le_mono nat_mono order_trans)

lemma effective_rate_limit_simps [simp]:
  "effective_rate_limit now None = COMMUNITY_RATE_LIMIT"
  "effective_rate_limit now (Some l) = license_rate_limit now l"
  by (simp_all add: effective_rate_limit_def)

lemma allows_ha_simps [simp]:
  "allows_ha now None = False"
  "allows_ha now (Some l) = license_allows_ha now l"
  by (simp_all add: allows_ha_def)

text \<open>
  Expiry is final and complete: from the second a licence expires on, it gives exactly the
  rights of no licence at all, the Community rate limit and no HA.
\<close>

theorem expired_is_community:
  assumes "is_expired now l" and "now \<le> now'"
  shows "effective_rate_limit now' (Some l) = effective_rate_limit now' None
    \<and> allows_ha now' (Some l) = allows_ha now' None"
  using is_expired_mono [OF assms] by (simp add: license_rate_limit_def license_allows_ha_def)

theorem expired_is_community_witness:
  "effective_rate_limit 99999 (Some demo_license) = 5000
   \<and> effective_rate_limit 123456 (Some demo_license) = 1000"
proof -
  have "is_expired 100000 demo_license"
    by (simp add: is_expired_def demo_license_def epoch_secs_def epoch_ms_def)
  from expired_is_community [OF this, of 123456] show ?thesis
    by (simp add: COMMUNITY_RATE_LIMIT_def license_rate_limit_def is_expired_def demo_license_def
        epoch_secs_def epoch_ms_def)
qed

text \<open>
  C24.  Whatever the environment variable holds and however the program was built, a rate limit other
  than the Community one, or HA, means that the variable holds a key signed over a payload that has
  not expired; the limit is then the payload's, or none if the payload gives none.
\<close>

theorem rights_need_signature:
  assumes "effective_rate_limit now (load c var) \<noteq> COMMUNITY_RATE_LIMIT \<or> allows_ha now (load c var)"
  shows "\<exists>raw p. var = Some raw \<and> signed_payload c (trim raw) p
    \<and> epoch_secs now < unat (lp_expires_at p)
    \<and> effective_rate_limit now (load c var)
        = (case lp_max_events_per_second p of None \<Rightarrow> u32_MAX | Some m \<Rightarrow> m)
    \<and> allows_ha now (load c var) = lp_allow_ha p"
proof -
  from assms obtain lic where lic: "load c var = Some lic" by (cases "load c var") auto
  then obtain raw where raw: "var = Some raw" "parse_and_verify c (trim raw) = Some lic"
    by (auto simp: load_def split: option.splits)
  then obtain p where p: "signed_payload c (trim raw) p" "lic = license_of p"
    by (auto simp: accepted_iff)
  with assms lic have "\<not> is_expired now lic"
    by (auto simp: license_rate_limit_def license_allows_ha_def)
  with p raw lic show ?thesis
    by (auto simp: is_expired_def license_of_def license_rate_limit_def license_allows_ha_def)
qed

theorem rights_need_signature_witness:
  "\<exists>raw p. Some (demo_key @ [CHR 0x0A]) = Some raw \<and> signed_payload demo_crates (trim raw) p
     \<and> effective_rate_limit 0 (load demo_crates (Some (demo_key @ [CHR 0x0A]))) = 5000"
proof -
  have "trim (demo_key @ [CHR 0x0A]) = demo_key" by code_simp
  then have loaded: "load demo_crates (Some (demo_key @ [CHR 0x0A])) = Some demo_license"
    by (simp add: load_def demo_key_accepted)
  have "allows_ha 0 (Some demo_license)"
    by (simp add: license_allows_ha_def is_expired_def demo_license_def epoch_secs_def epoch_ms_def)
  with loaded have "effective_rate_limit 0 (load demo_crates (Some (demo_key @ [CHR 0x0A])))
      \<noteq> COMMUNITY_RATE_LIMIT \<or> allows_ha 0 (load demo_crates (Some (demo_key @ [CHR 0x0A])))"
    by simp
  from rights_need_signature [OF this] loaded show ?thesis
    by (auto simp: license_rate_limit_def is_expired_def demo_license_def epoch_secs_def epoch_ms_def)
qed

end
