(* ===== verification/Instance_Lock.thy ===== *)
theory Instance_Lock
  imports Prelude
begin

text \<open>
  \<open>src/instance_lock.rs\<close>: the lock that keeps a second Community instance from starting, an entry of
  a NATS key-value bucket that is created by compare-and-swap, refreshed by a heartbeat and left to
  expire.  The bucket is a parameter: an abstract state \<open>'kv\<close> with the two calls the code makes on it
  (\<open>kv_api\<close>), and a view of it (\<open>kv_view\<close>) in which the documented behaviour is stated (\<open>kv_laws\<close>).
\<close>

section \<open>The key-value store\<close>

record kv_config =
  kc_bucket :: string
  kc_max_age :: millis
  kc_history :: nat

record 'kv kv_api =
  create_key_value :: "kv_config \<Rightarrow> 'kv \<Rightarrow> (string + unit) \<times> 'kv"
  kv_update :: "string \<Rightarrow> string \<Rightarrow> u64 \<Rightarrow> 'kv \<Rightarrow> (string + u64) \<times> 'kv"

text \<open>
  What there is to see of a bucket: its configuration, the live entry of a key (its revision and how
  long it has still to live), the last sequence number given out, and the passing of time.
\<close>

record 'kv kv_view =
  kv_bucket :: "'kv \<Rightarrow> kv_config option"
  kv_live :: "'kv \<Rightarrow> string \<Rightarrow> (u64 \<times> millis) option"
  kv_seq :: "'kv \<Rightarrow> u64"
  kv_elapse :: "millis \<Rightarrow> 'kv \<Rightarrow> 'kv"

definition kv_revision :: "'kv kv_view \<Rightarrow> 'kv \<Rightarrow> string \<Rightarrow> u64" where
  "kv_revision vw kv key = (case kv_live vw kv key of None \<Rightarrow> 0 | Some (rvn, _) \<Rightarrow> rvn)"

definition same_view :: "'kv kv_view \<Rightarrow> 'kv \<Rightarrow> 'kv \<Rightarrow> bool" where
  "same_view vw kv kv' \<longleftrightarrow> kv_bucket vw kv' = kv_bucket vw kv \<and> kv_live vw kv' = kv_live vw kv
     \<and> kv_seq vw kv' = kv_seq vw kv"

text \<open>The write of an entry: the next sequence number is its revision, and it lives for \<open>max_age\<close>.\<close>

definition written :: "'kv kv_view \<Rightarrow> string \<Rightarrow> 'kv \<Rightarrow> 'kv \<Rightarrow> bool" where
  "written vw key kv kv' \<longleftrightarrow> kv_bucket vw kv' = kv_bucket vw kv \<and> kv_seq vw kv' = kv_seq vw kv + 1
     \<and> (case kv_bucket vw kv of None \<Rightarrow> False
        | Some cfg \<Rightarrow> kv_live vw kv' = (kv_live vw kv)(key \<mapsto> (kv_seq vw kv + 1, kc_max_age cfg)))"

text \<open>
  The documented behaviour.  Creating a bucket touches no entry; if it succeeds the bucket has the
  given configuration, and if it fails that or the one it had.  An update that succeeds found the expected revision, zero standing for no
  entry, and answers the new one; one that fails either changed nothing, or found the expected revision
  and was carried out all the same.  Time removes entries, never sequence numbers.
\<close>

definition kv_laws :: "'kv kv_api \<Rightarrow> 'kv kv_view \<Rightarrow> bool" where
  "kv_laws api vw \<longleftrightarrow>
     (\<forall>cfg kv. kv_live vw (snd (create_key_value api cfg kv)) = kv_live vw kv
        \<and> kv_seq vw (snd (create_key_value api cfg kv)) = kv_seq vw kv
        \<and> (is_ok (fst (create_key_value api cfg kv)) \<longrightarrow>
             kv_bucket vw (snd (create_key_value api cfg kv)) = Some cfg)
        \<and> kv_bucket vw (snd (create_key_value api cfg kv)) \<in> {kv_bucket vw kv, Some cfg})
     \<and> (\<forall>key v rvn kv n. fst (kv_update api key v rvn kv) = Inr n \<longrightarrow>
          rvn = kv_revision vw kv key \<and> n = kv_seq vw kv + 1 \<and> written vw key kv (snd (kv_update api key v rvn kv)))
     \<and> (\<forall>key v rvn kv e. fst (kv_update api key v rvn kv) = Inl e \<longrightarrow>
          same_view vw kv (snd (kv_update api key v rvn kv))
          \<or> rvn = kv_revision vw kv key \<and> written vw key kv (snd (kv_update api key v rvn kv)))
     \<and> (\<forall>d kv. kv_bucket vw (kv_elapse vw d kv) = kv_bucket vw kv
        \<and> kv_seq vw (kv_elapse vw d kv) = kv_seq vw kv
        \<and> (\<forall>key. kv_live vw (kv_elapse vw d kv) key =
             (case kv_live vw kv key of None \<Rightarrow> None
              | Some (rvn, left) \<Rightarrow> if d < left then Some (rvn, left - d) else None)))"

text \<open>
  A server that can be reached for every call: what may succeed does.  No server promises that; it is a
  hypothesis of what happens in such a time.
\<close>

definition kv_reliable :: "'kv kv_api \<Rightarrow> 'kv kv_view \<Rightarrow> bool" where
  "kv_reliable api vw \<longleftrightarrow>
     (\<forall>cfg kv. kv_bucket vw kv = None \<or> kv_bucket vw kv = Some cfg \<longrightarrow>
        is_ok (fst (create_key_value api cfg kv)))
     \<and> (\<forall>key v kv. kv_bucket vw kv \<noteq> None \<longrightarrow>
          is_ok (fst (kv_update api key v (kv_revision vw kv key) kv)))"

section \<open>The lock\<close>

definition LOCK_BUCKET :: string where
  "LOCK_BUCKET = ''skialith-community-instance''"

definition LOCK_KEY :: string where
  "LOCK_KEY = ''lock''"

definition LOCK_TTL :: millis where
  "LOCK_TTL = 30 * 1000"

definition HEARTBEAT_INTERVAL :: millis where
  "HEARTBEAT_INTERVAL = 10 * 1000"

datatype lock_error = AlreadyRunning | Lock_Nats string

fun lock_error_to_string :: "lock_error \<Rightarrow> string" where
  "lock_error_to_string AlreadyRunning =
     ''Community Edition allows only one instance.'' @ [CHR 0x0A] @
     ''Another instance is already running (NATS KV lock held).'' @ [CHR 0x0A] @
     ''Running multiple instances bypasses the Community rate limit and risks duplicate writes.'' @ [CHR 0x0A] @
     ''Upgrade to an enterprise license for coordinated HA: hello@durable.dev''"
| "lock_error_to_string (Lock_Nats e) = ''NATS KV error acquiring instance lock: '' @ e"

text \<open>
  The heartbeat task of an \<open>InstanceLock\<close>: \<open>std::future::pending()\<close>, the loop with its \<open>revision\<close>,
  the loop left by its \<open>break\<close>, or aborted.
\<close>

datatype heartbeat = Pending | Beating u64 | Ended | Aborted

definition lock_config :: kv_config where
  "lock_config = \<lparr>kc_bucket = LOCK_BUCKET, kc_max_age = LOCK_TTL, kc_history = 1\<rparr>"

definition acquire :: "'kv kv_api \<Rightarrow> bool \<Rightarrow> 'kv \<Rightarrow> (lock_error + heartbeat) \<times> 'kv" where
  "acquire api skip kv =
     (if skip then (Inr Pending, kv)
      else (case create_key_value api lock_config kv of
              (Inl e, kv') \<Rightarrow> (Inl (Lock_Nats e), kv')
            | (Inr _, kv') \<Rightarrow>
                (case kv_update api LOCK_KEY ''1'' 0 kv' of
                   (Inl _, kv'') \<Rightarrow> (Inl AlreadyRunning, kv'')
                 | (Inr _, kv'') \<Rightarrow> (Inr (Beating 1), kv''))))"

text \<open>One turn of the heartbeat's loop; the ticker's first tick is immediate, the others follow at
  \<open>HEARTBEAT_INTERVAL\<close>.\<close>

definition heartbeat_tick :: "'kv kv_api \<Rightarrow> heartbeat \<Rightarrow> 'kv \<Rightarrow> heartbeat \<times> 'kv" where
  "heartbeat_tick api hb kv =
     (case hb of
        Beating revision \<Rightarrow>
          (case kv_update api LOCK_KEY ''1'' revision kv of
             (Inr new_rev, kv') \<Rightarrow> (Beating new_rev, kv')
           | (Inl _, kv') \<Rightarrow> (Ended, kv'))
      | _ \<Rightarrow> (hb, kv))"

definition lock_drop :: "heartbeat \<Rightarrow> heartbeat" where
  "lock_drop hb = (case hb of Ended \<Rightarrow> Ended | _ \<Rightarrow> Aborted)"

section \<open>Calls under the laws\<close>

lemma create_cases:
  assumes "kv_laws api vw" and "create_key_value api cfg kv = (r, kv')"
  shows "kv_live vw kv' = kv_live vw kv" "kv_seq vw kv' = kv_seq vw kv"
    "is_ok r \<Longrightarrow> kv_bucket vw kv' = Some cfg" "kv_bucket vw kv' \<in> {kv_bucket vw kv, Some cfg}"
  using assms(1) unfolding kv_laws_def by (metis assms(2) fst_conv snd_conv)+

lemma update_Inr:
  assumes "kv_laws api vw" and "kv_update api key v rvn kv = (Inr n, kv')"
  shows "rvn = kv_revision vw kv key" "n = kv_seq vw kv + 1" "written vw key kv kv'"
  using assms(1) unfolding kv_laws_def by (metis assms(2) fst_conv snd_conv)+

lemma update_Inl:
  assumes "kv_laws api vw" and "fst (kv_update api key v rvn kv) = Inl e"
  shows "same_view vw kv (snd (kv_update api key v rvn kv))
    \<or> rvn = kv_revision vw kv key \<and> written vw key kv (snd (kv_update api key v rvn kv))"
proof -
  from assms(1) have "\<forall>key v rvn kv e. fst (kv_update api key v rvn kv) = Inl e \<longrightarrow>
      same_view vw kv (snd (kv_update api key v rvn kv))
      \<or> rvn = kv_revision vw kv key \<and> written vw key kv (snd (kv_update api key v rvn kv))"
    unfolding kv_laws_def by (elim conjE)
  with assms(2) show ?thesis by metis
qed

lemma update_mismatch:
  assumes "kv_laws api vw" and "rvn \<noteq> kv_revision vw kv key" and "kv_update api key v rvn kv = (r, kv')"
  shows "\<exists>e. r = Inl e" "same_view vw kv kv'"
proof -
  show err: "\<exists>e. r = Inl e"
  proof (cases r)
    case (Inr n)
    with assms(3) have "kv_update api key v rvn kv = (Inr n, kv')" by simp
    from update_Inr(1) [OF assms(1) this] assms(2) show ?thesis by simp
  qed simp
  then obtain e where "fst (kv_update api key v rvn kv) = Inl e" using assms(3) by auto
  from update_Inl [OF assms(1) this] assms(2,3) show "same_view vw kv kv'" by simp
qed

lemma update_match:
  assumes "kv_laws api vw" and "kv_reliable api vw" and "kv_bucket vw kv \<noteq> None"
    and "rvn = kv_revision vw kv key"
  obtains kv' where "kv_update api key v rvn kv = (Inr (kv_seq vw kv + 1), kv')" "written vw key kv kv'"
proof -
  obtain r kv' where run: "kv_update api key v rvn kv = (r, kv')" by fastforce
  have "is_ok r" using assms(2-4) run unfolding kv_reliable_def by (metis fst_conv)
  then obtain n where "r = Inr n" by (cases r) auto
  with run have ok: "kv_update api key v rvn kv = (Inr n, kv')" by simp
  show thesis
    using that [of kv'] ok update_Inr(2,3) [OF assms(1) ok] by simp
qed

lemma elapse_view:
  assumes "kv_laws api vw"
  shows "kv_bucket vw (kv_elapse vw d kv) = kv_bucket vw kv"
    "kv_seq vw (kv_elapse vw d kv) = kv_seq vw kv"
    "kv_live vw (kv_elapse vw d kv) key =
       (case kv_live vw kv key of None \<Rightarrow> None
        | Some (rvn, left) \<Rightarrow> if d < left then Some (rvn, left - d) else None)"
  using assms unfolding kv_laws_def by blast+

lemma written_live:
  assumes "written vw key kv kv'" and "kv_bucket vw kv = Some cfg"
  shows "kv_live vw kv' key = Some (kv_seq vw kv + 1, kc_max_age cfg)"
    "kv_seq vw kv' = kv_seq vw kv + 1" "kv_bucket vw kv' = Some cfg"
  using assms by (auto simp: written_def)

lemma written_revision: "written vw key kv kv' \<Longrightarrow> kv_revision vw kv' key = kv_seq vw kv + 1"
  by (auto simp: written_def kv_revision_def split: option.splits)

text \<open>Taking the lock.\<close>

lemma acquire_Ok:
  assumes "kv_laws api vw" and "acquire api False kv = (Inr hb, kv')"
  shows "hb = Beating 1" and "kv_revision vw kv LOCK_KEY = 0"
    and "kv_live vw kv' LOCK_KEY = Some (kv_seq vw kv + 1, LOCK_TTL)"
    and "kv_seq vw kv' = kv_seq vw kv + 1" and "kv_bucket vw kv' = Some lock_config"
proof -
  obtain u kv1 n where create: "create_key_value api lock_config kv = (Inr u, kv1)"
    and update: "kv_update api LOCK_KEY ''1'' 0 kv1 = (Inr n, kv')" and "hb = Beating 1"
    using assms(2) by (auto simp: acquire_def split: prod.splits sum.splits)
  then show "hb = Beating 1" by simp
  note made = create_cases [OF assms(1) create]
  have bucket: "kv_bucket vw kv1 = Some lock_config" using made(3) by simp
  note took = update_Inr [OF assms(1) update]
  show "kv_revision vw kv LOCK_KEY = 0" using took(1) made(1) by (simp add: kv_revision_def)
  show "kv_live vw kv' LOCK_KEY = Some (kv_seq vw kv + 1, LOCK_TTL)"
    and "kv_seq vw kv' = kv_seq vw kv + 1" and "kv_bucket vw kv' = Some lock_config"
    using written_live [OF took(3) bucket] made(2) by (simp_all add: lock_config_def)
qed

lemma acquire_held:
  assumes "kv_laws api vw" and "kv_revision vw kv LOCK_KEY \<noteq> 0" and "acquire api False kv = (r, kv')"
  shows "\<exists>e. r = Inl e" and "kv_live vw kv' = kv_live vw kv" and "kv_seq vw kv' = kv_seq vw kv"
    and "kv_bucket vw kv = Some lock_config \<Longrightarrow> kv_bucket vw kv' = Some lock_config"
    and "kv_reliable api vw \<Longrightarrow> kv_bucket vw kv = Some lock_config \<Longrightarrow> r = Inl AlreadyRunning"
proof -
  obtain c kv1 where create: "create_key_value api lock_config kv = (c, kv1)" by fastforce
  obtain u kv2 where update: "kv_update api LOCK_KEY ''1'' 0 kv1 = (u, kv2)" by fastforce
  note made = create_cases [OF assms(1) create]
  have "0 \<noteq> kv_revision vw kv1 LOCK_KEY" using assms(2) made(1) by (simp add: kv_revision_def)
  from update_mismatch [OF assms(1) this update] obtain e where
    "u = Inl e" and view: "same_view vw kv1 kv2" by auto
  with create update assms(3) made(1,2)
  show "\<exists>e. r = Inl e" and "kv_live vw kv' = kv_live vw kv" and "kv_seq vw kv' = kv_seq vw kv"
    by (cases c; auto simp: acquire_def same_view_def)+
  assume bucket: "kv_bucket vw kv = Some lock_config"
  with create update assms(3) made(4) view \<open>u = Inl e\<close> show "kv_bucket vw kv' = Some lock_config"
    by (cases c; auto simp: acquire_def same_view_def)
  assume "kv_reliable api vw"
  with bucket have "is_ok c" using create unfolding kv_reliable_def by (metis fst_conv)
  with create update assms(3) \<open>u = Inl e\<close> show "r = Inl AlreadyRunning"
    by (cases c) (auto simp: acquire_def)
qed

lemma acquire_free:
  assumes "kv_laws api vw" and "kv_reliable api vw"
    and "kv_revision vw kv LOCK_KEY = 0"
    and "kv_bucket vw kv = None \<or> kv_bucket vw kv = Some lock_config"
  obtains kv' where "acquire api False kv = (Inr (Beating 1), kv')"
proof -
  obtain c kv1 where create: "create_key_value api lock_config kv = (c, kv1)" by fastforce
  have ok: "is_ok c" using assms(2,4) create unfolding kv_reliable_def by (metis fst_conv)
  note made = create_cases [OF assms(1) create]
  have "kv_bucket vw kv1 \<noteq> None" using made(3) [OF ok] by simp
  moreover have "0 = kv_revision vw kv1 LOCK_KEY" using assms(3) made(1) by (simp add: kv_revision_def)
  ultimately obtain kv2 where "kv_update api LOCK_KEY ''1'' 0 kv1 = (Inr (kv_seq vw kv1 + 1), kv2)"
    by (rule update_match [OF assms(1,2)])
  with create ok that show thesis by (cases c) (auto simp: acquire_def)
qed

section \<open>An instance of the store\<close>

record demo_kv =
  dk_bucket :: "kv_config option"
  dk_live :: "string \<Rightarrow> (u64 \<times> millis) option"
  dk_seq :: u64

definition demo_view :: "demo_kv kv_view" where
  "demo_view = \<lparr>kv_bucket = dk_bucket, kv_live = dk_live, kv_seq = dk_seq,
     kv_elapse = (\<lambda>d kv. kv\<lparr>dk_live := (\<lambda>key.
       case dk_live kv key of None \<Rightarrow> None
       | Some (rvn, left) \<Rightarrow> if d < left then Some (rvn, left - d) else None)\<rparr>)\<rparr>"

definition demo_kv_api :: "demo_kv kv_api" where
  "demo_kv_api = \<lparr>
     create_key_value = (\<lambda>cfg kv.
       if dk_bucket kv = None \<or> dk_bucket kv = Some cfg then (Inr (), kv\<lparr>dk_bucket := Some cfg\<rparr>)
       else (Inl ''stream name already in use'', kv)),
     kv_update = (\<lambda>key v rvn kv.
       case dk_bucket kv of
         None \<Rightarrow> (Inl ''no stream'', kv)
       | Some cfg \<Rightarrow>
           if rvn = kv_revision demo_view kv key
           then (Inr (dk_seq kv + 1), kv\<lparr>dk_live := (dk_live kv)(key \<mapsto> (dk_seq kv + 1, kc_max_age cfg)),
                                         dk_seq := dk_seq kv + 1\<rparr>)
           else (Inl ''wrong last sequence'', kv))\<rparr>"

definition demo_fresh :: demo_kv where
  "demo_fresh = \<lparr>dk_bucket = None, dk_live = (\<lambda>_. None), dk_seq = 0\<rparr>"

lemma demo_kv_laws: "kv_laws demo_kv_api demo_view"
  by (auto simp: kv_laws_def demo_kv_api_def demo_view_def kv_revision_def written_def same_view_def
      split: option.splits if_splits prod.splits)

lemma demo_kv_reliable: "kv_reliable demo_kv_api demo_view"
  by (auto simp: kv_reliable_def demo_kv_api_def demo_view_def kv_revision_def split: option.splits)

lemma demo_acquire:
  "dk_bucket kv = None \<or> dk_bucket kv = Some lock_config \<Longrightarrow> kv_revision demo_view kv LOCK_KEY = 0 \<Longrightarrow>
     acquire demo_kv_api False kv =
       (Inr (Beating 1), kv\<lparr>dk_bucket := Some lock_config,
          dk_live := (dk_live kv)(LOCK_KEY \<mapsto> (dk_seq kv + 1, LOCK_TTL)), dk_seq := dk_seq kv + 1\<rparr>)"
  by (auto simp: acquire_def demo_kv_api_def kv_revision_def demo_view_def lock_config_def)

section \<open>The lock without a heartbeat\<close>

text \<open>
  A lock that nobody refreshes, its holder having crashed or dropped it, blocks every other
  instance for exactly \<open>LOCK_TTL\<close>: before, \<open>acquire\<close> fails, and from then on it succeeds.
\<close>

theorem lock_blocks_until_ttl:
  assumes "kv_laws api vw" and "kv_reliable api vw" and "kv_seq vw kv + 1 \<noteq> 0"
    and "acquire api False kv = (Inr hb, kv')"
  shows "is_ok (fst (acquire api False (kv_elapse vw d kv'))) \<longleftrightarrow> 30000 \<le> d"
proof -
  note took = acquire_Ok [OF assms(1,4)]
  let ?kv = "kv_elapse vw d kv'"
  have live: "kv_live vw ?kv LOCK_KEY = (if d < LOCK_TTL then Some (kv_seq vw kv + 1, LOCK_TTL - d) else None)"
    using took(3) by (simp add: elapse_view [OF assms(1)])
  show ?thesis
  proof (cases "d < LOCK_TTL")
    case True
    with live assms(3) have "kv_revision vw ?kv LOCK_KEY \<noteq> 0" by (simp add: kv_revision_def)
    from acquire_held(1) [OF assms(1) this] have "\<not> is_ok (fst (acquire api False ?kv))"
      by (metis is_ok_simps(1) prod.collapse)
    with True show ?thesis by (simp add: LOCK_TTL_def)
  next
    case False
    with live have "kv_revision vw ?kv LOCK_KEY = 0" by (simp add: kv_revision_def)
    moreover have "kv_bucket vw ?kv = None \<or> kv_bucket vw ?kv = Some lock_config"
      using took(5) by (simp add: elapse_view [OF assms(1)])
    ultimately obtain kv2 where "acquire api False ?kv = (Inr (Beating 1), kv2)"
      by (rule acquire_free [OF assms(1,2)])
    with False show ?thesis by (simp add: LOCK_TTL_def)
  qed
qed

theorem lock_blocks_until_ttl_witness:
  "let kv' = snd (acquire demo_kv_api False demo_fresh)
   in \<not> is_ok (fst (acquire demo_kv_api False (kv_elapse demo_view 29999 kv')))
      \<and> is_ok (fst (acquire demo_kv_api False (kv_elapse demo_view 30000 kv')))"
proof -
  have seq: "kv_seq demo_view demo_fresh + 1 \<noteq> 0" by (simp add: demo_view_def demo_fresh_def)
  have "acquire demo_kv_api False demo_fresh
      = (Inr (Beating 1), snd (acquire demo_kv_api False demo_fresh))"
    by (subst (1 2) demo_acquire) (simp_all add: demo_fresh_def kv_revision_def demo_view_def)
  note blocks = lock_blocks_until_ttl [OF demo_kv_laws demo_kv_reliable seq this]
  show ?thesis using blocks [of 29999] blocks [of 30000] by (simp add: Let_def)
qed

section \<open>A bucket that was used before\<close>

text \<open>
  C38.  The heartbeat presumes a fresh bucket: its first update expects revision 1, but a bucket that
  has given out a revision before never gives out 1 again.  Then the first tick fails and ends the
  heartbeat, and \<open>LOCK_TTL\<close> later a second instance acquires the lock although the first still runs.
\<close>

theorem reacquired_lock_lapses:
  assumes "kv_laws api vw" and "kv_reliable api vw" and "kv_seq vw kv \<noteq> 0"
    and "acquire api False kv = (Inr hb, kv1)" and "heartbeat_tick api hb kv1 = (hb', kv2)"
  shows "hb' = Ended \<and> heartbeat_tick api hb' kv = (Ended, kv)
    \<and> is_ok (fst (acquire api False (kv_elapse vw LOCK_TTL kv2)))"
proof -
  note took = acquire_Ok [OF assms(1,4)]
  have "1 \<noteq> kv_revision vw kv1 LOCK_KEY"
    using took(3) assms(3) by (simp add: kv_revision_def)
  moreover obtain r where update: "kv_update api LOCK_KEY ''1'' 1 kv1 = (r, kv2)"
    using assms(5) took(1) by (auto simp: heartbeat_tick_def split: prod.splits sum.splits)
  ultimately obtain e where r: "r = Inl e" and view: "same_view vw kv1 kv2"
    using update_mismatch [OF assms(1)] by metis
  with update assms(5) took(1) have ended: "hb' = Ended" by (simp add: heartbeat_tick_def)
  let ?kv = "kv_elapse vw LOCK_TTL kv2"
  have "kv_revision vw ?kv LOCK_KEY = 0"
    using took(3) view by (simp add: kv_revision_def elapse_view [OF assms(1)] same_view_def)
  moreover have "kv_bucket vw ?kv = None \<or> kv_bucket vw ?kv = Some lock_config"
    using took(5) view by (simp add: elapse_view [OF assms(1)] same_view_def)
  ultimately obtain kv3 where "acquire api False ?kv = (Inr (Beating 1), kv3)"
    by (rule acquire_free [OF assms(1,2)])
  with ended show ?thesis by (simp add: heartbeat_tick_def)
qed

theorem reacquired_lock_lapses_witness:
  "let kv = demo_fresh\<lparr>dk_seq := 4\<rparr>; (r, kv1) = acquire demo_kv_api False kv;
       (hb, kv2) = heartbeat_tick demo_kv_api (Beating 1) kv1
   in r = Inr (Beating 1) \<and> hb = Ended
      \<and> is_ok (fst (acquire demo_kv_api False (kv_elapse demo_view LOCK_TTL kv2)))"
proof -
  let ?kv = "demo_fresh\<lparr>dk_seq := 4\<rparr>"
  have seq: "kv_seq demo_view ?kv \<noteq> 0" by (simp add: demo_view_def)
  obtain kv1 where took: "acquire demo_kv_api False ?kv = (Inr (Beating 1), kv1)"
    using demo_acquire [of ?kv] by (simp add: demo_fresh_def kv_revision_def demo_view_def)
  obtain hb kv2 where tick: "heartbeat_tick demo_kv_api (Beating 1) kv1 = (hb, kv2)" by fastforce
  from reacquired_lock_lapses [OF demo_kv_laws demo_kv_reliable seq took tick] took tick
  show ?thesis by simp
qed

section \<open>Instances on one bucket\<close>

text \<open>
  Instance \<open>i\<close> runs when it holds an \<open>InstanceLock\<close>.  An instance starts (and runs if \<open>acquire\<close>
  succeeds), its heartbeat ticks, it stops or crashes, or time passes, of which a running instance lets
  no \<open>LOCK_TTL\<close> go by without a tick: the ticker asks for one every \<open>HEARTBEAT_INTERVAL\<close>, a third of
  it, and an instance that is suspended for longer is not covered.  The bucket has sequence numbers left.
  \<open>ls_since\<close> and \<open>ls_stopped\<close> (whether any instance has ever stopped) are not kept by the code.
\<close>

record 'kv lock_sys =
  ls_kv :: 'kv
  ls_inst :: "nat \<Rightarrow> heartbeat option"
  ls_since :: "nat \<Rightarrow> millis"
  ls_stopped :: bool

definition lock_init :: "'kv kv_view \<Rightarrow> 'kv lock_sys \<Rightarrow> bool" where
  "lock_init vw s \<longleftrightarrow> kv_seq vw (ls_kv s) = 0 \<and> kv_live vw (ls_kv s) LOCK_KEY = None
     \<and> (kv_bucket vw (ls_kv s) = None \<or> kv_bucket vw (ls_kv s) = Some lock_config)
     \<and> ls_inst s = (\<lambda>_. None) \<and> \<not> ls_stopped s"

definition started :: "lock_error + heartbeat \<Rightarrow> heartbeat option" where
  "started r = (case r of Inl _ \<Rightarrow> None | Inr hb \<Rightarrow> Some hb)"

inductive lock_step :: "'kv kv_api \<Rightarrow> 'kv kv_view \<Rightarrow> 'kv lock_sys \<Rightarrow> 'kv lock_sys \<Rightarrow> bool"
  for api :: "'kv kv_api" and vw :: "'kv kv_view" where
  start: "ls_inst s i = None \<Longrightarrow> kv_seq vw (ls_kv s) + 1 \<noteq> 0 \<Longrightarrow> acquire api False (ls_kv s) = (r, kv') \<Longrightarrow>
    lock_step api vw s (s\<lparr>ls_kv := kv', ls_inst := (ls_inst s)(i := started r),
      ls_since := (ls_since s)(i := 0)\<rparr>)"
| beat: "ls_inst s i = Some hb \<Longrightarrow> kv_seq vw (ls_kv s) + 1 \<noteq> 0 \<Longrightarrow>
    heartbeat_tick api hb (ls_kv s) = (hb', kv') \<Longrightarrow>
    lock_step api vw s (s\<lparr>ls_kv := kv', ls_inst := (ls_inst s)(i := Some hb'),
      ls_since := (ls_since s)(i := 0)\<rparr>)"
| stop: "ls_inst s i = Some hb \<Longrightarrow>
    lock_step api vw s (s\<lparr>ls_inst := (ls_inst s)(i := None), ls_stopped := True\<rparr>)"
| elapse: "(\<And>i hb. ls_inst s i = Some hb \<Longrightarrow> ls_since s i + d < LOCK_TTL) \<Longrightarrow>
    lock_step api vw s (s\<lparr>ls_kv := kv_elapse vw d (ls_kv s), ls_since := (\<lambda>i. ls_since s i + d)\<rparr>)"

inductive_cases lock_stepE: "lock_step api vw s s'"

definition none_running :: "'kv kv_view \<Rightarrow> 'kv lock_sys \<Rightarrow> bool" where
  "none_running vw s \<longleftrightarrow> ls_inst s = (\<lambda>_. None) \<and> kv_seq vw (ls_kv s) = 0
     \<and> kv_live vw (ls_kv s) LOCK_KEY = None
     \<and> (kv_bucket vw (ls_kv s) = None \<or> kv_bucket vw (ls_kv s) = Some lock_config)"

definition only_running :: "'kv kv_view \<Rightarrow> 'kv lock_sys \<Rightarrow> nat \<Rightarrow> bool" where
  "only_running vw s i \<longleftrightarrow> (\<exists>rvn left. ls_inst s = (\<lambda>_. None)(i \<mapsto> Beating rvn) \<and> rvn \<noteq> 0
     \<and> kv_live vw (ls_kv s) LOCK_KEY = Some (rvn, left) \<and> left + ls_since s i = LOCK_TTL
     \<and> ls_since s i < LOCK_TTL \<and> kv_bucket vw (ls_kv s) = Some lock_config)"

definition lock_inv :: "'kv kv_view \<Rightarrow> 'kv lock_sys \<Rightarrow> bool" where
  "lock_inv vw s \<longleftrightarrow> ls_stopped s \<or> none_running vw s \<or> (\<exists>i. only_running vw s i)"

lemma tick_keeps_lock:
  assumes "kv_laws api vw" and "kv_reliable api vw" and "kv_bucket vw kv = Some lock_config"
    and "kv_live vw kv LOCK_KEY = Some (rvn, left)" and "heartbeat_tick api (Beating rvn) kv = (hb', kv')"
  shows "hb' = Beating (kv_seq vw kv + 1)"
    and "kv_live vw kv' LOCK_KEY = Some (kv_seq vw kv + 1, LOCK_TTL)"
    and "kv_bucket vw kv' = Some lock_config"
proof -
  have bucket: "kv_bucket vw kv \<noteq> None" using assms(3) by simp
  have match: "rvn = kv_revision vw kv LOCK_KEY" using assms(4) by (simp add: kv_revision_def)
  obtain kv2 where update: "kv_update api LOCK_KEY ''1'' rvn kv = (Inr (kv_seq vw kv + 1), kv2)"
    and wrote: "written vw LOCK_KEY kv kv2"
    by (rule update_match [OF assms(1,2) bucket match])
  show "hb' = Beating (kv_seq vw kv + 1)"
    and "kv_live vw kv' LOCK_KEY = Some (kv_seq vw kv + 1, LOCK_TTL)"
    and "kv_bucket vw kv' = Some lock_config"
    using assms(5) update written_live [OF wrote assms(3)]
    by (simp_all add: heartbeat_tick_def lock_config_def)
qed

lemma none_running_start:
  assumes "kv_laws api vw" and "kv_reliable api vw" and "none_running vw s"
    and "acquire api False (ls_kv s) = (r, kv')"
  shows "only_running vw (s\<lparr>ls_kv := kv', ls_inst := (ls_inst s)(i := started r),
    ls_since := (ls_since s)(i := 0)\<rparr>) i"
proof -
  have "kv_revision vw (ls_kv s) LOCK_KEY = 0"
    and "kv_bucket vw (ls_kv s) = None \<or> kv_bucket vw (ls_kv s) = Some lock_config"
    using assms(3) by (simp_all add: none_running_def kv_revision_def)
  then obtain kv2 where "acquire api False (ls_kv s) = (Inr (Beating 1), kv2)"
    by (rule acquire_free [OF assms(1,2)])
  with assms(4) have r: "r = Inr (Beating 1)" and "acquire api False (ls_kv s) = (Inr (Beating 1), kv')"
    by simp_all
  note took = acquire_Ok [OF assms(1) this(2)]
  show ?thesis
    using assms(3) took(3,5) r by (simp add: only_running_def none_running_def started_def LOCK_TTL_def)
qed

lemma only_running_start:
  assumes "kv_laws api vw" and "kv_reliable api vw" and "only_running vw s j"
    and "ls_inst s i = None" and "acquire api False (ls_kv s) = (r, kv')"
  shows "only_running vw (s\<lparr>ls_kv := kv', ls_inst := (ls_inst s)(i := started r),
    ls_since := (ls_since s)(i := 0)\<rparr>) j"
proof -
  obtain rvn left where s: "ls_inst s = (\<lambda>_. None)(j \<mapsto> Beating rvn)" "rvn \<noteq> 0"
    "kv_live vw (ls_kv s) LOCK_KEY = Some (rvn, left)" "left + ls_since s j = LOCK_TTL"
    "ls_since s j < LOCK_TTL" "kv_bucket vw (ls_kv s) = Some lock_config"
    using assms(3) by (auto simp: only_running_def)
  then have "kv_revision vw (ls_kv s) LOCK_KEY \<noteq> 0" by (simp add: kv_revision_def)
  note held = acquire_held [OF assms(1) this assms(5)]
  have "i \<noteq> j" using s(1) assms(4) by auto
  moreover have "started r = None" using held(1) by (auto simp: started_def)
  ultimately show ?thesis
    using s held(2) held(4) [OF s(6)] by (auto simp: only_running_def)
qed

lemma only_running_beat:
  assumes "kv_laws api vw" and "kv_reliable api vw" and "only_running vw s j"
    and "ls_inst s i = Some hb" and "kv_seq vw (ls_kv s) + 1 \<noteq> 0"
    and "heartbeat_tick api hb (ls_kv s) = (hb', kv')"
  shows "only_running vw (s\<lparr>ls_kv := kv', ls_inst := (ls_inst s)(i := Some hb'),
    ls_since := (ls_since s)(i := 0)\<rparr>) j"
proof -
  obtain rvn left where s: "ls_inst s = (\<lambda>_. None)(j \<mapsto> Beating rvn)"
    "kv_live vw (ls_kv s) LOCK_KEY = Some (rvn, left)" "kv_bucket vw (ls_kv s) = Some lock_config"
    using assms(3) by (auto simp: only_running_def)
  then have "i = j" and "hb = Beating rvn" using assms(4) by (auto split: if_splits)
  with assms(6) have "heartbeat_tick api (Beating rvn) (ls_kv s) = (hb', kv')" by simp
  from tick_keeps_lock [OF assms(1,2) s(3,2) this] s(1) assms(5) \<open>i = j\<close> show ?thesis
    by (auto simp: only_running_def LOCK_TTL_def)
qed

lemma lock_inv_step:
  assumes "kv_laws api vw" and "kv_reliable api vw" and "lock_inv vw s" and "lock_step api vw s s'"
  shows "lock_inv vw s'"
proof (cases "ls_stopped s")
  case True
  with assms(4) show ?thesis by (cases rule: lock_step.cases) (simp_all add: lock_inv_def)
next
  case False
  from assms(4) show ?thesis
  proof (cases rule: lock_step.cases)
    case (start i r kv')
    with assms(3) False show ?thesis
      by (auto simp: lock_inv_def intro: none_running_start [OF assms(1,2)] only_running_start [OF assms(1,2)])
  next
    case (beat i hb hb' kv')
    from beat(2) have "\<not> none_running vw s" by (auto simp: none_running_def)
    with beat assms(3) False show ?thesis
      by (auto simp: lock_inv_def intro: only_running_beat [OF assms(1,2)])
  next
    case (stop i hb)
    then show ?thesis by (simp add: lock_inv_def)
  next
    case (elapse d)
    have "only_running vw s i \<Longrightarrow> only_running vw s' i" for i
      using elapse(2) [of i] unfolding elapse(1)
      by (auto simp: only_running_def elapse_view [OF assms(1)])
    moreover have "none_running vw s \<Longrightarrow> none_running vw s'"
      unfolding elapse(1) by (simp add: none_running_def elapse_view [OF assms(1)])
    ultimately show ?thesis using assms(3) False by (auto simp: lock_inv_def elapse(1))
  qed
qed

interpretation lock: inductive_invariant "lock_init vw" "lock_step api vw"
    "\<lambda>s. kv_laws api vw \<and> kv_reliable api vw \<longrightarrow> lock_inv vw s" for api vw
proof unfold_locales
  fix s
  assume "lock_init vw s"
  then show "kv_laws api vw \<and> kv_reliable api vw \<longrightarrow> lock_inv vw s"
    by (simp add: lock_init_def lock_inv_def none_running_def)
next
  fix s t
  assume "kv_laws api vw \<and> kv_reliable api vw \<longrightarrow> lock_inv vw s" and "lock_step api vw s t"
  then show "kv_laws api vw \<and> kv_reliable api vw \<longrightarrow> lock_inv vw t"
    by (auto intro: lock_inv_step)
qed

text \<open>
  While the server can be reached, the lock of a fresh bucket is exclusive until an instance stops: there
  are never two instances that hold it, and the one there is has a heartbeat whose revision is that of
  the live entry.
\<close>

theorem one_holder_until_stop:
  assumes "kv_laws api vw" and "kv_reliable api vw"
    and "reach (lock_init vw) (lock_step api vw) s" and "\<not> ls_stopped s"
    and "ls_inst s i = Some hb" and "ls_inst s j = Some hb'"
  shows "i = j \<and> (\<exists>rvn left. hb = Beating rvn
    \<and> kv_live vw (ls_kv s) LOCK_KEY = Some (rvn, left) \<and> 0 < left)"
proof -
  have "lock_inv vw s" using lock.reach_inv [OF assms(3)] assms(1,2) by blast
  with assms(4,5) obtain k where k: "only_running vw s k"
    by (auto simp: lock_inv_def none_running_def)
  with assms(5,6) have "i = k" "j = k" by (auto simp: only_running_def split: if_splits)
  with k assms(5) show ?thesis by (auto simp: only_running_def)
qed

definition demo_sys :: "demo_kv \<Rightarrow> heartbeat option \<Rightarrow> millis \<Rightarrow> demo_kv lock_sys" where
  "demo_sys kv hb t = \<lparr>ls_kv = kv, ls_inst = (\<lambda>_. None)(0 := hb), ls_since = (\<lambda>_. t), ls_stopped = False\<rparr>"

theorem one_holder_until_stop_witness:
  "\<exists>s. reach (lock_init demo_view) (lock_step demo_kv_api demo_view) s
     \<and> ls_inst s 0 = Some (Beating 1) \<and> ls_since s 0 = 10000
     \<and> (\<exists>rvn left. kv_live demo_view (ls_kv s) LOCK_KEY = Some (rvn, left) \<and> 0 < left)"
proof -
  let ?reach = "reach (lock_init demo_view) (lock_step demo_kv_api demo_view)"
  obtain kv1 where took: "acquire demo_kv_api False demo_fresh = (Inr (Beating 1), kv1)"
    using demo_acquire [of demo_fresh] by (simp add: demo_fresh_def kv_revision_def demo_view_def)
  let ?s = "demo_sys (kv_elapse demo_view 10000 kv1) (Some (Beating 1)) 10000"
  have "?reach (demo_sys demo_fresh None 0)"
    by (rule reach_init) (simp add: lock_init_def demo_sys_def demo_view_def demo_fresh_def fun_eq_iff)
  moreover have "lock_step demo_kv_api demo_view (demo_sys demo_fresh None 0)
      (demo_sys kv1 (Some (Beating 1)) 0)"
    using lock_step.start [of "demo_sys demo_fresh None 0" 0 demo_view demo_kv_api "Inr (Beating 1)" kv1] took
    by (simp add: demo_sys_def started_def fun_upd_def fun_eq_iff demo_view_def demo_fresh_def cong: if_cong)
  moreover have "lock_step demo_kv_api demo_view (demo_sys kv1 (Some (Beating 1)) 0) ?s"
    using lock_step.elapse [of "demo_sys kv1 (Some (Beating 1)) 0" 10000 demo_kv_api demo_view]
    by (simp add: demo_sys_def LOCK_TTL_def)
  ultimately have reach: "?reach ?s" by (meson reach_step)
  have "\<not> ls_stopped ?s" and "ls_inst ?s 0 = Some (Beating 1)" by (simp_all add: demo_sys_def)
  from one_holder_until_stop [OF demo_kv_laws demo_kv_reliable reach this this(2)] reach show ?thesis
    by (intro exI [of _ ?s]) (auto simp: demo_sys_def)
qed

section \<open>Heartbeats exclude each other\<close>

text \<open>
  With calls that may fail, on any bucket and after any stops, what the lock still gives: the entry that a
  beating instance wrote last is live, and no one else beats.
\<close>

definition beats :: "'kv lock_sys \<Rightarrow> nat \<Rightarrow> bool" where
  "beats s i \<longleftrightarrow> (\<exists>rvn. ls_inst s i = Some (Beating rvn))"

definition entry_kept :: "'kv kv_view \<Rightarrow> 'kv lock_sys \<Rightarrow> nat \<Rightarrow> bool" where
  "entry_kept vw s i \<longleftrightarrow> kv_bucket vw (ls_kv s) = Some lock_config
     \<and> (\<exists>rvn left. kv_live vw (ls_kv s) LOCK_KEY = Some (rvn, left) \<and> rvn \<noteq> 0
          \<and> left + ls_since s i = LOCK_TTL \<and> 0 < left)"

definition beating_inv :: "'kv kv_view \<Rightarrow> 'kv lock_sys \<Rightarrow> bool" where
  "beating_inv vw s \<longleftrightarrow> (\<forall>i. beats s i \<longrightarrow> entry_kept vw s i \<and> (\<forall>j. beats s j \<longrightarrow> j = i))
     \<and> (\<forall>i hb. ls_inst s i = Some hb \<longrightarrow> hb = Ended \<or> beats s i)"

lemma beating_invI:
  assumes "\<And>i. beats s i \<Longrightarrow> entry_kept vw s i" and "\<And>i j. beats s i \<Longrightarrow> beats s j \<Longrightarrow> j = i"
    and "\<And>i hb. ls_inst s i = Some hb \<Longrightarrow> hb = Ended \<or> beats s i"
  shows "beating_inv vw s"
  using assms unfolding beating_inv_def by blast

lemma beating_invD:
  assumes "beating_inv vw s"
  shows "beats s i \<Longrightarrow> entry_kept vw s i" and "beats s i \<Longrightarrow> beats s j \<Longrightarrow> j = i"
    and "ls_inst s i = Some hb \<Longrightarrow> hb = Ended \<or> beats s i"
  using assms unfolding beating_inv_def by blast+

lemma entry_revision: "entry_kept vw s i \<Longrightarrow> kv_revision vw (ls_kv s) LOCK_KEY \<noteq> 0"
  by (auto simp: entry_kept_def kv_revision_def)

text \<open>What a start or a tick of instance \<open>i\<close> makes of the system.\<close>

definition after_call :: "nat \<Rightarrow> heartbeat option \<Rightarrow> 'kv \<Rightarrow> 'kv lock_sys \<Rightarrow> 'kv lock_sys" where
  "after_call i hb kv s = s\<lparr>ls_kv := kv, ls_inst := (ls_inst s)(i := hb), ls_since := (ls_since s)(i := 0)\<rparr>"

lemma beats_after_call:
  "beats (after_call i hb kv s) j \<longleftrightarrow> (if j = i then \<exists>rvn. hb = Some (Beating rvn) else beats s j)"
  by (simp add: beats_def after_call_def)

lemma inst_after_call: "ls_inst (after_call i hb kv s) j = (if j = i then hb else ls_inst s j)"
  by (simp add: after_call_def)

text \<open>If the instance does not beat afterwards, the others must have kept their entry.\<close>

lemma beating_after_silent:
  assumes "beating_inv vw s" and "hb = None \<or> hb = Some Ended"
    and "\<And>j. j \<noteq> i \<Longrightarrow> beats s j \<Longrightarrow> kv_bucket vw kv = kv_bucket vw (ls_kv s) \<and> kv_live vw kv = kv_live vw (ls_kv s)"
  shows "beating_inv vw (after_call i hb kv s)"
proof (rule beating_invI)
  fix j assume "beats (after_call i hb kv s) j"
  with assms(2) have j: "j \<noteq> i" "beats s j" by (auto simp: beats_after_call split: if_splits)
  with beating_invD(1) [OF assms(1) j(2)] assms(3) [OF j] show "entry_kept vw (after_call i hb kv s) j"
    by (simp add: entry_kept_def after_call_def)
next
  fix j k assume "beats (after_call i hb kv s) j" and "beats (after_call i hb kv s) k"
  with assms(2) beating_invD(2) [OF assms(1), of j k] show "k = j"
    by (auto simp: beats_after_call split: if_splits)
next
  fix j hb' assume "ls_inst (after_call i hb kv s) j = Some hb'"
  with assms(2) beating_invD(3) [OF assms(1), of j hb'] show "hb' = Ended \<or> beats (after_call i hb kv s) j"
    by (auto simp: beats_after_call inst_after_call split: if_splits)
qed

text \<open>If it does, no other may.\<close>

lemma beating_after_beat:
  assumes "beating_inv vw s" and "\<And>j. j \<noteq> i \<Longrightarrow> \<not> beats s j"
    and "kv_bucket vw kv = Some lock_config" and "kv_live vw kv LOCK_KEY = Some (n, LOCK_TTL)" and "n \<noteq> 0"
  shows "beating_inv vw (after_call i (Some (Beating rvn)) kv s)"
proof (rule beating_invI)
  fix j assume "beats (after_call i (Some (Beating rvn)) kv s) j"
  with assms(2) have "j = i" by (auto simp: beats_after_call split: if_splits)
  with assms(3-5) show "entry_kept vw (after_call i (Some (Beating rvn)) kv s) j"
    by (simp add: entry_kept_def after_call_def LOCK_TTL_def)
next
  fix j k assume "beats (after_call i (Some (Beating rvn)) kv s) j" and "beats (after_call i (Some (Beating rvn)) kv s) k"
  with assms(2) have "j = i" and "k = i" by (auto simp: beats_after_call split: if_splits)
  then show "k = j" by simp
next
  fix j hb' assume "ls_inst (after_call i (Some (Beating rvn)) kv s) j = Some hb'"
  with beating_invD(3) [OF assms(1), of j hb'] show "hb' = Ended \<or> beats (after_call i (Some (Beating rvn)) kv s) j"
    by (auto simp: beats_after_call inst_after_call split: if_splits)
qed

lemma beating_start:
  assumes "kv_laws api vw" and inv: "beating_inv vw s" and "ls_inst s i = None" and "kv_seq vw (ls_kv s) + 1 \<noteq> 0"
    and "acquire api False (ls_kv s) = (r, kv')"
  shows "beating_inv vw (after_call i (started r) kv' s)"
proof (cases r)
  case (Inl e)
  have "kv_bucket vw kv' = kv_bucket vw (ls_kv s) \<and> kv_live vw kv' = kv_live vw (ls_kv s)" if "beats s j" for j
  proof -
    note entry = beating_invD(1) [OF inv that]
    from acquire_held(2,4) [OF assms(1) entry_revision [OF entry] assms(5)] entry show ?thesis
      by (simp add: entry_kept_def)
  qed
  with Inl show ?thesis by (intro beating_after_silent [OF inv]) (auto simp: started_def)
next
  case (Inr hb)
  with assms(5) have run: "acquire api False (ls_kv s) = (Inr hb, kv')" by simp
  note took = acquire_Ok [OF assms(1) run]
  have "\<not> beats s j" for j using entry_revision beating_invD(1) [OF inv, of j] took(2) by blast
  with beating_after_beat [OF inv _ took(5,3) assms(4)] Inr took(1) show ?thesis by (simp add: started_def)
qed

lemma tick_Ok:
  assumes "kv_laws api vw" and "heartbeat_tick api (Beating rvn) kv = (Beating rvn', kv')"
    and "kv_bucket vw kv = Some lock_config"
  shows "kv_live vw kv' LOCK_KEY = Some (kv_seq vw kv + 1, LOCK_TTL)" and "kv_bucket vw kv' = Some lock_config"
proof -
  have "kv_update api LOCK_KEY ''1'' rvn kv = (Inr rvn', kv')"
    using assms(2) by (auto simp: heartbeat_tick_def split: prod.splits sum.splits)
  from written_live [OF update_Inr(3) [OF assms(1) this] assms(3)]
  show "kv_live vw kv' LOCK_KEY = Some (kv_seq vw kv + 1, LOCK_TTL)" and "kv_bucket vw kv' = Some lock_config"
    by (simp_all add: lock_config_def)
qed

lemma beating_beat:
  assumes "kv_laws api vw" and inv: "beating_inv vw s" and "ls_inst s i = Some hb" and "kv_seq vw (ls_kv s) + 1 \<noteq> 0"
    and "heartbeat_tick api hb (ls_kv s) = (hb', kv')"
  shows "beating_inv vw (after_call i (Some hb') kv' s)"
proof (cases "hb = Ended")
  case True
  with assms(5) show ?thesis by (intro beating_after_silent [OF inv]) (auto simp: heartbeat_tick_def)
next
  case False
  with beating_invD(3) [OF inv assms(3)] have beats: "beats s i" by simp
  then obtain rvn where hb: "hb = Beating rvn" using assms(3) by (auto simp: beats_def)
  have only: "\<not> beats s j" if "j \<noteq> i" for j using that beats beating_invD(2) [OF inv beats] by blast
  show ?thesis
  proof (cases "hb' = Ended")
    case True
    with only show ?thesis by (intro beating_after_silent [OF inv]) auto
  next
    case False
    with assms(5) hb obtain rvn' where hb': "hb' = Beating rvn'"
      by (auto simp: heartbeat_tick_def split: prod.splits sum.splits)
    have "kv_bucket vw (ls_kv s) = Some lock_config"
      using beating_invD(1) [OF inv beats] by (simp add: entry_kept_def)
    from tick_Ok [OF assms(1) assms(5) [unfolded hb hb'] this] show ?thesis
      unfolding hb' by (intro beating_after_beat [OF inv only _ _ assms(4)])
  qed
qed

lemma beating_inv_step:
  assumes "kv_laws api vw" and inv: "beating_inv vw s" and "lock_step api vw s s'"
  shows "beating_inv vw s'"
  using assms(3)
proof (cases rule: lock_step.cases)
  case (start i r kv')
  with beating_start [OF assms(1) inv start(2-4)] show ?thesis by (simp add: after_call_def)
next
  case (beat i hb hb' kv')
  with beating_beat [OF assms(1) inv beat(2-4)] show ?thesis by (simp add: after_call_def)
next
  case (stop i hb)
  have beats: "beats s' j \<longleftrightarrow> j \<noteq> i \<and> beats s j" for j by (simp add: stop(1) beats_def)
  show ?thesis
  proof (rule beating_invI)
    show "entry_kept vw s' j" if "beats s' j" for j
      using that beating_invD(1) [OF inv, of j] by (simp add: beats) (simp add: stop(1) entry_kept_def)
    show "k = j" if "beats s' j" and "beats s' k" for j k
      using that beating_invD(2) [OF inv, of j k] by (simp add: beats)
    show "hb = Ended \<or> beats s' j" if "ls_inst s' j = Some hb" for j hb
      using that beating_invD(3) [OF inv, of j hb] by (simp add: beats) (simp add: stop(1) split: if_splits)
  qed
next
  case (elapse d)
  have beats: "beats s' j \<longleftrightarrow> beats s j" for j by (simp add: elapse(1) beats_def)
  show ?thesis
  proof (rule beating_invI)
    show "entry_kept vw s' j" if "beats s' j" for j
    proof -
      from that have old: "beats s j" by (simp add: beats)
      then obtain hb where "ls_inst s j = Some hb" by (auto simp: beats_def)
      from elapse(2) [OF this] beating_invD(1) [OF inv old] show ?thesis
        by (auto simp: elapse(1) entry_kept_def elapse_view [OF assms(1)])
    qed
    show "k = j" if "beats s' j" and "beats s' k" for j k
      using that beating_invD(2) [OF inv, of j k] by (simp add: beats)
    show "hb = Ended \<or> beats s' j" if "ls_inst s' j = Some hb" for j hb
      using that beating_invD(3) [OF inv, of j hb] by (simp add: beats) (simp add: elapse(1))
  qed
qed

definition none_started :: "'kv lock_sys \<Rightarrow> bool" where
  "none_started s \<longleftrightarrow> ls_inst s = (\<lambda>_. None)"

interpretation beating: inductive_invariant none_started "lock_step api vw"
    "\<lambda>s. kv_laws api vw \<longrightarrow> beating_inv vw s" for api vw
proof unfold_locales
  show "kv_laws api vw \<longrightarrow> beating_inv vw s" if "none_started s" for s
    using that by (auto simp: none_started_def beats_def intro: beating_invI)
qed (blast intro: beating_inv_step)

text \<open>
  C17.  What the lock excludes, on any bucket, fresh or used before, in every interleaving of starts,
  heartbeats, stops and time in which a running instance lets no \<open>LOCK_TTL\<close> pass without a tick, and
  whichever calls fail: of two instances that run, the heartbeat of one has ended, which only a failed
  update does; and a heartbeat that has not ended keeps an entry alive, so that nobody can start beside it.
\<close>

theorem heartbeats_exclusive:
  assumes "kv_laws api vw" and "reach none_started (lock_step api vw) s"
    and "ls_inst s i = Some hb" and "ls_inst s j = Some hb'" and "acquire api False (ls_kv s) = (r, kv')"
  shows "(i \<noteq> j \<longrightarrow> hb = Ended \<or> hb' = Ended)
    \<and> (hb = Ended \<or> (\<exists>rvn rvn' left. hb = Beating rvn \<and> kv_live vw (ls_kv s) LOCK_KEY = Some (rvn', left)
        \<and> 0 < left \<and> left + ls_since s i = 30000 \<and> \<not> is_ok r))"
proof -
  have inv: "beating_inv vw s" using beating.reach_inv [OF assms(2)] assms(1) by blast
  note ended = beating_invD(3) [OF inv assms(3)] beating_invD(3) [OF inv assms(4)]
  have beating: "\<exists>rvn rvn' left. hb = Beating rvn \<and> kv_live vw (ls_kv s) LOCK_KEY = Some (rvn', left)
      \<and> 0 < left \<and> left + ls_since s i = 30000 \<and> \<not> is_ok r" if beats: "beats s i"
  proof -
    note entry = beating_invD(1) [OF inv beats]
    from acquire_held(1) [OF assms(1) entry_revision [OF entry] assms(5)] have "\<not> is_ok r" by auto
    with beats entry assms(3) show ?thesis by (auto simp: entry_kept_def beats_def LOCK_TTL_def)
  qed
  show ?thesis
  proof
    show "i \<noteq> j \<longrightarrow> hb = Ended \<or> hb' = Ended" using ended beating_invD(2) [OF inv, of i j] by blast
  qed (use ended(1) beating in blast)
qed

theorem heartbeats_exclusive_witness:
  "\<exists>s. reach none_started (lock_step demo_kv_api demo_view) s
     \<and> ls_inst s 0 = Some (Beating 1) \<and> \<not> is_ok (fst (acquire demo_kv_api False (ls_kv s)))"
proof -
  obtain kv1 where took: "acquire demo_kv_api False demo_fresh = (Inr (Beating 1), kv1)"
    using demo_acquire [of demo_fresh] by (simp add: demo_fresh_def kv_revision_def demo_view_def)
  let ?s = "demo_sys kv1 (Some (Beating 1)) 0"
  have "reach none_started (lock_step demo_kv_api demo_view) (demo_sys demo_fresh None 0)"
    by (rule reach_init) (simp add: none_started_def demo_sys_def fun_eq_iff)
  moreover have "lock_step demo_kv_api demo_view (demo_sys demo_fresh None 0) ?s"
    using lock_step.start [of "demo_sys demo_fresh None 0" 0 demo_view demo_kv_api "Inr (Beating 1)" kv1] took
    by (simp add: demo_sys_def started_def fun_upd_def fun_eq_iff demo_view_def demo_fresh_def cong: if_cong)
  ultimately have reach: "reach none_started (lock_step demo_kv_api demo_view) ?s" by (rule reach_step)
  have run: "ls_inst ?s 0 = Some (Beating 1)" by (simp add: demo_sys_def)
  from heartbeats_exclusive [OF demo_kv_laws reach run run prod.collapse [symmetric]] reach run show ?thesis
    by (intro exI [of _ ?s]) auto
qed

end
