(* ===== verification/External.thy ===== *)
theory External
  imports Prelude
begin

text \<open>
  The crates and services the program only calls, as parameters of the model.  A record holds the
  operations of \<open>serde_json\<close> on a type \<open>'v\<close> of JSON values; publishing to NATS JetStream is a
  function on an abstract server state \<open>'js\<close>.  The documented behaviour the properties rely on is
  stated as predicates (\<open>json_laws\<close>, \<open>js_durable\<close>), each with an instance that satisfies it.
\<close>

section \<open>JSON values\<close>

text \<open>
  \<open>Value::get\<close>, \<open>as_i64\<close>, \<open>as_str\<close>; the objects, integers and strings that \<open>json!\<close> and the derived
  \<open>Serialize\<close> of a struct build; \<open>to_vec\<close> and \<open>from_slice\<close>, \<open>None\<close> being a \<open>serde_json::Error\<close>.
\<close>

record 'v json_api =
  jv_get :: "'v \<Rightarrow> string \<Rightarrow> 'v option"
  jv_as_i64 :: "'v \<Rightarrow> i64 option"
  jv_as_str :: "'v \<Rightarrow> string option"
  jv_object :: "(string \<times> 'v) list \<Rightarrow> 'v"
  jv_int :: "i64 \<Rightarrow> 'v"
  jv_str :: "string \<Rightarrow> 'v"
  to_vec :: "'v \<Rightarrow> bytes option"
  from_slice :: "bytes \<Rightarrow> 'v option"

text \<open>
  A field of an object built from distinct names is the value it was given, an integer and a string
  read back as themselves, and the text of an object is parsed to a value with the same fields, those
  that are strings with the same text.
\<close>

definition json_laws :: "'v json_api \<Rightarrow> bool" where
  "json_laws api \<longleftrightarrow>
     (\<forall>kvs k. distinct (map fst kvs) \<longrightarrow> jv_get api (jv_object api kvs) k = map_of kvs k)
     \<and> (\<forall>n. jv_as_i64 api (jv_int api n) = Some n)
     \<and> (\<forall>s. jv_as_str api (jv_str api s) = Some s)
     \<and> (\<forall>kvs b. distinct (map fst kvs) \<longrightarrow> to_vec api (jv_object api kvs) = Some b \<longrightarrow>
          (\<exists>v. from_slice api b = Some v \<and> (\<forall>k. jv_get api v k = None \<longleftrightarrow> k \<notin> fst ` set kvs)
            \<and> (\<forall>k s. map_of kvs k = Some (jv_str api s) \<longrightarrow>
                 Option.bind (jv_get api v k) (jv_as_str api) = Some s)))"

lemma json_get_object:
  "json_laws api \<Longrightarrow> distinct (map fst kvs) \<Longrightarrow> jv_get api (jv_object api kvs) k = map_of kvs k"
  by (simp add: json_laws_def)

lemma json_as_i64_int: "json_laws api \<Longrightarrow> jv_as_i64 api (jv_int api n) = Some n"
  by (simp add: json_laws_def)

lemma json_object_text:
  assumes "json_laws api" and "distinct (map fst kvs)" and "to_vec api (jv_object api kvs) = Some b"
  obtains v where "from_slice api b = Some v" and "\<And>k. jv_get api v k = None \<longleftrightarrow> k \<notin> fst ` set kvs"
    and "\<And>k s. map_of kvs k = Some (jv_str api s) \<Longrightarrow> Option.bind (jv_get api v k) (jv_as_str api) = Some s"
  using assms unfolding json_laws_def by blast

section \<open>JetStream\<close>

record wal_msg =
  msg_subject :: string
  msg_headers :: "(string \<times> string) list"
  msg_payload :: bytes

text \<open>
  \<open>publish(..).await?\<close> may fail to send; the future it gives may fail to bring the \<open>PubAck\<close>; a
  \<open>PubAck\<close> carries the sequence number in the stream.
\<close>

datatype pub_result = Send_failed string | Ack_failed string | Acked u64

type_synonym 'js publish = "'js \<Rightarrow> wal_msg \<Rightarrow> pub_result \<times> 'js"

text \<open>
  The guarantee of JetStream: a message whose \<open>PubAck\<close> arrived is appended to the log; without one
  it may or may not have been; nothing else is taken from the log.
\<close>

definition js_durable :: "'js publish \<Rightarrow> ('js \<Rightarrow> wal_msg list) \<Rightarrow> bool" where
  "js_durable publish log \<longleftrightarrow>
     (\<forall>js m. (log (snd (publish js m)) = log js \<or> log (snd (publish js m)) = log js @ [m])
        \<and> (\<forall>n. fst (publish js m) = Acked n \<longrightarrow> log (snd (publish js m)) = log js @ [m]))"

definition published :: "pub_result \<Rightarrow> string + u64" where
  "published r = (case r of Send_failed e \<Rightarrow> Inl e | Ack_failed e \<Rightarrow> Inl e | Acked n \<Rightarrow> Inr n)"

lemma published_Inr [simp]: "published r = Inr n \<longleftrightarrow> r = Acked n"
  by (simp add: published_def split: pub_result.splits)

lemma js_durable_any:
  "js_durable publish log \<Longrightarrow> publish js m = (r, js') \<Longrightarrow> log js' = log js \<or> log js' = log js @ [m]"
  unfolding js_durable_def by (metis snd_conv)

lemma js_durable_Acked:
  "js_durable publish log \<Longrightarrow> publish js m = (Acked n, js') \<Longrightarrow> log js' = log js @ [m]"
  unfolding js_durable_def by (metis fst_conv snd_conv)

section \<open>Instances\<close>

text \<open>A server that is its own log and acknowledges everything but what is addressed to nobody.\<close>

definition demo_publish :: "wal_msg list publish" where
  "demo_publish js m =
     (if msg_subject m = [] then (Send_failed ''no subject'', js)
      else (Acked (of_nat (length js + 1)), js @ [m]))"

lemma demo_publish_durable: "js_durable demo_publish id"
  by (simp add: js_durable_def demo_publish_def)

text \<open>
  Values as their own text.  A field or a value is written as its length in unary, a full stop and
  its bytes; an integer is written in unary.
\<close>

definition put_str :: "string \<Rightarrow> string" where
  "put_str s = replicate (length s) (CHR ''x'') @ CHR ''.'' # s"

definition get_str :: "string \<Rightarrow> (string \<times> string) option" where
  "get_str s =
     (case split_once (CHR ''.'') s of
        None \<Rightarrow> None
      | Some (n, rest) \<Rightarrow> Some (take (length n) rest, drop (length n) rest))"

lemma get_put_str [simp]: "get_str (put_str s @ rest) = Some (s, rest)"
proof -
  have "split_once (CHR ''.'') (put_str s @ rest) = Some (replicate (length s) (CHR ''x''), s @ rest)"
    by (auto simp: split_once_Some_iff put_str_def)
  then show ?thesis by (simp add: get_str_def)
qed

fun text_field :: "nat \<Rightarrow> string \<Rightarrow> string \<Rightarrow> string option" where
  "text_field 0 s k = None"
| "text_field (Suc n) s k =
     Option.bind (get_str s) (\<lambda>(k', s').
     Option.bind (get_str s') (\<lambda>(v, s''). if k' = k then Some v else text_field n s'' k))"

definition put_fields :: "(string \<times> string) list \<Rightarrow> string" where
  "put_fields kvs = concat (map (\<lambda>(k, v). put_str k @ put_str v) kvs)"

lemma text_field_put: "length kvs \<le> n \<Longrightarrow> text_field n (put_fields kvs) k = map_of kvs k"
proof (induction kvs arbitrary: n)
  case Nil
  have "get_str [] = None" by (simp add: get_str_def)
  then show ?case by (cases n) (simp_all add: put_fields_def)
next
  case (Cons kv kvs)
  then show ?case
    by (cases n; cases kv) (simp_all add: put_fields_def)
qed

definition demo_json :: "string json_api" where
  "demo_json = \<lparr>jv_get = (\<lambda>v k. text_field (length v) v k),
     jv_as_i64 = (\<lambda>v. if list_all (\<lambda>c. c = CHR ''1'') v then Some (of_nat (length v)) else None),
     jv_as_str = Some, jv_object = put_fields, jv_int = (\<lambda>n. replicate (unat n) (CHR ''1'')),
     jv_str = (\<lambda>s. s), to_vec = Some, from_slice = Some\<rparr>"

lemma length_put_fields: "length kvs \<le> length (put_fields kvs)"
  by (induction kvs) (auto simp: put_fields_def put_str_def)

lemma demo_json_laws: "json_laws demo_json"
  by (auto simp: json_laws_def demo_json_def text_field_put length_put_fields map_of_eq_None_iff
      list_all_iff)

end
