(* ===== verification/Agent_Trace.thy ===== *)
theory Agent_Trace
  imports External
begin

text \<open>
  \<open>src/agent_trace.rs\<close> and the table \<open>agent_traces\<close> of \<open>migrations/\<close>: the event types, the rows, the
  \<open>INSERT\<close> under the table's unique key and the idempotent \<open>AgentTrace::insert\<close> around it.

  A table is the list of its rows in insertion order (the surrogate \<open>id\<close> and \<open>created_at\<close> are never
  read).  The database's collation is a parameter: two identifiers are the same key when it maps them
  to the same string.  What else may happen to a statement is its \<open>fault\<close>: the error the client
  sees, and whether the statement had taken effect all the same.
\<close>

section \<open>Event types\<close>

datatype agent_event_type = Thought | ToolCall | Observation

fun as_db_str :: "agent_event_type \<Rightarrow> string" where
  "as_db_str Thought = ''thought''"
| "as_db_str ToolCall = ''tool_call''"
| "as_db_str Observation = ''observation''"

text \<open>The types are finitely many.\<close>

instantiation agent_event_type :: enum
begin

definition enum_agent_event_type :: "agent_event_type list" where
  "enum_agent_event_type = [Thought, ToolCall, Observation]"

definition enum_all_agent_event_type :: "(agent_event_type \<Rightarrow> bool) \<Rightarrow> bool" where
  "enum_all_agent_event_type P \<longleftrightarrow> P Thought \<and> P ToolCall \<and> P Observation"

definition enum_ex_agent_event_type :: "(agent_event_type \<Rightarrow> bool) \<Rightarrow> bool" where
  "enum_ex_agent_event_type P \<longleftrightarrow> P Thought \<or> P ToolCall \<or> P Observation"

instance
proof
  have all: "(UNIV :: agent_event_type set) = {Thought, ToolCall, Observation}"
    by (auto intro: agent_event_type.exhaust)
  then show "(UNIV :: agent_event_type set) = set enum_class.enum" by (simp add: enum_agent_event_type_def)
  show "distinct (enum_class.enum :: agent_event_type list)" by (simp add: enum_agent_event_type_def)
  show "enum_class.enum_all P \<longleftrightarrow> Ball UNIV P" "enum_class.enum_ex P \<longleftrightarrow> Bex UNIV P"
    for P :: "agent_event_type \<Rightarrow> bool"
    unfolding all by (simp_all add: enum_all_agent_event_type_def enum_ex_agent_event_type_def)
qed

end

record 'v agent_trace =
  tr_agent_id :: string
  tr_step_index :: i32
  tr_event_type :: agent_event_type
  tr_payload :: 'v

section \<open>The table\<close>

type_synonym collation = "string \<Rightarrow> string"

datatype sqlx_error = Database "string option" string | Sqlx_Other string

type_synonym fault = "(sqlx_error \<times> bool) option"

record 'v trace_row =
  row_agent_id :: string
  row_step_index :: i32
  row_event_type :: string
  row_payload :: "'v option"

text \<open>
  The columns of \<open>agent_traces\<close> that constrain an insert: the width of \<open>agent_id\<close>, in characters, the
  \<open>ENUM\<close> and the unique key.  (A step is an \<open>INT\<close> and a payload is JSON by their types.)
\<close>

definition agent_id_width :: nat where
  "agent_id_width = 255"

definition fits_column :: "string \<Rightarrow> bool" where
  "fits_column a \<longleftrightarrow> length a \<le> agent_id_width"

definition event_type_enum :: "string list" where
  "event_type_enum = [''thought'', ''tool_call'', ''observation'']"

definition uq_agent_step :: "collation \<Rightarrow> 'v trace_row \<Rightarrow> string \<times> i32" where
  "uq_agent_step coll r = (coll (row_agent_id r), row_step_index r)"

definition data_too_long :: sqlx_error where
  "data_too_long = Database (Some ''22001'') ''Data too long for column agent_id''"

definition duplicate_entry :: "string \<Rightarrow> sqlx_error" where
  "duplicate_entry k = Database (Some ''23000'') (''Duplicate entry for key '' @ k)"

text \<open>\<open>INSERT INTO agent_traces ... VALUES (?, ?, ?, ?)\<close>, in its own implicit transaction.\<close>

definition sql_insert_trace ::
  "collation \<Rightarrow> fault \<Rightarrow> 'v trace_row \<Rightarrow> 'v trace_row list \<Rightarrow> (sqlx_error + unit) \<times> 'v trace_row list"
where
  "sql_insert_trace coll fault r tbl =
     (let inserted =
        (if \<not> fits_column (row_agent_id r) then (Inl data_too_long, tbl)
         else if row_event_type r \<notin> set event_type_enum
         then (Inl (Database (Some ''01000'') ''Data truncated for column event_type''), tbl)
         else if uq_agent_step coll r \<in> set (map (uq_agent_step coll) tbl)
         then (Inl (duplicate_entry ''uq_agent_step''), tbl)
         else (Inr (), tbl @ [r]))
      in (case fault of
            None \<Rightarrow> inserted
          | Some (e, applied) \<Rightarrow> (Inl e, if applied then snd inserted else tbl)))"

section \<open>\<open>AgentTrace::insert\<close>\<close>

definition row_of_trace :: "'v agent_trace \<Rightarrow> 'v trace_row" where
  "row_of_trace t = \<lparr>row_agent_id = tr_agent_id t, row_step_index = tr_step_index t,
     row_event_type = as_db_str (tr_event_type t), row_payload = Some (tr_payload t)\<rparr>"

text \<open>The error that is not surfaced: SQLSTATE 23000 with a message that says \<open>Duplicate\<close>.\<close>

definition already_persisted :: "sqlx_error \<Rightarrow> bool" where
  "already_persisted e =
     (case e of
        Database code message \<Rightarrow>
          (case code of None \<Rightarrow> [] | Some c \<Rightarrow> c) = ''23000'' \<and> str_contains message ''Duplicate''
      | Sqlx_Other _ \<Rightarrow> False)"

definition trace_insert ::
  "collation \<Rightarrow> fault \<Rightarrow> 'v agent_trace \<Rightarrow> 'v trace_row list \<Rightarrow> (sqlx_error + unit) \<times> 'v trace_row list"
where
  "trace_insert coll fault t tbl =
     (let (res, tbl') = sql_insert_trace coll fault (row_of_trace t) tbl
      in (case res of
            Inr _ \<Rightarrow> (Inr (), tbl')
          | Inl e \<Rightarrow> (if already_persisted e then (Inr (), tbl') else (Inl e, tbl'))))"

section \<open>The table as a first-writer-wins store\<close>

definition trace_lookup :: "collation \<Rightarrow> 'v trace_row list \<Rightarrow> string \<times> i32 \<Rightarrow> 'v trace_row option" where
  "trace_lookup coll tbl k = find (\<lambda>r. uq_agent_step coll r = k) tbl"

definition trace_put :: "collation \<Rightarrow> 'v trace_row \<Rightarrow> 'v trace_row list \<Rightarrow> 'v trace_row list" where
  "trace_put coll r tbl =
     (if trace_lookup coll tbl (uq_agent_step coll r) = None then tbl @ [r] else tbl)"

definition traces_unique :: "collation \<Rightarrow> 'v trace_row list \<Rightarrow> bool" where
  "traces_unique coll tbl \<longleftrightarrow> distinct (map (uq_agent_step coll) tbl)"

lemma trace_lookup_None_iff:
  "trace_lookup coll tbl k = None \<longleftrightarrow> k \<notin> set (map (uq_agent_step coll) tbl)"
  by (auto simp: trace_lookup_def find_None_iff)

lemma trace_lookup_append:
  "trace_lookup coll (tbl @ tbl') k =
     (case trace_lookup coll tbl k of None \<Rightarrow> trace_lookup coll tbl' k | Some r \<Rightarrow> Some r)"
  by (induction tbl) (auto simp: trace_lookup_def)

interpretation traces: first_wins "trace_put coll" "uq_agent_step coll" "trace_lookup coll" for coll
proof unfold_locales
  fix r :: "'v trace_row" and s k
  show "trace_lookup coll (trace_put coll r s) k =
      (if k = uq_agent_step coll r \<and> trace_lookup coll s k = None then Some r
       else trace_lookup coll s k)"
    by (auto simp: trace_put_def trace_lookup_append trace_lookup_def [of _ "[_]"]
        split: option.splits)
  show "trace_lookup coll s (uq_agent_step coll r) \<noteq> None \<Longrightarrow> trace_put coll r s = s"
    by (simp add: trace_put_def)
qed

lemma trace_put_unique: "traces_unique coll tbl \<Longrightarrow> traces_unique coll (trace_put coll r tbl)"
  by (auto simp: traces_unique_def trace_put_def trace_lookup_None_iff)

lemma trace_puts_unique: "traces_unique coll tbl \<Longrightarrow> traces_unique coll (fold (trace_put coll) rs tbl)"
  by (induction rs arbitrary: tbl) (auto intro: trace_put_unique)

section \<open>What an insert does\<close>

text \<open>
  What a database documents of its errors: SQLSTATE 23000 with a text that says \<open>Duplicate\<close> means a taken
  key, which an insert meets by itself, so that no other fault shows it.
\<close>

definition honest_fault :: "fault \<Rightarrow> bool" where
  "honest_fault fault \<longleftrightarrow>
     (case fault of
        Some (Database (Some sqlstate) message, _) \<Rightarrow>
          sqlstate \<noteq> ''23000'' \<or> \<not> sublist ''Duplicate'' message
      | _ \<Rightarrow> True)"

lemma honest_fault_None [simp]: "honest_fault None"
  by (simp add: honest_fault_def)

lemma honest_fault_not_persisted: "honest_fault (Some (e, applied)) \<Longrightarrow> \<not> already_persisted e"
  by (auto simp: honest_fault_def already_persisted_def str_contains_def
      split: sqlx_error.splits option.splits)

lemma duplicate_entry_persisted [simp]: "already_persisted (duplicate_entry k)"
proof -
  have "sublist ''Duplicate'' (''Duplicate entry for key '' @ k)"
    by (rule prefix_imp_sublist) (simp add: prefix_def)
  then show ?thesis by (simp add: already_persisted_def duplicate_entry_def str_contains_def)
qed

text \<open>The column's \<open>ENUM\<close> lists the names of the types, no more and no fewer.\<close>

lemma event_type_enum_names: "event_type_enum = map as_db_str enum_class.enum"
  by (simp add: event_type_enum_def enum_agent_event_type_def)

lemma as_db_str_enum [simp]: "as_db_str ty \<in> set event_type_enum"
  by (simp add: event_type_enum_names enum_UNIV)

lemma row_of_trace_type [simp]: "row_event_type (row_of_trace t) = as_db_str (tr_event_type t)"
  by (simp add: row_of_trace_def)

definition trace_fits :: "'v agent_trace \<Rightarrow> bool" where
  "trace_fits t \<longleftrightarrow> fits_column (tr_agent_id t)"

lemma row_of_trace_agent [simp]: "row_agent_id (row_of_trace t) = tr_agent_id t"
  by (simp add: row_of_trace_def)

lemma data_too_long_surfaces [simp]: "\<not> already_persisted data_too_long"
  by (simp add: already_persisted_def data_too_long_def)

lemma trace_insert_no_fault:
  "trace_insert coll None t tbl =
     (if trace_fits t then (Inr (), trace_put coll (row_of_trace t) tbl) else (Inl data_too_long, tbl))"
  by (simp add: trace_insert_def sql_insert_trace_def trace_put_def trace_lookup_None_iff trace_fits_def)

lemma trace_insert_fault:
  "honest_fault (Some (e, applied)) \<Longrightarrow> trace_insert coll (Some (e, applied)) t tbl =
     (Inl e, if applied \<and> trace_fits t then trace_put coll (row_of_trace t) tbl else tbl)"
  using honest_fault_not_persisted [of e applied]
  by (simp add: trace_insert_def sql_insert_trace_def trace_put_def trace_lookup_None_iff trace_fits_def)

lemmas trace_insert_cases = trace_insert_no_fault trace_insert_fault

lemma trace_insert_table:
  assumes "honest_fault fault"
  shows "snd (trace_insert coll fault t tbl) \<in> {tbl, trace_put coll (row_of_trace t) tbl}"
  using assms by (cases fault) (auto simp: trace_insert_cases)

lemma trace_insert_unfit: "honest_fault fault \<Longrightarrow> \<not> trace_fits t \<Longrightarrow> snd (trace_insert coll fault t tbl) = tbl"
  by (cases fault) (auto simp: trace_insert_cases)

lemma trace_insert_Ok_iff:
  assumes "honest_fault fault"
  shows "fst (trace_insert coll fault t tbl) = Inr () \<longleftrightarrow> fault = None \<and> trace_fits t"
  using assms by (cases fault) (auto simp: trace_insert_cases)

lemma trace_insert_step:
  assumes "honest_fault fault"
  shows "traces_unique coll tbl \<Longrightarrow> traces_unique coll (snd (trace_insert coll fault t tbl))"
    and "trace_lookup coll tbl k = Some r \<Longrightarrow>
      trace_lookup coll (snd (trace_insert coll fault t tbl)) k = Some r"
    and "trace_insert coll fault t tbl = (Inr (), tbl') \<Longrightarrow> tbl' = trace_put coll (row_of_trace t) tbl"
  using assms
  by (cases fault; auto simp: trace_insert_cases trace_put_unique traces.lookup_put split: if_splits)+

text \<open>
  C22.  \<open>AgentTrace::insert\<close> under any fault that the database may report: it returns \<open>Ok\<close> exactly when the
  statement met no fault and the identifier fits its column, a taken key included, and any other fault
  is returned as it is; the unique key is kept, no stored row changes, and the only row that may be new
  is the trace's; and after an \<open>Ok\<close> the table holds a row under the trace's key, the trace itself if the
  key was free and the earlier row if it was taken.
\<close>

theorem trace_insert_correct:
  assumes "honest_fault fault" and "traces_unique coll tbl"
    and "trace_insert coll fault t tbl = (res, tbl')"
  shows "(res = Inr () \<longleftrightarrow> fault = None \<and> length (tr_agent_id t) \<le> 255)
    \<and> (case fault of None \<Rightarrow> True | Some (e, _) \<Rightarrow> res = Inl e)
    \<and> traces_unique coll tbl'
    \<and> (\<forall>k r. trace_lookup coll tbl k = Some r \<longrightarrow> trace_lookup coll tbl' k = Some r)
    \<and> tbl' \<in> {tbl, tbl @ [row_of_trace t]}
    \<and> (res = Inr () \<longrightarrow> trace_lookup coll tbl' (coll (tr_agent_id t), tr_step_index t) =
         (case trace_lookup coll tbl (coll (tr_agent_id t), tr_step_index t) of
            None \<Rightarrow> Some (row_of_trace t) | Some old \<Rightarrow> Some old))"
proof -
  have key: "uq_agent_step coll (row_of_trace t) = (coll (tr_agent_id t), tr_step_index t)"
    by (simp add: uq_agent_step_def row_of_trace_def)
  have tbl': "tbl' = snd (trace_insert coll fault t tbl)" by (simp add: assms(3))
  show ?thesis
  proof (intro conjI allI impI)
    show "res = Inr () \<longleftrightarrow> fault = None \<and> length (tr_agent_id t) \<le> 255"
      using trace_insert_Ok_iff [OF assms(1), of coll t tbl] assms(3)
      by (simp add: trace_fits_def fits_column_def agent_id_width_def)
    show "case fault of None \<Rightarrow> True | Some (e, _) \<Rightarrow> res = Inl e"
      using assms(1,3) by (auto simp: trace_insert_fault split: option.splits)
    show "traces_unique coll tbl'"
      unfolding tbl' using trace_insert_step(1) [OF assms(1,2)] .
    show "trace_lookup coll tbl' k = Some r" if "trace_lookup coll tbl k = Some r" for k r
      unfolding tbl' using trace_insert_step(2) [OF assms(1) that] .
    show "tbl' \<in> {tbl, tbl @ [row_of_trace t]}"
      using trace_insert_table [OF assms(1), of coll t tbl] by (auto simp: tbl' trace_put_def split: if_splits)
    assume "res = Inr ()"
    with assms(3) have "tbl' = trace_put coll (row_of_trace t) tbl"
      by (intro trace_insert_step(3) [OF assms(1)]) simp
    then show "trace_lookup coll tbl' (coll (tr_agent_id t), tr_step_index t) =
        (case trace_lookup coll tbl (coll (tr_agent_id t), tr_step_index t) of
           None \<Rightarrow> Some (row_of_trace t) | Some old \<Rightarrow> Some old)"
      by (simp add: traces.lookup_put key split: option.splits)
  qed
qed

definition demo_trace :: "agent_event_type \<Rightarrow> nat \<Rightarrow> nat agent_trace" where
  "demo_trace ty p = \<lparr>tr_agent_id = ''a1'', tr_step_index = 7, tr_event_type = ty, tr_payload = p\<rparr>"

lemma demo_trace_fits [simp]: "trace_fits (demo_trace ty p)"
  by (simp add: trace_fits_def fits_column_def demo_trace_def agent_id_width_def)

theorem trace_insert_correct_witness:
  "trace_lookup id (snd (trace_insert id None (demo_trace Thought 1) [])) (''a1'', 7)
     = Some (row_of_trace (demo_trace Thought 1))
   \<and> fst (trace_insert id (Some (Database (Some ''40001'') ''Deadlock'', False)) (demo_trace Thought 1) [])
     = Inl (Database (Some ''40001'') ''Deadlock'')"
proof -
  let ?deadlock = "Some (Database (Some ''40001'') ''Deadlock'', False)"
  have empty: "traces_unique id ([] :: nat trace_row list)" by (simp add: traces_unique_def)
  have "honest_fault ?deadlock" by (simp add: honest_fault_def)
  from trace_insert_correct [OF this empty prod.collapse [symmetric], of "demo_trace Thought 1"]
    trace_insert_correct [OF honest_fault_None empty prod.collapse [symmetric], of "demo_trace Thought 1"]
  show ?thesis by (simp add: demo_trace_def trace_lookup_def)
qed

text \<open>
  An insert may be repeated after any failure, also one that hides whether the row was written:
  the retry that goes through returns \<open>Ok\<close> and leaves the table that a single successful insert
  leaves.
\<close>

theorem trace_insert_retry:
  assumes "honest_fault fault"
  shows "trace_insert coll None t (snd (trace_insert coll fault t tbl)) = trace_insert coll None t tbl"
proof (cases "trace_fits t")
  case True
  with trace_insert_table [OF assms, of coll t tbl] show ?thesis
    by (auto simp: trace_insert_no_fault traces.put_idem)
next
  case False
  with trace_insert_unfit [OF assms, of t coll tbl] show ?thesis by simp
qed

theorem trace_insert_retry_witness:
  "trace_insert id None (demo_trace Thought 1)
      (snd (trace_insert id (Some (Sqlx_Other ''connection lost'', True)) (demo_trace Thought 1) []))
    = (Inr (), [row_of_trace (demo_trace Thought 1)])"
proof -
  have "honest_fault (Some (Sqlx_Other ''connection lost'', True))"
    by (simp add: honest_fault_def)
  from trace_insert_retry [OF this, of id "demo_trace Thought 1" "[]"] show ?thesis
    by (simp add: trace_insert_no_fault trace_put_def trace_lookup_def)
qed

text \<open>
  The same tolerance drops events that are not repetitions: a trace whose agent and step are
  taken by a row of another type or another payload is reported as persisted, and is not stored.
\<close>

theorem distinct_event_dropped:
  assumes "trace_lookup coll tbl (coll (tr_agent_id t), tr_step_index t) \<noteq> None"
    and "row_of_trace t \<notin> set tbl" and "trace_fits t"
  shows "trace_insert coll None t tbl = (Inr (), tbl)
    \<and> row_of_trace t \<notin> set (snd (trace_insert coll None t tbl))"
proof -
  have "trace_lookup coll tbl (uq_agent_step coll (row_of_trace t)) \<noteq> None"
    using assms(1) by (simp add: uq_agent_step_def row_of_trace_def)
  then have "trace_put coll (row_of_trace t) tbl = tbl" by (rule traces.put_taken)
  with assms(2,3) show ?thesis by (simp add: trace_insert_no_fault)
qed

theorem distinct_event_dropped_witness:
  "trace_insert id None (demo_trace Observation 2) [row_of_trace (demo_trace ToolCall 1)]
     = (Inr (), [row_of_trace (demo_trace ToolCall 1)])"
proof -
  let ?tbl = "[row_of_trace (demo_trace ToolCall 1)]"
  have "trace_lookup id ?tbl (id (tr_agent_id (demo_trace Observation 2)),
      tr_step_index (demo_trace Observation 2)) \<noteq> None"
    by (simp add: trace_lookup_def uq_agent_step_def row_of_trace_def demo_trace_def)
  moreover have "row_of_trace (demo_trace Observation 2) \<notin> set ?tbl"
    by (simp add: row_of_trace_def demo_trace_def)
  ultimately show ?thesis using distinct_event_dropped [OF _ _ demo_trace_fits] by blast
qed

end
