(* ===== verification/Trace_Ingest.thy ===== *)
theory Trace_Ingest
  imports Agent_Trace
begin

text \<open>
  \<open>src/trace_ingest.rs\<close>: the loop that consumes \<open>agent.trace.*\<close> from JetStream, inserts each message
  into \<open>agent_traces\<close> and acknowledges it afterwards.  The consumer's answers are the input: a run is
  given the results of its fetches, and with each message what happens to its insert and its ack.
\<close>

section \<open>Decoding a message\<close>

record js_msg =
  jm_subject :: string
  jm_payload :: bytes
  jm_info :: "u64 option"  \<comment> \<open>the stream sequence of \<open>msg.info()\<close>, absent when that fails\<close>

datatype ingest_error = Ingest_Nats string | Ingest_Json | Ingest_Sqlx sqlx_error

definition subject_agent :: "string \<Rightarrow> string" where
  "subject_agent subject =
     (case nth_opt (split_on (CHR ''.'') subject) 2 of None \<Rightarrow> [] | Some a \<Rightarrow> a)"

definition js_sequence :: "js_msg \<Rightarrow> i64" where
  "js_sequence m = (case jm_info m of None \<Rightarrow> 0 | Some stream_sequence \<Rightarrow> stream_sequence)"

definition derive_step_index :: "'v json_api \<Rightarrow> 'v \<Rightarrow> i64 \<Rightarrow> i32" where
  "derive_step_index api payload sequence =
     as_i32 (case Option.bind (jv_get api payload ''step_index'') (jv_as_i64 api) of
               None \<Rightarrow> sequence | Some n \<Rightarrow> n)"

definition event_type_of_str :: "string \<Rightarrow> agent_event_type" where
  "event_type_of_str s =
     (if s = ''tool_call'' then ToolCall else if s = ''observation'' then Observation else Thought)"

definition derive_event_type :: "'v json_api \<Rightarrow> 'v \<Rightarrow> agent_event_type" where
  "derive_event_type api payload =
     (case map_option event_type_of_str
             (Option.bind (jv_get api payload ''event_type'') (jv_as_str api)) of
        None \<Rightarrow> Thought | Some ty \<Rightarrow> ty)"

definition decode_message :: "'v json_api \<Rightarrow> js_msg \<Rightarrow> ingest_error + 'v agent_trace" where
  "decode_message api m =
     (case from_slice api (jm_payload m) of
        None \<Rightarrow> Inl Ingest_Json
      | Some payload \<Rightarrow> Inr
          \<lparr>tr_agent_id = subject_agent (jm_subject m),
           tr_step_index = derive_step_index api payload (js_sequence m),
           tr_event_type = derive_event_type api payload,
           tr_payload = payload\<rparr>)"

section \<open>The loop\<close>

record 'v ingest_state =
  in_traces :: "'v trace_row list"
  in_acked :: "js_msg list"

record delivery =
  dl_msg :: js_msg
  dl_fault :: fault
  dl_ack :: "string option"  \<comment> \<open>the error of \<open>msg.ack()\<close>\<close>

definition process_message ::
  "collation \<Rightarrow> 'v json_api \<Rightarrow> delivery \<Rightarrow> 'v ingest_state \<Rightarrow> (ingest_error + unit) \<times> 'v ingest_state"
where
  "process_message coll api d st =
     (case decode_message api (dl_msg d) of
        Inl e \<Rightarrow> (Inl e, st)
      | Inr trace \<Rightarrow>
          (let (res, tbl') = trace_insert coll (dl_fault d) trace (in_traces st);
               st' = st\<lparr>in_traces := tbl'\<rparr>
           in (case res of
                 Inl e \<Rightarrow> (Inl (Ingest_Sqlx e), st')
               | Inr _ \<Rightarrow>
                   (case dl_ack d of
                      Some e \<Rightarrow> (Inl (Ingest_Nats e), st')
                    | None \<Rightarrow> (Inr (), st'\<lparr>in_acked := in_acked st' @ [dl_msg d]\<rparr>)))))"

text \<open>The inner loop: a batch is a stream of messages and of errors of the stream.\<close>

fun ingest_batch ::
  "collation \<Rightarrow> 'v json_api \<Rightarrow> (string + delivery) list \<Rightarrow> 'v ingest_state
     \<Rightarrow> (ingest_error + unit) \<times> 'v ingest_state" where
  "ingest_batch coll api [] st = (Inr (), st)"
| "ingest_batch coll api (Inl e # items) st = (Inl (Ingest_Nats e), st)"
| "ingest_batch coll api (Inr d # items) st =
     (case process_message coll api d st of
        (Inl e, st') \<Rightarrow> (Inl e, st')
      | (Inr _, st') \<Rightarrow> ingest_batch coll api items st')"

text \<open>
  The outer loop has no exit but an error: after the given fetches it has either returned one, or
  (\<open>None\<close>) it is still running.
\<close>

fun ingest_loop ::
  "collation \<Rightarrow> 'v json_api \<Rightarrow> (string + (string + delivery) list) list \<Rightarrow> 'v ingest_state
     \<Rightarrow> ingest_error option \<times> 'v ingest_state" where
  "ingest_loop coll api [] st = (None, st)"
| "ingest_loop coll api (Inl e # fetches) st = (Some (Ingest_Nats e), st)"
| "ingest_loop coll api (Inr batch # fetches) st =
     (case ingest_batch coll api batch st of
        (Inl e, st') \<Rightarrow> (Some e, st')
      | (Inr _, st') \<Rightarrow> ingest_loop coll api fetches st')"

definition ingest_agent_trace_stream ::
  "collation \<Rightarrow> 'v json_api \<Rightarrow> string option \<Rightarrow> string option
     \<Rightarrow> (string + (string + delivery) list) list \<Rightarrow> 'v ingest_state
     \<Rightarrow> ingest_error option \<times> 'v ingest_state" where
  "ingest_agent_trace_stream coll api get_stream_err create_consumer_err fetches st =
     (case get_stream_err of
        Some e \<Rightarrow> (Some (Ingest_Nats e), st)
      | None \<Rightarrow>
          (case create_consumer_err of
             Some e \<Rightarrow> (Some (Ingest_Nats e), st)
           | None \<Rightarrow> ingest_loop coll api fetches st))"

definition filter_subject :: string where
  "filter_subject = ''agent.trace.*''"

definition max_messages :: nat where
  "max_messages = 512"

section \<open>Subjects\<close>

definition trace_subject :: "string \<Rightarrow> string" where
  "trace_subject agent_id = ''agent.trace.'' @ agent_id"

lemma split_trace_subject:
  "split_on (CHR ''.'') (trace_subject a) = ''agent'' # ''trace'' # split_on (CHR ''.'') a"
proof -
  have "trace_subject a = ''agent'' @ CHR ''.'' # (''trace'' @ CHR ''.'' # a)"
    by (simp add: trace_subject_def)
  then show ?thesis by (simp add: split_on_append del: append.simps)
qed

lemma subject_agent_trace_subject: "subject_agent (trace_subject a) = takeWhile (\<lambda>c. c \<noteq> CHR ''.'') a"
  by (simp add: subject_agent_def split_trace_subject nth_opt_def hd_conv_nth [symmetric] hd_split_on)

lemma takeWhile_eq_self_iff: "takeWhile P s = s \<longleftrightarrow> (\<forall>x \<in> set s. P x)"
  by (metis takeWhile_eq_all_conv)

lemma split_on_eq_self_iff: "split_on c s = [s] \<longleftrightarrow> c \<notin> set s"
proof
  assume one: "split_on c s = [s]"
  then have "takeWhile (\<lambda>x. x \<noteq> c) s = s" by (metis hd_split_on list.sel(1))
  then show "c \<notin> set s" by (metis (mono_tags, lifting) takeWhile_eq_all_conv)
qed (rule split_on_fresh)

text \<open>
  The ingest loop gives an event to the agent it was saved for exactly when the agent's
  identifier has no full stop: then the subject is the three tokens that the loop's filter
  \<open>agent.trace.*\<close> selects, and the third is read back as the identifier.  With a full stop the
  subject has more tokens, and the third is only what stands before the first one.
\<close>

theorem subject_roundtrip:
  "(subject_agent (trace_subject a) = a \<longleftrightarrow> CHR ''.'' \<notin> set a)
   \<and> (split_on (CHR ''.'') (trace_subject a) = [''agent'', ''trace'', a] \<longleftrightarrow> CHR ''.'' \<notin> set a)
   \<and> subject_agent (trace_subject (a @ CHR ''.'' # b)) = subject_agent (trace_subject a)"
  by (auto simp: subject_agent_trace_subject takeWhile_eq_self_iff takeWhile_tail split_trace_subject
      split_on_eq_self_iff)

section \<open>Step indexes\<close>

lemma as_i32_eq_iff:
  "as_i32 x = as_i32 y \<longleftrightarrow> unat x mod 2 ^ 32 = unat y mod 2 ^ 32"
proof -
  have "unat (ucast z :: i32) = unat z mod 2 ^ 32" for z :: i64
    by (simp add: unsigned_ucast_eq take_bit_eq_mod)
  then show ?thesis unfolding as_i32_def by (metis word_unat_eq_iff)
qed

text \<open>
  Messages without a step index are numbered by their stream sequence, truncated to 32 bits:
  two of them get the same step exactly when their sequences agree modulo \<open>2 ^ 32\<close>, so the first
  \<open>2 ^ 32\<close> sequences of a stream are kept apart and no more.
\<close>

theorem fallback_step_collides_iff:
  assumes "Option.bind (jv_get api v ''step_index'') (jv_as_i64 api) = None"
    and "Option.bind (jv_get api w ''step_index'') (jv_as_i64 api) = None"
  shows "derive_step_index api v m = derive_step_index api w n
    \<longleftrightarrow> unat m mod 2 ^ 32 = unat n mod 2 ^ 32"
  using assms by (simp add: derive_step_index_def as_i32_eq_iff)

theorem fallback_step_collides_iff_witness:
  "derive_step_index demo_json [] 1 = derive_step_index demo_json [] (1 + 2 ^ 32)"
proof -
  have none: "Option.bind (jv_get demo_json [] ''step_index'') (jv_as_i64 demo_json) = None"
    by (simp add: demo_json_def)
  show ?thesis
    using fallback_step_collides_iff [OF none none, of 1 "1 + 2 ^ 32"] by simp
qed

section \<open>Messages that say what they are\<close>

lemma event_type_of_as_db_str [simp]: "event_type_of_str (as_db_str ty) = ty"
  by (cases ty) (simp_all add: event_type_of_str_def)

lemma as_i32_to_i64 [simp]: "as_i32 (i32_to_i64 k) = k"
  unfolding as_i32_def i32_to_i64_def
proof (rule bit_word_eqI)
  fix n
  assume n: "n < LENGTH(32)"
  then have "min 31 n = n" by simp
  with n show "bit (ucast (scast k :: i64) :: i32) n = bit k n"
    by (simp add: bit_unsigned_iff bit_signed_iff)
qed

text \<open>
  C40.  A message that gives its own step and type is taken at its word: under an agent's trace subject,
  an object whose \<open>step_index\<close> is a 32-bit number and whose \<open>event_type\<close> is a type's database name is
  decoded to the trace with that agent, step and type and with the object itself as payload, and the
  stream sequence plays no part.  So a trace that is written out in this form is read back as itself.
\<close>

theorem decode_well_formed:
  assumes "json_laws api" and "from_slice api (jm_payload m) = Some (tr_payload t)"
    and "jv_get api (tr_payload t) ''step_index'' = Some (jv_int api (i32_to_i64 (tr_step_index t)))"
    and "jv_get api (tr_payload t) ''event_type'' = Some (jv_str api (as_db_str (tr_event_type t)))"
    and "jm_subject m = trace_subject (tr_agent_id t)" and "CHR ''.'' \<notin> set (tr_agent_id t)"
  shows "decode_message api m = Inr t"
proof -
  have "jv_as_str api (jv_str api s) = Some s" for s using assms(1) by (simp add: json_laws_def)
  moreover have "subject_agent (trace_subject (tr_agent_id t)) = tr_agent_id t"
    using assms(6) by (simp add: subject_agent_trace_subject takeWhile_eq_self_iff) metis
  ultimately show ?thesis
    using assms(2-5) json_as_i64_int [OF assms(1)]
    by (simp add: decode_message_def derive_step_index_def derive_event_type_def)
qed

theorem decode_well_formed_witness:
  "let v = jv_object demo_json [(''step_index'', jv_int demo_json 5), (''event_type'', jv_str demo_json ''tool_call'')]
   in decode_message demo_json \<lparr>jm_subject = ''agent.trace.a'', jm_payload = v, jm_info = None\<rparr>
     = Inr \<lparr>tr_agent_id = ''a'', tr_step_index = 5, tr_event_type = ToolCall, tr_payload = v\<rparr>"
proof -
  let ?v = "jv_object demo_json [(''step_index'', jv_int demo_json 5), (''event_type'', jv_str demo_json ''tool_call'')]"
  let ?t = "\<lparr>tr_agent_id = ''a'', tr_step_index = 5, tr_event_type = ToolCall, tr_payload = ?v\<rparr>"
  let ?m = "\<lparr>jm_subject = ''agent.trace.a'', jm_payload = ?v, jm_info = None\<rparr>"
  have five: "i32_to_i64 5 = 5" by (simp add: i32_to_i64_def)
  have get: "jv_get demo_json ?v k = map_of [(''step_index'', jv_int demo_json 5),
      (''event_type'', jv_str demo_json ''tool_call'')] k" for k
    by (rule json_get_object [OF demo_json_laws]) simp
  have "from_slice demo_json (jm_payload ?m) = Some (tr_payload ?t)" by (simp add: demo_json_def)
  moreover have "jv_get demo_json (tr_payload ?t) ''step_index''
      = Some (jv_int demo_json (i32_to_i64 (tr_step_index ?t)))"
    by (simp add: get five)
  moreover have "jv_get demo_json (tr_payload ?t) ''event_type''
      = Some (jv_str demo_json (as_db_str (tr_event_type ?t)))"
    by (simp add: get)
  moreover have "jm_subject ?m = trace_subject (tr_agent_id ?t)" by (simp add: trace_subject_def)
  ultimately show ?thesis
    using decode_well_formed [OF demo_json_laws, of ?m ?t] by (simp add: Let_def)
qed

section \<open>What a run does\<close>

text \<open>A message that decodes to a trace that fits the table: nothing but a fault keeps it out.\<close>

definition ingestible :: "'v json_api \<Rightarrow> js_msg \<Rightarrow> bool" where
  "ingestible api m \<longleftrightarrow> (case decode_message api m of Inl _ \<Rightarrow> False | Inr t \<Rightarrow> trace_fits t)"

definition clean :: "delivery \<Rightarrow> bool" where
  "clean d \<longleftrightarrow> dl_fault d = None \<and> dl_ack d = None"

lemma process_message_cases:
  assumes "process_message coll api d st = (res, st')" and "honest_fault (dl_fault d)"
  obtains (malformed) e where "decode_message api (dl_msg d) = Inl e" "res = Inl e" "st' = st"
      "\<not> ingestible api (dl_msg d)"
  | (failed) t where "decode_message api (dl_msg d) = Inr t" "res \<noteq> Inr ()" "\<not> (ingestible api (dl_msg d) \<and> clean d)"
      "in_traces st' = in_traces st
        \<or> ingestible api (dl_msg d) \<and> in_traces st' = trace_put coll (row_of_trace t) (in_traces st)"
      "in_acked st' = in_acked st"
  | (acked) t where "decode_message api (dl_msg d) = Inr t" "res = Inr ()" "ingestible api (dl_msg d)" "clean d"
      "in_traces st' = trace_put coll (row_of_trace t) (in_traces st)"
      "in_acked st' = in_acked st @ [dl_msg d]"
proof (cases "decode_message api (dl_msg d)")
  case (Inl e)
  with assms show ?thesis by (auto simp: process_message_def ingestible_def intro: malformed)
next
  case (Inr t)
  have fits: "ingestible api (dl_msg d) \<longleftrightarrow> trace_fits t" by (simp add: ingestible_def Inr)
  obtain r tbl' where run: "trace_insert coll (dl_fault d) t (in_traces st) = (r, tbl')" by fastforce
  note tbl = trace_insert_table [OF assms(2), of coll t "in_traces st"]
    and unfit = trace_insert_unfit [OF assms(2), of t coll "in_traces st"]
    and ok = trace_insert_Ok_iff [OF assms(2), of coll t "in_traces st"]
  show ?thesis
  proof (cases r)
    case (Inl e)
    with run Inr assms(1) tbl unfit ok fits show ?thesis
      by (intro failed [OF Inr]) (auto simp: process_message_def clean_def)
  next
    case (Inr u)
    with run ok have "dl_fault d = None" and fit: "trace_fits t" by simp_all
    moreover from run Inr have "tbl' = trace_put coll (row_of_trace t) (in_traces st)"
      by (intro trace_insert_step(3) [OF assms(2)]) simp
    ultimately show ?thesis
      using \<open>decode_message api (dl_msg d) = Inr t\<close> run Inr assms(1) fits
      by (cases "dl_ack d") (auto simp: process_message_def clean_def intro: failed acked)
  qed
qed

text \<open>
  The rows of a list of messages: what a run that meets no error puts into the table, in order.
\<close>

fun decoded :: "'v json_api \<Rightarrow> js_msg list \<Rightarrow> 'v trace_row list" where
  "decoded api [] = []"
| "decoded api (m # ms) =
     (case decode_message api m of Inl _ \<Rightarrow> [] | Inr t \<Rightarrow> [row_of_trace t]) @ decoded api ms"

definition stored :: "collation \<Rightarrow> 'v json_api \<Rightarrow> 'v trace_row list \<Rightarrow> js_msg \<Rightarrow> bool" where
  "stored coll api tbl m \<longleftrightarrow>
     (\<exists>t. decode_message api m = Inr t
        \<and> trace_lookup coll tbl (uq_agent_step coll (row_of_trace t)) \<noteq> None)"

definition acked_stored :: "collation \<Rightarrow> 'v json_api \<Rightarrow> 'v ingest_state \<Rightarrow> bool" where
  "acked_stored coll api st \<longleftrightarrow>
     traces_unique coll (in_traces st) \<and> (\<forall>m \<in> set (in_acked st). stored coll api (in_traces st) m)"

lemma stored_put: "stored coll api tbl m \<Longrightarrow> stored coll api (trace_put coll r tbl) m"
  by (auto simp: stored_def traces.lookup_put)

lemma process_message_acked_stored:
  assumes "acked_stored coll api st" and "honest_fault (dl_fault d)"
  shows "acked_stored coll api (snd (process_message coll api d st))"
proof -
  obtain res st' where pm: "process_message coll api d st = (res, st')" by fastforce
  show ?thesis using assms(1)
    by (cases rule: process_message_cases [OF pm assms(2)])
       (auto simp: pm acked_stored_def stored_put trace_put_unique, auto simp: stored_def traces.lookup_put)
qed

definition honest_items :: "(string + delivery) list \<Rightarrow> bool" where
  "honest_items items \<longleftrightarrow> list_all (\<lambda>i. case i of Inl _ \<Rightarrow> True | Inr d \<Rightarrow> honest_fault (dl_fault d)) items"

definition honest_fetches :: "(string + (string + delivery) list) list \<Rightarrow> bool" where
  "honest_fetches fetches \<longleftrightarrow>
     list_all (\<lambda>f. case f of Inl _ \<Rightarrow> True | Inr items \<Rightarrow> honest_items items) fetches"

lemma ingest_batch_acked_stored:
  "acked_stored coll api st \<Longrightarrow> honest_items items
     \<Longrightarrow> acked_stored coll api (snd (ingest_batch coll api items st))"
proof (induction coll api items st rule: ingest_batch.induct)
  case (3 coll api d items st)
  then have step: "acked_stored coll api (snd (process_message coll api d st))"
    by (intro process_message_acked_stored) (simp_all add: honest_items_def)
  obtain r st' where pm: "process_message coll api d st = (r, st')" by fastforce
  with 3 step show ?case by (cases r) (auto simp: honest_items_def)
qed simp_all

lemma ingest_loop_acked_stored:
  "acked_stored coll api st \<Longrightarrow> honest_fetches fetches
     \<Longrightarrow> acked_stored coll api (snd (ingest_loop coll api fetches st))"
proof (induction coll api fetches st rule: ingest_loop.induct)
  case (3 coll api batch fetches st)
  then have step: "acked_stored coll api (snd (ingest_batch coll api batch st))"
    by (intro ingest_batch_acked_stored) (simp_all add: honest_fetches_def)
  obtain r st' where ib: "ingest_batch coll api batch st = (r, st')" by fastforce
  with 3 step show ?case by (cases r) (auto simp: honest_fetches_def)
qed simp_all

text \<open>
  C15.  At least once: at any point of any run, whatever fetches, inserts and acks fail, every message
  that has been acknowledged decodes and has a row under its agent and step in the table, and the
  table satisfies its unique key.
\<close>

theorem ingest_at_least_once:
  assumes "honest_fetches fetches" and "traces_unique coll tbl"
    and "ingest_agent_trace_stream coll api gs cc fetches \<lparr>in_traces = tbl, in_acked = []\<rparr> = (res, st')"
  shows "traces_unique coll (in_traces st')
    \<and> list_all (stored coll api (in_traces st')) (in_acked st')"
proof -
  have "acked_stored coll api \<lparr>in_traces = tbl, in_acked = []\<rparr>"
    using assms(2) by (simp add: acked_stored_def)
  with ingest_loop_acked_stored [OF this assms(1)] assms(3) have "acked_stored coll api st'"
    by (auto simp: ingest_agent_trace_stream_def split: option.splits)
  then show ?thesis by (auto simp: acked_stored_def list_all_iff)
qed

definition demo_delivery :: "nat \<Rightarrow> fault \<Rightarrow> delivery" where
  "demo_delivery n fault = \<lparr>dl_msg = \<lparr>jm_subject = ''agent.trace.a1'', jm_payload = [],
     jm_info = Some (of_nat n)\<rparr>, dl_fault = fault, dl_ack = None\<rparr>"

definition demo_row :: "i32 \<Rightarrow> string trace_row" where
  "demo_row n = \<lparr>row_agent_id = ''a1'', row_step_index = n, row_event_type = ''thought'',
     row_payload = Some []\<rparr>"

lemma demo_subject_agent: "subject_agent ''agent.trace.a1'' = ''a1''"
  by (simp add: subject_agent_def nth_opt_def)

lemma demo_decode:
  "decode_message demo_json (dl_msg (demo_delivery n fault)) = Inr
     \<lparr>tr_agent_id = ''a1'', tr_step_index = as_i32 (of_nat n), tr_event_type = Thought, tr_payload = []\<rparr>"
  by (simp add: decode_message_def demo_delivery_def derive_step_index_def derive_event_type_def
      js_sequence_def demo_json_def demo_subject_agent)

lemma demo_row_of_trace [simp]:
  "row_of_trace \<lparr>tr_agent_id = ''a1'', tr_step_index = k, tr_event_type = Thought, tr_payload = []\<rparr>
     = demo_row k"
  by (simp add: demo_row_def row_of_trace_def)

lemma demo_delivery_simps [simp]:
  "dl_fault (demo_delivery n fault) = fault"
  "dl_ack (demo_delivery n fault) = None"
  by (simp_all add: demo_delivery_def)

lemma demo_process:
  "process_message id demo_json (demo_delivery n None) st =
     (Inr (), \<lparr>in_traces = trace_put id (demo_row (as_i32 (of_nat n))) (in_traces st),
               in_acked = in_acked st @ [dl_msg (demo_delivery n None)]\<rparr>)"
  "process_message id demo_json (demo_delivery n (Some (Sqlx_Other msg, False))) st =
     (Inl (Ingest_Sqlx (Sqlx_Other msg)), st)"
  "process_message id demo_json (demo_delivery n (Some (Sqlx_Other msg, True))) st =
     (Inl (Ingest_Sqlx (Sqlx_Other msg)),
      st\<lparr>in_traces := trace_put id (demo_row (as_i32 (of_nat n))) (in_traces st)\<rparr>)"
  by (simp_all add: process_message_def demo_decode trace_insert_cases honest_fault_def trace_fits_def
      fits_column_def agent_id_width_def)

lemma demo_trace_put: "trace_put id (demo_row k) [] = [demo_row k]"
  by (simp add: trace_put_def trace_lookup_def)

theorem ingest_at_least_once_witness:
  "let (res, st') = ingest_agent_trace_stream id demo_json None None
       [Inr [Inr (demo_delivery 2 None), Inr (demo_delivery 3 (Some (Sqlx_Other ''down'', False)))]]
       \<lparr>in_traces = [], in_acked = []\<rparr>
   in res = Some (Ingest_Sqlx (Sqlx_Other ''down'')) \<and> in_acked st' = [dl_msg (demo_delivery 2 None)]
     \<and> list_all (stored id demo_json (in_traces st')) (in_acked st')"
proof -
  let ?fetches = "[Inr [Inr (demo_delivery 2 None),
    Inr (demo_delivery 3 (Some (Sqlx_Other ''down'', False)))]]"
  let ?st' = "\<lparr>in_traces = [demo_row (as_i32 2)], in_acked = [dl_msg (demo_delivery 2 None)]\<rparr>"
  have run: "ingest_agent_trace_stream id demo_json None None ?fetches \<lparr>in_traces = [], in_acked = []\<rparr>
      = (Some (Ingest_Sqlx (Sqlx_Other ''down'')), ?st')"
    by (simp add: ingest_agent_trace_stream_def demo_process demo_trace_put)
  have "honest_fetches ?fetches" and "traces_unique id ([] :: string trace_row list)"
    by (simp_all add: honest_fetches_def honest_items_def honest_fault_def traces_unique_def)
  from ingest_at_least_once [OF this run] show ?thesis by (simp add: run)
qed

section \<open>How far a run comes\<close>

text \<open>
  A run acknowledges its deliveries up to the first one that does not pass: one that is not ingestible, or
  whose insert or ack fails.
\<close>

definition passes :: "'v json_api \<Rightarrow> delivery \<Rightarrow> bool" where
  "passes api d \<longleftrightarrow> ingestible api (dl_msg d) \<and> clean d"

lemma decoded_append: "decoded api (ms @ ms') = decoded api ms @ decoded api ms'"
  by (induction ms) simp_all

lemma decoded_drop:
  "list_all (ingestible api) ms \<Longrightarrow> decoded api (drop j ms) = drop j (decoded api ms)"
proof (induction ms arbitrary: j)
  case (Cons m ms)
  then show ?case
    by (cases j) (auto simp: ingestible_def split: sum.splits)
qed simp

lemma ingest_batch_acks:
  assumes "list_all (\<lambda>d. honest_fault (dl_fault d)) ds" and "ingest_batch coll api (map Inr ds) st = (res, st')"
  shows "in_acked st' = in_acked st @ map dl_msg (takeWhile (passes api) ds)"
    and "is_ok res \<longleftrightarrow> list_all (passes api) ds"
proof -
  from assms have "in_acked st' = in_acked st @ map dl_msg (takeWhile (passes api) ds)
      \<and> (is_ok res \<longleftrightarrow> list_all (passes api) ds)"
  proof (induction ds arbitrary: st)
    case (Cons d ds)
    obtain r st1 where pm: "process_message coll api d st = (r, st1)" by fastforce
    have "honest_fault (dl_fault d)" using Cons.prems(1) by simp
    with pm show ?case
    proof (cases rule: process_message_cases)
      case (malformed e)
      with pm Cons.prems(2) show ?thesis by (auto simp: passes_def is_ok_def)
    next
      case (failed t)
      then obtain e where "r = Inl e" by (cases r) auto
      with pm failed Cons.prems(2) show ?thesis by (auto simp: passes_def is_ok_def)
    next
      case (acked t)
      with pm Cons show ?thesis by (simp add: passes_def)
    qed
  qed (auto simp: is_ok_def)
  then show "in_acked st' = in_acked st @ map dl_msg (takeWhile (passes api) ds)"
    and "is_ok res \<longleftrightarrow> list_all (passes api) ds" by simp_all
qed

text \<open>How the deliveries are cut into fetches plays no part.\<close>

lemma ingest_batch_append:
  "ingest_batch coll api (xs @ ys) st =
     (case ingest_batch coll api xs st of
        (Inl e, st') \<Rightarrow> (Inl e, st') | (Inr _, st') \<Rightarrow> ingest_batch coll api ys st')"
  by (induction coll api xs st rule: ingest_batch.induct) (auto split: prod.splits sum.splits)

lemma ingest_fetches:
  "ingest_loop coll api (map (\<lambda>ds. Inr (map Inr ds)) fetches) st =
     (case ingest_batch coll api (map Inr (concat fetches)) st of
        (Inl e, st') \<Rightarrow> (Some e, st') | (Inr _, st') \<Rightarrow> (None, st'))"
  by (induction fetches arbitrary: st) (auto simp: ingest_batch_append split: prod.splits sum.splits)

text \<open>
  The rows that a run over deliveries inserts: a prefix of those that the messages up to the first one that
  is not ingestible have, and at most one more than the run acknowledges.
\<close>

definition ingest_rows :: "'v json_api \<Rightarrow> js_msg list \<Rightarrow> 'v trace_row list" where
  "ingest_rows api ms = decoded api (takeWhile (ingestible api) ms)"

lemma ingest_rows_Cons [simp]:
  "decode_message api m = Inr t \<Longrightarrow> ingestible api m \<Longrightarrow> ingest_rows api (m # ms) = row_of_trace t # ingest_rows api ms"
  "\<not> ingestible api m \<Longrightarrow> ingest_rows api (m # ms) = []"
  by (simp_all add: ingest_rows_def)

lemma ingest_batch_prefix:
  assumes "list_all (\<lambda>d. honest_fault (dl_fault d)) ds" and "ingest_batch coll api (map Inr ds) st = (res, st')"
  shows "\<exists>i. length (takeWhile (passes api) ds) \<le> i
    \<and> in_traces st' = fold (trace_put coll) (take i (ingest_rows api (map dl_msg ds))) (in_traces st)"
  using assms
proof (induction ds arbitrary: st)
  case Nil
  then show ?case by (simp add: ingest_rows_def)
next
  case (Cons d ds)
  obtain r st1 where pm: "process_message coll api d st = (r, st1)" by fastforce
  have "honest_fault (dl_fault d)" using Cons.prems by simp
  with pm show ?case
  proof (cases rule: process_message_cases)
    case (malformed e)
    with pm Cons.prems(2) show ?thesis by (intro exI [of _ 0]) (auto simp: passes_def)
  next
    case (failed t)
    then obtain e where "r = Inl e" by (cases r) auto
    with pm Cons.prems(2) have st': "st' = st1" by simp
    from failed(4) show ?thesis
    proof
      assume "in_traces st1 = in_traces st"
      with failed st' show ?thesis by (intro exI [of _ 0]) (simp add: passes_def)
    next
      assume "ingestible api (dl_msg d) \<and> in_traces st1 = trace_put coll (row_of_trace t) (in_traces st)"
      with failed st' show ?thesis by (intro exI [of _ 1]) (simp add: passes_def)
    qed
  next
    case (acked t)
    with pm Cons.prems obtain i where "length (takeWhile (passes api) ds) \<le> i"
      "in_traces st' = fold (trace_put coll) (take i (ingest_rows api (map dl_msg ds))) (in_traces st1)"
      using Cons.IH [of st1] by auto
    moreover have "passes api d" using acked by (simp add: passes_def)
    ultimately show ?thesis using acked by (intro exI [of _ "Suc i"]) simp
  qed
qed

text \<open>A run that meets no fault inserts all of them.\<close>

lemma ingest_batch_clean:
  assumes "list_all clean ds" and "ingest_batch coll api (map Inr ds) st = (res, st')"
  shows "in_traces st' = fold (trace_put coll) (ingest_rows api (map dl_msg ds)) (in_traces st)"
  using assms
proof (induction ds arbitrary: st)
  case Nil
  then show ?case by (simp add: ingest_rows_def)
next
  case (Cons d ds)
  obtain r st1 where pm: "process_message coll api d st = (r, st1)" by fastforce
  have "honest_fault (dl_fault d)" using Cons.prems by (simp add: clean_def)
  with pm show ?case
  proof (cases rule: process_message_cases)
    case (failed t)
    then have unfit: "\<not> ingestible api (dl_msg d)" using Cons.prems(1) by simp
    from failed obtain e where "r = Inl e" by (cases r) auto
    with pm failed(4) unfit Cons.prems(2) show ?thesis by simp
  qed (use pm Cons in auto)
qed

section \<open>Redelivery\<close>

definition undisturbed :: "delivery \<Rightarrow> delivery" where
  "undisturbed d = d\<lparr>dl_fault := None, dl_ack := None\<rparr>"

lemma undisturbed_simps [simp]: "clean (undisturbed d)" "dl_msg (undisturbed d) = dl_msg d"
  by (simp_all add: undisturbed_def clean_def)

lemma takeWhile_drop:
  "j \<le> length (takeWhile P xs) \<Longrightarrow> takeWhile P (drop j xs) = drop j (takeWhile P xs)"
  by (induction xs arbitrary: j) (auto simp: drop_Cons split: nat.splits)

lemma ingest_rows_drop:
  assumes "j \<le> length (takeWhile (ingestible api) ms)"
  shows "ingest_rows api (drop j ms) = drop j (ingest_rows api ms)"
proof -
  have "list_all (ingestible api) (takeWhile (ingestible api) ms)"
    by (auto simp: list_all_iff dest: set_takeWhileD)
  with takeWhile_drop [OF assms] show ?thesis by (simp add: ingest_rows_def decoded_drop)
qed

lemma passes_ingestible:
  "length (takeWhile (passes api) ds) \<le> length (takeWhile (ingestible api) (map dl_msg ds))"
  by (induction ds) (auto simp: passes_def)

text \<open>
  C16.  At-least-once delivery has an exactly-once effect: let a run over a sequence of messages be cut
  short by any failure, at any message, and let the stream deliver again, to a run that meets no
  failure of the database or of its acks, all messages from some place on that leaves out none without
  an ack; the table is then the one that a single undisturbed run over all of them leaves.  That
  run inserts the rows of the messages up to the first that does not parse or does not fit, and so of
  all of them if they all do.
\<close>

theorem redelivery_exactly_once:
  assumes "list_all (\<lambda>d. honest_fault (dl_fault d)) ds"
    and "ingest_batch coll api (map Inr ds) \<lparr>in_traces = tbl, in_acked = []\<rparr> = (res, st1)"
    and "j \<le> length (in_acked st1)"
    and "map dl_msg ds' = drop j (map dl_msg ds)" and "list_all clean ds'"
  shows "in_traces (snd (ingest_batch coll api (map Inr ds') st1))
      = in_traces (snd (ingest_batch coll api (map (Inr \<circ> undisturbed) ds) \<lparr>in_traces = tbl, in_acked = []\<rparr>))
    \<and> in_traces (snd (ingest_batch coll api (map Inr ds') st1))
      = fold (trace_put coll) (decoded api (takeWhile (ingestible api) (map dl_msg ds))) tbl"
proof -
  let ?rows = "ingest_rows api (map dl_msg ds)"
  obtain i where i: "length (takeWhile (passes api) ds) \<le> i"
      "in_traces st1 = fold (trace_put coll) (take i ?rows) tbl"
    using ingest_batch_prefix [OF assms(1,2)] by auto
  have j: "j \<le> length (takeWhile (passes api) ds)"
    using assms(3) ingest_batch_acks(1) [OF assms(1,2)] by simp
  then have "j \<le> length (takeWhile (ingestible api) (map dl_msg ds))"
    using passes_ingestible by (rule le_trans)
  then have "ingest_rows api (map dl_msg ds') = drop j ?rows"
    unfolding assms(4) by (rule ingest_rows_drop)
  then have "in_traces (snd (ingest_batch coll api (map Inr ds') st1)) = fold (trace_put coll) (drop j ?rows) (in_traces st1)"
    using ingest_batch_clean [OF assms(5) prod.collapse [symmetric], of coll api st1] by simp
  also have "\<dots> = fold (trace_put coll) ?rows tbl"
    unfolding i(2) using le_trans [OF j i(1)] by (rule traces.puts_resume_from)
  finally have rows: "in_traces (snd (ingest_batch coll api (map Inr ds') st1)) = fold (trace_put coll) ?rows tbl" .
  have "list_all clean (map undisturbed ds)" by (simp add: list_all_iff)
  from ingest_batch_clean [OF this prod.collapse [symmetric], of coll api "\<lparr>in_traces = tbl, in_acked = []\<rparr>"]
  have "in_traces (snd (ingest_batch coll api (map (Inr \<circ> undisturbed) ds) \<lparr>in_traces = tbl, in_acked = []\<rparr>))
      = fold (trace_put coll) ?rows tbl" by (simp add: comp_def)
  with rows show ?thesis by (simp add: ingest_rows_def)
qed

theorem redelivery_exactly_once_witness:
  "in_traces (snd (ingest_batch id demo_json [Inr (demo_delivery 3 None)]
      (snd (ingest_batch id demo_json
        [Inr (demo_delivery 2 None), Inr (demo_delivery 3 (Some (Sqlx_Other ''down'', True)))]
        \<lparr>in_traces = [], in_acked = []\<rparr>))))
    = fold (trace_put id) [demo_row (as_i32 2), demo_row (as_i32 3)] []"
proof -
  let ?ds = "[demo_delivery 2 None, demo_delivery 3 (Some (Sqlx_Other ''down'', True))]"
  let ?tbl = "fold (trace_put id) [demo_row (as_i32 2), demo_row (as_i32 3)] []"
  have first: "ingest_batch id demo_json (map Inr ?ds) \<lparr>in_traces = [], in_acked = []\<rparr>
      = (Inl (Ingest_Sqlx (Sqlx_Other ''down'')),
         \<lparr>in_traces = ?tbl, in_acked = [dl_msg (demo_delivery 2 None)]\<rparr>)"
    by (simp add: demo_process)
  have ok: "list_all (\<lambda>d. honest_fault (dl_fault d)) ?ds" by (simp add: honest_fault_def)
  have again: "1 \<le> length (in_acked \<lparr>in_traces = ?tbl, in_acked = [dl_msg (demo_delivery 2 None)]\<rparr>)"
      "map dl_msg [demo_delivery 3 None] = drop 1 (map dl_msg ?ds)" "list_all clean [demo_delivery 3 None]"
    by (simp_all add: clean_def demo_delivery_def)
  have rows: "decoded demo_json (takeWhile (ingestible demo_json) (map dl_msg ?ds))
      = [demo_row (as_i32 2), demo_row (as_i32 3)]"
    by (simp add: demo_decode ingestible_def trace_fits_def fits_column_def agent_id_width_def)
  have "in_traces (snd (ingest_batch id demo_json (map Inr [demo_delivery 3 None])
      \<lparr>in_traces = ?tbl, in_acked = [dl_msg (demo_delivery 2 None)]\<rparr>)) = ?tbl"
    using conjunct2 [OF redelivery_exactly_once [OF ok first again]] by (simp only: rows)
  with first show ?thesis by simp
qed

text \<open>
  A message that does not parse stops the ingestion for good: behind any messages that go
  through, the loop returns the JSON error without acknowledging it, whatever follows it in the batch
  and whatever the later fetches would bring; and since it stays unacknowledged, every restart that it
  is redelivered to returns the same error at once.
\<close>

theorem malformed_message_stops_ingest:
  assumes "from_slice api (jm_payload (dl_msg bad)) = None"
    and "ingest_batch coll api (map Inr ds) st = (Inr (), st1)"
  shows "ingest_loop coll api (Inr (map Inr ds @ Inr bad # items) # fetches) st = (Some Ingest_Json, st1)
    \<and> ingest_loop coll api (Inr (Inr bad # items') # fetches') st1 = (Some Ingest_Json, st1)"
proof -
  have bad: "process_message coll api bad st' = (Inl Ingest_Json, st')" for st'
    using assms(1) by (simp add: process_message_def decode_message_def)
  have "ingest_batch coll api (map Inr ds @ Inr bad # items) st = (Inl Ingest_Json, st1)"
    using assms(2)
    by (induction ds arbitrary: st) (auto simp: bad split: prod.splits sum.splits)
  then show ?thesis by (simp add: bad)
qed

theorem malformed_message_stops_ingest_witness:
  "ingest_loop id (demo_json\<lparr>from_slice := (\<lambda>b. None)\<rparr>) [Inr [Inr (demo_delivery 2 None)]]
      \<lparr>in_traces = [], in_acked = []\<rparr> = (Some Ingest_Json, \<lparr>in_traces = [], in_acked = []\<rparr>)"
proof -
  let ?api = "demo_json\<lparr>from_slice := (\<lambda>b. None)\<rparr>"
  have "from_slice ?api (jm_payload (dl_msg (demo_delivery 2 None))) = None" by simp
  from malformed_message_stops_ingest [OF this, of id "[]"] show ?thesis by simp
qed

end
