(* ===== verification/Batch_Writer.thy ===== *)
theory Batch_Writer
  imports Agent_Trace
begin

text \<open>
  The background half of \<open>src/durable_event_store.rs\<close>: \<open>flush_batch\<close>, its retries, and the loop
  \<open>run_tidb_batch_writer\<close> that batches the queued events into the table \<open>agent_events\<close>.

  The loop is driven by what \<open>select!\<close> yields, an event or a tick, and each flush by a \<open>flush_world\<close>:
  what the database does to every attempt, and whether the dead-letter channel is closed (one that is
  full only makes the writer wait).  The decoder
  \<open>String::from_utf8_lossy\<close> and the delays of \<open>tokio_retry\<close>'s backoff are parameters.
\<close>

section \<open>Configuration and events\<close>

record skialith_config =
  max_batch_size :: nat
  max_batch_linger :: millis
  channel_capacity :: nat

definition config_default :: skialith_config where
  "config_default = \<lparr>max_batch_size = 256, max_batch_linger = 250, channel_capacity = 10000\<rparr>"

record pending_event =
  pe_agent_id :: string
  pe_event_id :: string
  pe_payload_json :: bytes

section \<open>The table \<open>agent_events\<close>\<close>

record event_row =
  er_agent_id :: string
  er_event_id :: string
  er_payload_json :: string

definition uq_agent_event :: "collation \<Rightarrow> event_row \<Rightarrow> string \<times> string" where
  "uq_agent_event coll r = (coll (er_agent_id r), coll (er_event_id r))"

definition events_unique :: "collation \<Rightarrow> event_row list \<Rightarrow> bool" where
  "events_unique coll tbl \<longleftrightarrow> distinct (map (uq_agent_event coll) tbl)"

text \<open>
  \<open>INSERT INTO agent_events (...) VALUES (...), (...)\<close>: all rows or none; with no row at all it is not
  a statement.
\<close>

definition sql_insert_events ::
  "collation \<Rightarrow> event_row list \<Rightarrow> event_row list \<Rightarrow> sqlx_error + event_row list" where
  "sql_insert_events coll rows tbl =
     (if rows = [] then Inl (Database (Some ''42000'') ''You have an error in your SQL syntax'')
      else if events_unique coll (tbl @ rows) then Inr (tbl @ rows)
      else Inl (duplicate_entry ''uq_agent_event''))"

section \<open>\<open>flush_batch\<close>\<close>

definition row_of_event :: "(bytes \<Rightarrow> string) \<Rightarrow> pending_event \<Rightarrow> event_row" where
  "row_of_event lossy ev = \<lparr>er_agent_id = pe_agent_id ev, er_event_id = pe_event_id ev,
     er_payload_json = lossy (pe_payload_json ev)\<rparr>"

definition push_values :: "(bytes \<Rightarrow> string) \<Rightarrow> pending_event list \<Rightarrow> event_row list" where
  "push_values lossy batch = map (row_of_event lossy) batch"

text \<open>
  What the database does to one transaction beside its unique key (other constraints, such as the
  width of a column or the validity of the JSON, are faults of \<open>execute\<close>).  A failed \<open>commit\<close> does not tell
  whether the transaction was committed.
\<close>

record flush_env =
  fe_begin :: "sqlx_error option"
  fe_execute :: "sqlx_error option"
  fe_commit :: fault

definition no_faults :: flush_env where
  "no_faults = \<lparr>fe_begin = None, fe_execute = None, fe_commit = None\<rparr>"

definition flush_batch ::
  "collation \<Rightarrow> (bytes \<Rightarrow> string) \<Rightarrow> flush_env \<Rightarrow> pending_event list \<Rightarrow> event_row list
     \<Rightarrow> (sqlx_error + unit) \<times> pending_event list \<times> event_row list" where
  "flush_batch coll lossy env batch tbl =
     (case fe_begin env of Some e \<Rightarrow> (Inl e, batch, tbl)
      | None \<Rightarrow>
     (case fe_execute env of Some e \<Rightarrow> (Inl e, batch, tbl)
      | None \<Rightarrow>
     (case sql_insert_events coll (push_values lossy batch) tbl of
        Inl e \<Rightarrow> (Inl e, batch, tbl)
      | Inr tbl' \<Rightarrow>
     (case fe_commit env of
        Some (e, applied) \<Rightarrow> (Inl e, batch, if applied then tbl' else tbl)
      | None \<Rightarrow> (Inr (), [], tbl')))))"

section \<open>\<open>flush_batch_with_retry\<close>\<close>

text \<open>\<open>ExponentialBackoff::from_millis(100).factor(2).take(3)\<close>; \<open>delay base factor n\<close> is its \<open>n\<close>-th item.\<close>

definition retry_strategy :: "(nat \<Rightarrow> nat \<Rightarrow> nat \<Rightarrow> millis) \<Rightarrow> millis list" where
  "retry_strategy delay = map (delay 100 2) [0..<3]"

type_synonym flush_world = "(nat \<Rightarrow> flush_env) \<times> bool"

record writer =
  w_batch :: "pending_event list"
  w_events :: "event_row list"
  w_dead :: "pending_event list list"  \<comment> \<open>sent to the dead-letter channel\<close>
  w_lost :: "pending_event list"       \<comment> \<open>logged as lost\<close>
  w_slept :: millis

text \<open>The attempts that are followed by a delay: whether one succeeded, and the time slept.\<close>

fun retry_attempts ::
  "collation \<Rightarrow> (bytes \<Rightarrow> string) \<Rightarrow> (nat \<Rightarrow> flush_env) \<Rightarrow> nat \<Rightarrow> millis list
     \<Rightarrow> pending_event list \<Rightarrow> event_row list \<Rightarrow> bool \<times> pending_event list \<times> event_row list \<times> millis"
where
  "retry_attempts coll lossy envs attempt [] batch tbl = (False, batch, tbl, 0)"
| "retry_attempts coll lossy envs attempt (d # delays) batch tbl =
     (case flush_batch coll lossy (envs attempt) batch tbl of
        (Inr _, batch', tbl') \<Rightarrow> (True, batch', tbl', 0)
      | (Inl _, batch', tbl') \<Rightarrow>
          (let (ok, batch'', tbl'', slept) =
             retry_attempts coll lossy envs (Suc attempt) delays batch' tbl'
           in (ok, batch'', tbl'', d + slept)))"

definition flush_batch_with_retry ::
  "collation \<Rightarrow> (bytes \<Rightarrow> string) \<Rightarrow> millis list \<Rightarrow> bool \<Rightarrow> flush_world \<Rightarrow> writer \<Rightarrow> writer" where
  "flush_batch_with_retry coll lossy delays dead_letter_tx world w =
     (let (envs, dl_closed) = world;
          (ok, batch, tbl, slept) = retry_attempts coll lossy envs 0 delays (w_batch w) (w_events w);
          w' = w\<lparr>w_batch := batch, w_events := tbl, w_slept := w_slept w + slept\<rparr>
      in if ok then w'
         else (case flush_batch coll lossy (envs (length delays)) batch tbl of
                 (Inr _, batch', tbl') \<Rightarrow> w'\<lparr>w_batch := batch', w_events := tbl'\<rparr>
               | (Inl _, failed, tbl') \<Rightarrow>
                   (let w'' = w'\<lparr>w_batch := [], w_events := tbl'\<rparr>
                    in if dead_letter_tx \<and> \<not> dl_closed then w''\<lparr>w_dead := w_dead w'' @ [failed]\<rparr>
                       else w''\<lparr>w_lost := w_lost w'' @ failed\<rparr>)))"

section \<open>\<open>run_tidb_batch_writer\<close>\<close>

datatype select_input = Recv pending_event flush_world | Tick flush_world

definition flush_if_pending ::
  "collation \<Rightarrow> (bytes \<Rightarrow> string) \<Rightarrow> millis list \<Rightarrow> bool \<Rightarrow> flush_world \<Rightarrow> writer \<Rightarrow> writer" where
  "flush_if_pending coll lossy delays dead_letter_tx world w =
     (if w_batch w \<noteq> [] then flush_batch_with_retry coll lossy delays dead_letter_tx world w else w)"

fun writer_select ::
  "collation \<Rightarrow> (bytes \<Rightarrow> string) \<Rightarrow> millis list \<Rightarrow> bool \<Rightarrow> skialith_config \<Rightarrow> select_input \<Rightarrow> writer \<Rightarrow> writer"
where
  "writer_select coll lossy delays dl cfg (Recv ev world) w =
     (let w' = w\<lparr>w_batch := w_batch w @ [ev]\<rparr>
      in if max_batch_size cfg \<le> length (w_batch w')
         then flush_batch_with_retry coll lossy delays dl world w' else w')"
| "writer_select coll lossy delays dl cfg (Tick world) w = flush_if_pending coll lossy delays dl world w"

definition writer_init :: "event_row list \<Rightarrow> writer" where
  "writer_init tbl = \<lparr>w_batch = [], w_events = tbl, w_dead = [], w_lost = [], w_slept = 0\<rparr>"

text \<open>
  The loop over what \<open>select!\<close> has yielded so far; \<open>closing\<close> is the world of the last flush once
  \<open>recv\<close> has returned \<open>None\<close>, which ends the loop.  Before it starts, \<open>tokio::time::interval\<close> panics on
  a period of zero: the task is then gone (\<open>None\<close>), and with it the receiver.
\<close>

definition writer_loop ::
  "collation \<Rightarrow> (bytes \<Rightarrow> string) \<Rightarrow> millis list \<Rightarrow> bool \<Rightarrow> skialith_config
     \<Rightarrow> select_input list \<Rightarrow> flush_world option \<Rightarrow> writer \<Rightarrow> writer" where
  "writer_loop coll lossy delays dl cfg inputs closing w0 =
     (let w = fold (writer_select coll lossy delays dl cfg) inputs w0
      in (case closing of None \<Rightarrow> w | Some world \<Rightarrow> flush_if_pending coll lossy delays dl world w))"

definition ticker_panics :: "skialith_config \<Rightarrow> bool" where
  "ticker_panics cfg \<longleftrightarrow> max_batch_linger cfg = 0"

definition run_tidb_batch_writer ::
  "collation \<Rightarrow> (bytes \<Rightarrow> string) \<Rightarrow> millis list \<Rightarrow> bool \<Rightarrow> skialith_config
     \<Rightarrow> select_input list \<Rightarrow> flush_world option \<Rightarrow> event_row list \<Rightarrow> writer option" where
  "run_tidb_batch_writer coll lossy delays dl cfg inputs closing tbl =
     (if ticker_panics cfg then None
      else Some (writer_loop coll lossy delays dl cfg inputs closing (writer_init tbl)))"

section \<open>One attempt\<close>

text \<open>An attempt commits the batch and empties it, or fails and keeps it.\<close>

lemma flush_batch_cases:
  obtains (committed) "flush_batch coll lossy env batch tbl = (Inr (), [], tbl @ push_values lossy batch)"
      "batch \<noteq> []" "events_unique coll (tbl @ push_values lossy batch)" "env = no_faults"
  | (failed) e where "flush_batch coll lossy env batch tbl = (Inl e, batch, tbl)"
  | (unclear) e where "flush_batch coll lossy env batch tbl = (Inl e, batch, tbl @ push_values lossy batch)"
      "batch \<noteq> []" "events_unique coll (tbl @ push_values lossy batch)" "fe_commit env = Some (e, True)"
proof (cases "fe_begin env = None \<and> fe_execute env = None \<and> batch \<noteq> []
    \<and> events_unique coll (tbl @ push_values lossy batch)")
  case True
  then have inserted: "sql_insert_events coll (push_values lossy batch) tbl = Inr (tbl @ push_values lossy batch)"
    by (simp add: sql_insert_events_def push_values_def)
  show ?thesis
  proof (cases "fe_commit env")
    case None
    with True inserted show ?thesis
      by (intro committed) (simp_all add: flush_batch_def no_faults_def)
  next
    case (Some ea)
    obtain e applied where ea: "ea = (e, applied)" by fastforce
    show ?thesis
    proof (cases applied)
      case True
      with Some ea inserted \<open>fe_begin env = None \<and> _\<close> show ?thesis
        by (intro unclear [of e]) (simp_all add: flush_batch_def)
    next
      case False
      with Some ea inserted \<open>fe_begin env = None \<and> _\<close> show ?thesis
        by (intro failed [of e]) (simp add: flush_batch_def)
    qed
  qed
next
  case False
  then have "\<exists>e. flush_batch coll lossy env batch tbl = (Inl e, batch, tbl)"
    by (auto simp: flush_batch_def sql_insert_events_def push_values_def split: option.splits)
  with failed show ?thesis by blast
qed

lemma flush_batch_clean:
  "batch \<noteq> [] \<Longrightarrow> events_unique coll (tbl @ push_values lossy batch) \<Longrightarrow>
     flush_batch coll lossy no_faults batch tbl = (Inr (), [], tbl @ push_values lossy batch)"
  by (simp add: flush_batch_def sql_insert_events_def no_faults_def push_values_def)

lemma flush_batch_duplicate:
  "\<not> events_unique coll (tbl @ push_values lossy batch) \<Longrightarrow>
     \<exists>e. flush_batch coll lossy env batch tbl = (Inl e, batch, tbl)"
  by (cases rule: flush_batch_cases [of coll lossy env batch tbl]) auto

lemma push_values_simps [simp]:
  "push_values lossy [] = []"
  "push_values lossy (ev # evs) = row_of_event lossy ev # push_values lossy evs"
  "push_values lossy (evs @ evs') = push_values lossy evs @ push_values lossy evs'"
  "length (push_values lossy evs) = length evs"
  "push_values lossy evs = [] \<longleftrightarrow> evs = []"
  by (simp_all add: push_values_def)

lemma events_unique_twice:
  "batch \<noteq> [] \<Longrightarrow> \<not> events_unique coll ((tbl @ push_values lossy batch) @ push_values lossy batch)"
  by (cases batch) (auto simp: events_unique_def)

lemma events_unique_prefix: "events_unique coll (tbl @ rows) \<Longrightarrow> events_unique coll tbl"
  by (simp add: events_unique_def)

section \<open>All attempts\<close>

lemma retry_attempts_stuck:
  "\<not> events_unique coll (tbl @ push_values lossy batch) \<Longrightarrow>
     retry_attempts coll lossy envs i delays batch tbl = (False, batch, tbl, sum_list delays)"
proof (induction delays arbitrary: i)
  case (Cons d delays)
  with flush_batch_duplicate [OF Cons.prems, of "envs i"] show ?case by auto
qed simp

lemma retry_attempts_cases:
  obtains (stored) slept where
      "retry_attempts coll lossy envs i delays batch tbl = (True, [], tbl @ push_values lossy batch, slept)"
      "batch \<noteq> []" "events_unique coll (tbl @ push_values lossy batch)" "slept \<le> sum_list delays"
  | (failed) "retry_attempts coll lossy envs i delays batch tbl = (False, batch, tbl, sum_list delays)"
  | (unclear) "retry_attempts coll lossy envs i delays batch tbl
        = (False, batch, tbl @ push_values lossy batch, sum_list delays)"
      "batch \<noteq> []" "events_unique coll (tbl @ push_values lossy batch)"
proof (induction delays arbitrary: i thesis)
  case Nil
  then show ?case by simp
next
  case (Cons d delays)
  show ?case
  proof (cases rule: flush_batch_cases [of coll lossy "envs i" batch tbl])
    case committed
    then show ?thesis by (intro Cons.prems(1) [of 0]) simp_all
  next
    case first: (failed e)
    show ?thesis
    proof (rule Cons.IH [of "Suc i"])
      fix slept
      assume "retry_attempts coll lossy envs (Suc i) delays batch tbl
          = (True, [], tbl @ push_values lossy batch, slept)" "batch \<noteq> []"
        "events_unique coll (tbl @ push_values lossy batch)" "slept \<le> sum_list delays"
      with first show thesis by (intro Cons.prems(1) [of "d + slept"]) simp_all
    next
      assume "retry_attempts coll lossy envs (Suc i) delays batch tbl = (False, batch, tbl, sum_list delays)"
      with first show thesis by (intro Cons.prems(2)) simp
    next
      assume "retry_attempts coll lossy envs (Suc i) delays batch tbl
          = (False, batch, tbl @ push_values lossy batch, sum_list delays)" "batch \<noteq> []"
        "events_unique coll (tbl @ push_values lossy batch)"
      with first show thesis by (intro Cons.prems(3)) simp_all
    qed
  next
    case last: (unclear e)
    then have "retry_attempts coll lossy envs (Suc i) delays batch (tbl @ push_values lossy batch)
        = (False, batch, tbl @ push_values lossy batch, sum_list delays)"
      by (intro retry_attempts_stuck events_unique_twice) simp
    with last show ?thesis by (intro Cons.prems(3)) simp_all
  qed
qed

text \<open>
  A flush settles the batch: it is stored behind the table, or, all attempts failing, given up to the
  dead-letter channel or the log; it may then have been stored all the same.
\<close>

definition given_up :: "bool \<Rightarrow> bool \<Rightarrow> writer \<Rightarrow> event_row list \<Rightarrow> millis \<Rightarrow> writer" where
  "given_up dead_letter_tx dl_closed w tbl slept =
     w\<lparr>w_batch := [], w_events := tbl, w_slept := w_slept w + slept,
       w_dead := w_dead w @ (if dead_letter_tx \<and> \<not> dl_closed then [w_batch w] else []),
       w_lost := w_lost w @ (if dead_letter_tx \<and> \<not> dl_closed then [] else w_batch w)\<rparr>"

definition stored_all :: "(bytes \<Rightarrow> string) \<Rightarrow> writer \<Rightarrow> millis \<Rightarrow> writer" where
  "stored_all lossy w slept =
     w\<lparr>w_batch := [], w_events := w_events w @ push_values lossy (w_batch w), w_slept := w_slept w + slept\<rparr>"

lemma flush_settles:
  obtains (stored) slept where
      "flush_batch_with_retry coll lossy delays dl world w = stored_all lossy w slept"
      "w_batch w \<noteq> []" "events_unique coll (w_events w @ push_values lossy (w_batch w))"
      "slept \<le> sum_list delays"
  | (failed) "flush_batch_with_retry coll lossy delays dl world w
        = given_up dl (snd world) w (w_events w) (sum_list delays)"
  | (unclear) "flush_batch_with_retry coll lossy delays dl world w
        = given_up dl (snd world) w (w_events w @ push_values lossy (w_batch w)) (sum_list delays)"
      "w_batch w \<noteq> []" "events_unique coll (w_events w @ push_values lossy (w_batch w))"
proof -
  obtain envs closed where world: "world = (envs, closed)" by fastforce
  let ?last = "envs (length delays)"
  show ?thesis
  proof (cases rule: retry_attempts_cases [of coll lossy envs 0 delays "w_batch w" "w_events w"])
    case attempts: (stored slept)
    then show ?thesis
      by (intro stored [of slept]) (simp_all add: flush_batch_with_retry_def world stored_all_def)
  next
    case attempts: failed
    show ?thesis
    proof (cases rule: flush_batch_cases [of coll lossy ?last "w_batch w" "w_events w"])
      case last: committed
      with attempts last show ?thesis
        by (intro stored [of "sum_list delays"])
           (simp_all add: flush_batch_with_retry_def world stored_all_def)
    next
      case last: (failed e)
      with attempts last show ?thesis
        by (intro failed) (auto simp: flush_batch_with_retry_def world given_up_def Let_def)
    next
      case last: (unclear e)
      with attempts last show ?thesis
        by (intro unclear) (auto simp: flush_batch_with_retry_def world given_up_def Let_def)
    qed
  next
    case attempts: unclear
    then obtain e where "flush_batch coll lossy ?last (w_batch w) (w_events w @ push_values lossy (w_batch w))
        = (Inl e, w_batch w, w_events w @ push_values lossy (w_batch w))"
      using flush_batch_duplicate [OF events_unique_twice] by blast
    with attempts show ?thesis
      by (intro unclear) (auto simp: flush_batch_with_retry_def world given_up_def Let_def)
  qed
qed

section \<open>Nothing vanishes\<close>

definition booked :: "(bytes \<Rightarrow> string) \<Rightarrow> writer \<Rightarrow> event_row multiset" where
  "booked lossy w = mset (w_events w)
     + mset (push_values lossy (concat (w_dead w) @ w_lost w @ w_batch w))"

fun received :: "select_input list \<Rightarrow> pending_event list" where
  "received [] = []"
| "received (Recv ev _ # inputs) = ev # received inputs"
| "received (Tick _ # inputs) = received inputs"

definition inflow :: "(bytes \<Rightarrow> string) \<Rightarrow> select_input \<Rightarrow> event_row list" where
  "inflow lossy i = push_values lossy (received [i])"

lemma concat_inflow: "concat (map (inflow lossy) inputs) = push_values lossy (received inputs)"
  by (induction inputs rule: received.induct) (simp_all add: inflow_def)

lemma booked_stored_all: "booked lossy (stored_all lossy w slept) = booked lossy w"
  by (simp add: booked_def stored_all_def)

lemma booked_given_up:
  "mset (w_events w) \<subseteq># mset tbl \<Longrightarrow> booked lossy w \<subseteq># booked lossy (given_up dl closed w tbl slept)"
  by (auto simp: booked_def given_up_def intro: subset_mset.add_right_mono)

lemma flush_books: "booked lossy w \<subseteq># booked lossy (flush_batch_with_retry coll lossy delays dl world w)"
  by (cases rule: flush_settles [of coll lossy delays dl world w])
     (simp_all add: booked_stored_all booked_given_up)

lemma flush_empties: "w_batch (flush_batch_with_retry coll lossy delays dl world w) = []"
  by (cases rule: flush_settles [of coll lossy delays dl world w])
     (simp_all add: stored_all_def given_up_def)

lemma flush_if_pending_empties: "w_batch (flush_if_pending coll lossy delays dl world w) = []"
  by (simp add: flush_if_pending_def flush_empties)

lemma flush_if_pending_books: "booked lossy w \<subseteq># booked lossy (flush_if_pending coll lossy delays dl world w)"
  by (simp add: flush_if_pending_def flush_books)

lemma booked_push: "booked lossy (w\<lparr>w_batch := w_batch w @ [ev]\<rparr>) = booked lossy w + {#row_of_event lossy ev#}"
  by (simp add: booked_def)

lemma writer_select_books:
  "booked lossy w + mset (inflow lossy i) \<subseteq># booked lossy (writer_select coll lossy delays dl cfg i w)"
proof (cases i)
  case (Recv ev world)
  let ?w = "w\<lparr>w_batch := w_batch w @ [ev]\<rparr>"
  have "booked lossy w + mset (inflow lossy i) = booked lossy ?w"
    by (simp add: Recv inflow_def booked_push)
  also have "\<dots> \<subseteq># booked lossy (writer_select coll lossy delays dl cfg i w)"
    by (simp add: Recv Let_def flush_books)
  finally show ?thesis .
next
  case (Tick world)
  then show ?thesis by (simp add: inflow_def flush_if_pending_books)
qed

interpretation writer: ledger "writer_select coll lossy delays dl cfg" "inflow lossy" "booked lossy"
  for coll lossy delays dl cfg
  by unfold_locales (rule writer_select_books)

text \<open>
  C9.  No event vanishes: whatever the database and the dead-letter channel do, every event the loop
  has received, with its multiplicity, is a row of \<open>agent_events\<close>, or in a dead-letter message, or
  logged as lost, or still in the batch, and so is every row there was before; once the loop has ended
  nothing is left in the batch.  (With a linger of zero the task has panicked before receiving any.)
\<close>

theorem writer_loses_nothing:
  "case run_tidb_batch_writer coll lossy delays dl cfg inputs closing tbl of
     None \<Rightarrow> max_batch_linger cfg = 0
   | Some w \<Rightarrow> mset tbl + mset (push_values lossy (received inputs))
        \<subseteq># mset (w_events w) + mset (push_values lossy (concat (w_dead w) @ w_lost w @ w_batch w))
      \<and> (closing = None \<or> w_batch w = [])"
proof -
  let ?before = "fold (writer_select coll lossy delays dl cfg) inputs (writer_init tbl)"
  let ?w = "writer_loop coll lossy delays dl cfg inputs closing (writer_init tbl)"
  have "booked lossy (writer_init tbl) = mset tbl" by (simp add: booked_def writer_init_def)
  then have "mset tbl + mset (push_values lossy (received inputs)) \<subseteq># booked lossy ?before"
    using writer.run_books [of lossy "writer_init tbl" inputs coll delays dl cfg]
    by (simp add: concat_inflow)
  moreover have "booked lossy ?before \<subseteq># booked lossy ?w"
    by (cases closing) (simp_all add: writer_loop_def flush_if_pending_books)
  ultimately have "mset tbl + mset (push_values lossy (received inputs)) \<subseteq># booked lossy ?w"
    by (rule subset_mset.order_trans)
  moreover have "closing = None \<or> w_batch ?w = []"
    by (cases closing) (simp_all add: writer_loop_def flush_if_pending_empties)
  ultimately show ?thesis
    by (simp add: booked_def run_tidb_batch_writer_def ticker_panics_def)
qed

section \<open>A database that comes back in time\<close>

text \<open>
  One of the attempts of a flush meets no fault, and no attempt before it hid a commit that took place.
\<close>

definition goes_through :: "millis list \<Rightarrow> flush_world \<Rightarrow> bool" where
  "goes_through delays world \<longleftrightarrow>
     (\<exists>k \<le> length delays. fst world k = no_faults
        \<and> (\<forall>j < k. case fe_commit (fst world j) of Some (e, applied) \<Rightarrow> \<not> applied | None \<Rightarrow> True))"

fun input_world :: "select_input \<Rightarrow> flush_world" where
  "input_world (Recv ev world) = world"
| "input_world (Tick world) = world"

lemma retry_attempts_goes:
  assumes "batch \<noteq> []" and "events_unique coll (tbl @ push_values lossy batch)"
    and "k \<le> length delays" and "envs (i + k) = no_faults"
    and "\<forall>j < k. case fe_commit (envs (i + j)) of Some (e, applied) \<Rightarrow> \<not> applied | None \<Rightarrow> True"
  shows "(\<exists>slept. retry_attempts coll lossy envs i delays batch tbl
            = (True, [], tbl @ push_values lossy batch, slept))
    \<or> (k = length delays
        \<and> retry_attempts coll lossy envs i delays batch tbl = (False, batch, tbl, sum_list delays))"
  using assms(3-5)
proof (induction delays arbitrary: i k)
  case Nil
  then show ?case by simp
next
  case (Cons d delays)
  show ?case
  proof (cases k)
    case 0
    with Cons.prems flush_batch_clean [OF assms(1,2)] show ?thesis by simp
  next
    case (Suc k')
    have next_ones: "\<forall>j < k'. case fe_commit (envs (Suc i + j)) of Some (e, applied) \<Rightarrow> \<not> applied | None \<Rightarrow> True"
      using Cons.prems(3) Suc by (metis Suc_less_eq add_Suc_right add_Suc_shift)
    have "k' \<le> length delays" and "envs (Suc i + k') = no_faults"
      using Cons.prems(1,2) Suc by simp_all
    note IH = Cons.IH [OF this next_ones]
    show ?thesis
    proof (cases rule: flush_batch_cases [of coll lossy "envs i" batch tbl])
      case committed
      then show ?thesis by simp
    next
      case (failed e)
      with IH Suc show ?thesis by auto
    next
      case (unclear e)
      with Cons.prems(3) Suc have False by (auto dest: spec [of _ 0])
      then show ?thesis ..
    qed
  qed
qed

lemma flush_goes_through:
  assumes "w_batch w \<noteq> []" and "events_unique coll (w_events w @ push_values lossy (w_batch w))"
    and "goes_through delays world"
  shows "\<exists>slept. flush_batch_with_retry coll lossy delays dl world w = stored_all lossy w slept"
proof -
  obtain envs closed where world: "world = (envs, closed)" by fastforce
  from assms(3) obtain k where k: "k \<le> length delays" "envs (0 + k) = no_faults"
      "\<forall>j < k. case fe_commit (envs (0 + j)) of Some (e, applied) \<Rightarrow> \<not> applied | None \<Rightarrow> True"
    by (auto simp: goes_through_def world)
  from retry_attempts_goes [OF assms(1,2) k] flush_batch_clean [OF assms(1,2)] k(2) show ?thesis
    by (cases w) (auto simp: flush_batch_with_retry_def world stored_all_def)
qed

text \<open>What the writer has stored and what it still holds are, in order, what it has received.\<close>

definition in_step :: "(bytes \<Rightarrow> string) \<Rightarrow> event_row list \<Rightarrow> writer \<Rightarrow> bool" where
  "in_step lossy log w \<longleftrightarrow> w_events w @ push_values lossy (w_batch w) = log \<and> w_dead w = [] \<and> w_lost w = []"

lemma in_step_flush:
  assumes "in_step lossy log w" and "events_unique coll log" and "goes_through delays world"
    and "w_batch w \<noteq> []"
  shows "in_step lossy log (flush_batch_with_retry coll lossy delays dl world w)"
  using flush_goes_through [OF assms(4) _ assms(3), of coll lossy dl] assms(1,2)
  by (auto simp: in_step_def stored_all_def)

lemma in_step_flush_if_pending:
  "in_step lossy log w \<Longrightarrow> events_unique coll log \<Longrightarrow> goes_through delays world
     \<Longrightarrow> in_step lossy log (flush_if_pending coll lossy delays dl world w)"
  by (simp add: flush_if_pending_def in_step_flush)

lemma in_step_select:
  assumes "in_step lossy log w" and "events_unique coll (log @ push_values lossy (received [i]))"
    and "goes_through delays (input_world i)"
  shows "in_step lossy (log @ push_values lossy (received [i])) (writer_select coll lossy delays dl cfg i w)"
proof (cases i)
  case (Recv ev world)
  let ?w = "w\<lparr>w_batch := w_batch w @ [ev]\<rparr>"
  have "in_step lossy (log @ push_values lossy (received [i])) ?w"
    using assms(1) by (auto simp: in_step_def Recv)
  then show ?thesis
    using in_step_flush [of lossy _ ?w coll delays world dl] assms(2,3) by (simp add: Recv Let_def)
next
  case (Tick world)
  with assms show ?thesis by (simp add: in_step_flush_if_pending)
qed

lemma received_Cons: "received (i # inputs) = received [i] @ received inputs"
  by (cases i) simp_all

lemma in_step_run:
  assumes "in_step lossy log w" and "events_unique coll (log @ push_values lossy (received inputs))"
    and "list_all (\<lambda>i. goes_through delays (input_world i)) inputs"
  shows "in_step lossy (log @ push_values lossy (received inputs))
    (fold (writer_select coll lossy delays dl cfg) inputs w)"
  using assms
proof (induction inputs arbitrary: log w)
  case (Cons i inputs)
  let ?log = "log @ push_values lossy (received [i])"
  have split: "log @ push_values lossy (received (i # inputs)) = ?log @ push_values lossy (received inputs)"
    by (simp add: received_Cons [of i inputs])
  have unique: "events_unique coll (?log @ push_values lossy (received inputs))"
    using Cons.prems(2) by (simp only: split)
  have "in_step lossy ?log (writer_select coll lossy delays dl cfg i w)"
    using Cons.prems(1,3) events_unique_prefix [OF unique] by (intro in_step_select) simp_all
  from Cons.IH [OF this unique] Cons.prems(3) show ?case by (simp add: split)
qed simp

text \<open>
  C20.  The writer is an append-only log as long as every flush goes through within its attempts and no
  two events share a key: when it ends, the table is the rows there were before followed by the rows
  of all events received, each once and in the order of receipt, and nothing was given up.
\<close>

theorem writer_appends_in_order:
  assumes "events_unique coll (tbl @ push_values lossy (received inputs))"
    and "list_all (\<lambda>i. goes_through delays (input_world i)) inputs"
    and "goes_through delays world" and "max_batch_linger cfg \<noteq> 0"
  shows "\<exists>slept. run_tidb_batch_writer coll lossy delays dl cfg inputs (Some world) tbl
    = Some \<lparr>w_batch = [], w_events = tbl @ push_values lossy (received inputs), w_dead = [], w_lost = [],
       w_slept = slept\<rparr>"
proof -
  let ?w = "fold (writer_select coll lossy delays dl cfg) inputs (writer_init tbl)"
  have "in_step lossy tbl (writer_init tbl)" by (simp add: in_step_def writer_init_def)
  from in_step_run [OF this assms(1,2)]
  have "in_step lossy (tbl @ push_values lossy (received inputs)) ?w" .
  then have "in_step lossy (tbl @ push_values lossy (received inputs))
      (flush_if_pending coll lossy delays dl world ?w)"
    using assms(1,3) by (rule in_step_flush_if_pending)
  with flush_if_pending_empties [of coll lossy delays dl world ?w] show ?thesis
    by (intro exI [of _ "w_slept (flush_if_pending coll lossy delays dl world ?w)"])
       (simp add: run_tidb_batch_writer_def ticker_panics_def assms(4) writer_loop_def in_step_def Let_def)
qed

definition demo_event :: "string \<Rightarrow> string \<Rightarrow> pending_event" where
  "demo_event a e = \<lparr>pe_agent_id = a, pe_event_id = e, pe_payload_json = ''{}''\<rparr>"

definition demo_row_of :: "string \<Rightarrow> string \<Rightarrow> event_row" where
  "demo_row_of a e = \<lparr>er_agent_id = a, er_event_id = e, er_payload_json = ''{}''\<rparr>"

definition quiet :: flush_world where
  "quiet = (\<lambda>_. no_faults, False)"

text \<open>A database that is down for the first attempts of a flush.\<close>

definition down_for :: "nat \<Rightarrow> flush_world" where
  "down_for n = (\<lambda>k. if k < n then no_faults\<lparr>fe_begin := Some (Sqlx_Other ''pool timed out'')\<rparr>
     else no_faults, False)"

lemma demo_row_of_event [simp]: "row_of_event id (demo_event a e) = demo_row_of a e"
  by (simp add: row_of_event_def demo_event_def demo_row_of_def)

lemma demo_key [simp]: "uq_agent_event id (demo_row_of a e) = (a, e)"
  by (simp add: uq_agent_event_def demo_row_of_def)

lemma quiet_goes_through [simp]: "goes_through delays quiet"
  by (auto simp: goes_through_def quiet_def)

lemma down_goes_through: "n \<le> length delays \<Longrightarrow> goes_through delays (down_for n)"
  by (auto simp: goes_through_def down_for_def no_faults_def intro!: exI [of _ n])

theorem writer_appends_in_order_witness:
  "\<exists>slept. run_tidb_batch_writer id id [200, 20000] False \<lparr>max_batch_size = 2, max_batch_linger = 250,
       channel_capacity = 10\<rparr>
     [Recv (demo_event ''a'' ''1'') quiet, Recv (demo_event ''a'' ''2'') (down_for 2), Tick quiet,
      Recv (demo_event ''b'' ''1'') quiet] (Some quiet) []
   = Some \<lparr>w_batch = [], w_events = [demo_row_of ''a'' ''1'', demo_row_of ''a'' ''2'', demo_row_of ''b'' ''1''],
      w_dead = [], w_lost = [], w_slept = slept\<rparr>"
proof -
  let ?inputs = "[Recv (demo_event ''a'' ''1'') quiet, Recv (demo_event ''a'' ''2'') (down_for 2),
    Tick quiet, Recv (demo_event ''b'' ''1'') quiet]"
  have "events_unique id ([] @ push_values id (received ?inputs))"
    by (simp add: events_unique_def)
  moreover have "list_all (\<lambda>i. goes_through [200, 20000] (input_world i)) ?inputs"
    by (simp add: down_goes_through)
  ultimately show ?thesis
    using writer_appends_in_order [of id "[]" id ?inputs "[200, 20000]" quiet
      "\<lparr>max_batch_size = 2, max_batch_linger = 250, channel_capacity = 10\<rparr>" False] by simp
qed

section \<open>A batch with a duplicate\<close>

lemma flush_duplicate:
  assumes "\<not> events_unique coll (w_events w @ push_values lossy (w_batch w))"
  shows "flush_batch_with_retry coll lossy delays dl (envs, closed) w
    = given_up dl closed w (w_events w) (sum_list delays)"
  using retry_attempts_stuck [OF assms, of envs 0 delays]
    flush_batch_duplicate [OF assms, of "envs (length delays)"]
  by (auto simp: flush_batch_with_retry_def given_up_def)

text \<open>
  One duplicate poisons its batch: if two events of a batch share a key, or one of them has the
  key of a stored row, then no attempt can store any of it, whatever the database does; after all the
  delays have been slept through, the whole batch, its new events included, goes to the dead-letter
  channel if there is an open one and is logged as lost otherwise.
\<close>

theorem duplicate_poisons_batch:
  assumes "\<not> events_unique coll (w_events w @ push_values lossy (w_batch w))"
  shows "flush_batch_with_retry coll lossy delays dl (envs, closed) w =
    w\<lparr>w_batch := [], w_slept := w_slept w + sum_list delays,
      w_dead := w_dead w @ (if dl \<and> \<not> closed then [w_batch w] else []),
      w_lost := w_lost w @ (if dl \<and> \<not> closed then [] else w_batch w)\<rparr>"
  using flush_duplicate [OF assms] by (simp add: given_up_def)

theorem duplicate_poisons_batch_witness:
  "w_lost (flush_batch_with_retry id id [200, 20000, 2000000] False quiet
      ((writer_init [demo_row_of ''a'' ''1''])
        \<lparr>w_batch := [demo_event ''b'' ''7'', demo_event ''a'' ''1'']\<rparr>))
    = [demo_event ''b'' ''7'', demo_event ''a'' ''1'']"
proof -
  let ?w = "(writer_init [demo_row_of ''a'' ''1''])
    \<lparr>w_batch := [demo_event ''b'' ''7'', demo_event ''a'' ''1'']\<rparr>"
  have "\<not> events_unique id (w_events ?w @ push_values id (w_batch ?w))"
    by (simp add: events_unique_def writer_init_def)
  from duplicate_poisons_batch [OF this, of "[200, 20000, 2000000]" False "\<lambda>_. no_faults" False]
  show ?thesis by (simp add: quiet_def writer_init_def)
qed

text \<open>
  A commit whose answer is lost is reported as a loss: the rows are in the table, every further
  attempt then fails on their own keys, and the same events are given up as if they were not.
\<close>

theorem lost_commit_answer_given_up:
  assumes "w_batch w \<noteq> []" and "events_unique coll (w_events w @ push_values lossy (w_batch w))"
    and "envs 0 = no_faults\<lparr>fe_commit := Some (e, True)\<rparr>" and "delays \<noteq> []"
  shows "flush_batch_with_retry coll lossy delays dl (envs, closed) w =
    w\<lparr>w_batch := [], w_events := w_events w @ push_values lossy (w_batch w),
      w_slept := w_slept w + sum_list delays,
      w_dead := w_dead w @ (if dl \<and> \<not> closed then [w_batch w] else []),
      w_lost := w_lost w @ (if dl \<and> \<not> closed then [] else w_batch w)\<rparr>"
proof -
  obtain d ds where delays: "delays = d # ds" using assms(4) by (cases delays) auto
  let ?tbl = "w_events w @ push_values lossy (w_batch w)"
  have dup: "\<not> events_unique coll (?tbl @ push_values lossy (w_batch w))"
    using assms(1) by (rule events_unique_twice)
  have "flush_batch coll lossy (envs 0) (w_batch w) (w_events w) = (Inl e, w_batch w, ?tbl)"
    using assms(1-3) by (simp add: flush_batch_def no_faults_def sql_insert_events_def)
  with retry_attempts_stuck [OF dup, of envs 1 ds] flush_batch_duplicate [OF dup, of "envs (length delays)"]
  show ?thesis by (auto simp: flush_batch_with_retry_def delays)
qed

theorem lost_commit_answer_given_up_witness:
  "let w' = flush_batch_with_retry id id [200] False
        (\<lambda>k. no_faults\<lparr>fe_commit := Some (Sqlx_Other ''connection lost'', True)\<rparr>, False)
        ((writer_init [])\<lparr>w_batch := [demo_event ''a'' ''1'']\<rparr>)
   in w_events w' = [demo_row_of ''a'' ''1''] \<and> w_lost w' = [demo_event ''a'' ''1'']"
proof -
  let ?w = "(writer_init [])\<lparr>w_batch := [demo_event ''a'' ''1'']\<rparr>"
  let ?envs = "\<lambda>k :: nat. no_faults\<lparr>fe_commit := Some (Sqlx_Other ''connection lost'', True)\<rparr>"
  have "w_batch ?w \<noteq> []" and "events_unique id (w_events ?w @ push_values id (w_batch ?w))"
    by (simp_all add: events_unique_def writer_init_def)
  from lost_commit_answer_given_up [OF this, of ?envs "Sqlx_Other ''connection lost''" "[200]" False False]
  show ?thesis by (simp add: writer_init_def)
qed

section \<open>Sizes and times\<close>

definition insert_cap :: "skialith_config \<Rightarrow> nat" where
  "insert_cap cfg = max 1 (max_batch_size cfg)"

definition writer_bounded :: "skialith_config \<Rightarrow> writer \<Rightarrow> bool" where
  "writer_bounded cfg w \<longleftrightarrow> length (w_batch w) < insert_cap cfg
     \<and> list_all (\<lambda>b. length b \<le> insert_cap cfg) (w_dead w)"

lemma flush_bounded:
  assumes "length (w_batch w) \<le> insert_cap cfg" and "list_all (\<lambda>b. length b \<le> insert_cap cfg) (w_dead w)"
    and "flush_batch_with_retry coll lossy delays dl world w = w'"
  shows "writer_bounded cfg w' \<and> length (w_events w') \<le> length (w_events w) + insert_cap cfg"
  using assms
  by (cases rule: flush_settles [of coll lossy delays dl world w])
     (auto simp: writer_bounded_def stored_all_def given_up_def insert_cap_def)

lemma writer_select_bounded:
  assumes "writer_bounded cfg w"
  shows "writer_bounded cfg (writer_select coll lossy delays dl cfg i w)
    \<and> length (w_events (writer_select coll lossy delays dl cfg i w)) \<le> length (w_events w) + insert_cap cfg"
proof (cases i)
  case (Recv ev world)
  let ?w = "w\<lparr>w_batch := w_batch w @ [ev]\<rparr>"
  have "length (w_batch ?w) \<le> insert_cap cfg" and "list_all (\<lambda>b. length b \<le> insert_cap cfg) (w_dead ?w)"
    using assms(1) by (simp_all add: writer_bounded_def)
  from flush_bounded [OF this refl, of coll lossy delays dl world] assms(1) show ?thesis
    by (auto simp: Recv Let_def writer_bounded_def insert_cap_def)
next
  case (Tick world)
  from assms(1) have "length (w_batch w) \<le> insert_cap cfg"
    and "list_all (\<lambda>b. length b \<le> insert_cap cfg) (w_dead w)"
    by (simp_all add: writer_bounded_def)
  from flush_bounded [OF this refl, of coll lossy delays dl world] assms(1) show ?thesis
    by (simp add: Tick flush_if_pending_def)
qed

lemma writer_run_bounded:
  "writer_bounded cfg w \<Longrightarrow> writer_bounded cfg (fold (writer_select coll lossy delays dl cfg) inputs w)"
  by (induction inputs arbitrary: w) (simp_all add: writer_select_bounded)

text \<open>
  Inserts stay within the configured size: at every point of a run the batch is below
  \<open>max_batch_size\<close> (taken as at least one), what \<open>select!\<close> yields next adds at most that many rows to
  the table, and no dead-letter message holds more events than that.
\<close>

theorem insert_size_bounded:
  "let w = fold (writer_select coll lossy delays dl cfg) inputs (writer_init tbl);
       w' = writer_select coll lossy delays dl cfg i w
   in length (w_batch w) < max 1 (max_batch_size cfg)
      \<and> length (w_events w') \<le> length (w_events w) + max 1 (max_batch_size cfg)
      \<and> list_all (\<lambda>b. length b \<le> max 1 (max_batch_size cfg)) (w_dead w')"
proof -
  have "writer_bounded cfg (writer_init tbl)"
    by (simp add: writer_bounded_def writer_init_def insert_cap_def)
  then have "writer_bounded cfg (fold (writer_select coll lossy delays dl cfg) inputs (writer_init tbl))"
    by (rule writer_run_bounded)
  from this writer_select_bounded [OF this, of coll lossy delays dl i] show ?thesis
    by (simp add: Let_def writer_bounded_def insert_cap_def)
qed

text \<open>
  C23.  With \<open>tokio_retry\<close>'s documented backoff, whose \<open>n\<close>-th delay is the factor times the \<open>n\<close>-th power
  of the base, the three delays are 200 ms, 20 s and 2000 s: a flush that is given up has kept the
  writer from receiving for 2020.2 seconds, and no flush sleeps longer.
\<close>

theorem backoff_blocks_writer:
  assumes "\<And>base factor n. delay base factor n = factor * base ^ Suc n"
    and "flush_batch_with_retry coll lossy (retry_strategy delay) dl world w = w'"
  shows "retry_strategy delay = [200, 20000, 2000000]
    \<and> w_slept w' \<le> w_slept w + 2020200
    \<and> (w_dead w' = w_dead w \<and> w_lost w' = w_lost w \<or> w_slept w' = w_slept w + 2020200)"
proof -
  have delays: "retry_strategy delay = [200, 20000, 2000000]"
    by (simp add: retry_strategy_def assms(1) numeral_3_eq_3)
  show ?thesis using assms(2)
    by (cases rule: flush_settles [of coll lossy "retry_strategy delay" dl world w])
       (auto simp: delays stored_all_def given_up_def)
qed

theorem backoff_blocks_writer_witness:
  "w_slept (flush_batch_with_retry id id (retry_strategy (\<lambda>base factor n. factor * base ^ Suc n)) False
      (down_for 9) ((writer_init [])\<lparr>w_batch := [demo_event ''a'' ''1'']\<rparr>)) = 2020200"
proof -
  let ?delay = "\<lambda>base factor n :: nat. factor * base ^ Suc n :: nat"
  let ?w = "(writer_init [])\<lparr>w_batch := [demo_event ''a'' ''1'']\<rparr>"
  have spec: "?delay base factor n = factor * base ^ Suc n" for base factor n :: nat by simp
  note blocks = backoff_blocks_writer [where delay = ?delay, OF spec refl, of id id False "down_for 9" ?w]
  from blocks have delays: "retry_strategy ?delay = [200, 20000, 2000000]" by blast
  have "w_lost (flush_batch_with_retry id id [200, 20000, 2000000] False (down_for 9) ?w)
      = [demo_event ''a'' ''1'']"
    by (simp add: flush_batch_with_retry_def flush_batch_def down_for_def writer_init_def no_faults_def)
  with blocks show ?thesis unfolding delays by (simp add: writer_init_def)
qed

end
