(* ===== verification/Event_Store.thy ===== *)
theory Event_Store
  imports License Instance_Lock Trace_Ingest Batch_Writer
begin

text \<open>
  The foreground half of \<open>src/durable_event_store.rs\<close>: building a \<open>SkialithStore\<close> (\<open>new\<close>,
  \<open>with_dead_letter\<close>, \<open>connect\<close>) and \<open>save_event\<close>, which writes an event to JetStream before it queues
  it for the batch writer.  A store is its fields and the writer tasks it has spawned; what its calls
  change (the limiter, JetStream, the queue) is the state that \<open>save_event\<close> passes on.
\<close>

section \<open>Errors\<close>

text \<open>
  \<open>NatsPublish\<close> is never built: both awaits of a publish fail with the \<open>PublishError\<close> of JetStream.
\<close>

datatype skialith_error =
    Serialize
  | NatsConnect string
  | NatsPublish string
  | JetStreamPublish string
  | JetStream string
  | Sqlx sqlx_error
  | QueueClosed
  | Instance_Lock_error string

section \<open>The store\<close>

record writer_task =
  wt_cfg :: skialith_config
  wt_capacity :: nat
  wt_dead_letter :: bool

text \<open>\<open>st_writers\<close> are the spawned writer tasks; \<open>st_enqueue_tx\<close> says which of them is sent to.\<close>

record store =
  st_writers :: "writer_task list"
  st_enqueue_tx :: nat
  st_dead_letter_tx :: bool
  st_rate_limiter :: rate_limiter
  st_rate_limit :: u32
  st_instance_lock :: "heartbeat option"

definition clamp_config :: "bool \<Rightarrow> skialith_config \<Rightarrow> skialith_config" where
  "clamp_config managed cfg = cfg
     \<lparr>max_batch_size := min (max_batch_size cfg) (MAX_BATCH_SIZE managed),
      max_batch_linger := max (max_batch_linger cfg) (MIN_FLUSH_INTERVAL_MS managed)\<rparr>"

text \<open>\<open>None\<close> is the panic of \<open>mpsc::channel(0)\<close>.\<close>

definition store_new :: "bool \<Rightarrow> skialith_config \<Rightarrow> u32 \<Rightarrow> heartbeat option \<Rightarrow> store option" where
  "store_new managed cfg rate_limit instance_lock =
     (let cfg' = clamp_config managed cfg
      in if channel_capacity cfg' = 0 then None
         else Some \<lparr>st_writers = [\<lparr>wt_cfg = cfg', wt_capacity = channel_capacity cfg', wt_dead_letter = False\<rparr>],
                    st_enqueue_tx = 0, st_dead_letter_tx = False,
                    st_rate_limiter = rate_limiter_default, st_rate_limit = rate_limit,
                    st_instance_lock = instance_lock\<rparr>)"

definition with_dead_letter :: "store \<Rightarrow> store" where
  "with_dead_letter st = st
     \<lparr>st_dead_letter_tx := True,
      st_writers := st_writers st @
        [\<lparr>wt_cfg = config_default, wt_capacity = 10000, wt_dead_letter = True\<rparr>],
      st_enqueue_tx := length (st_writers st)\<rparr>"

definition new_unchecked :: "bool \<Rightarrow> skialith_config \<Rightarrow> store option" where
  "new_unchecked managed cfg = store_new managed cfg COMMUNITY_RATE_LIMIT None"

definition active_writer :: "store \<Rightarrow> writer_task" where
  "active_writer st = st_writers st ! st_enqueue_tx st"

section \<open>\<open>connect\<close>\<close>

text \<open>
  What \<open>connect\<close> meets: the variable \<open>SKIALITH_LICENSE_KEY\<close>, the clock when the rate limit and when the
  HA right are asked for, and whether NATS and the database can be reached.
\<close>

record connect_env =
  ce_license_var :: "string option"
  ce_now_rate :: int
  ce_now_ha :: int
  ce_nats :: "string option"
  ce_tidb :: "sqlx_error option"

definition connect ::
  "bool \<Rightarrow> 'k license_crates \<Rightarrow> 'kv kv_api \<Rightarrow> connect_env \<Rightarrow> skialith_config \<Rightarrow> 'kv
     \<Rightarrow> (skialith_error + store) option \<times> 'kv" where
  "connect managed crates api env cfg kv =
     (let enterprise_license = load crates (ce_license_var env);
          rate_limit = effective_rate_limit (ce_now_rate env) enterprise_license;
          ha_allowed = allows_ha (ce_now_ha env) enterprise_license
      in (case ce_nats env of
            Some e \<Rightarrow> (Some (Inl (NatsConnect e)), kv)
          | None \<Rightarrow>
              (case acquire api ha_allowed kv of
                 (Inl e, kv') \<Rightarrow> (Some (Inl (Instance_Lock_error (lock_error_to_string e))), kv')
               | (Inr instance_lock, kv') \<Rightarrow>
                   (case ce_tidb env of
                      Some e \<Rightarrow> (Some (Inl (Sqlx e)), kv')
                    | None \<Rightarrow>
                        (map_option Inr (store_new managed cfg rate_limit (Some instance_lock)), kv')))))"

section \<open>\<open>save_event\<close>\<close>

definition envelope :: "'v json_api \<Rightarrow> string \<Rightarrow> string \<Rightarrow> 'v \<Rightarrow> 'v" where
  "envelope api agent_id event_id payload = jv_object api
     [(''agent_id'', jv_str api agent_id), (''event_id'', jv_str api event_id), (''payload'', payload)]"

text \<open>The channel to the writer: what is queued, its capacity, and whether the receiver still exists.\<close>

record queue =
  q_items :: "pending_event list"
  q_capacity :: nat
  q_open :: bool

record 'js store_io =
  io_limiter :: rate_limiter
  io_js :: 'js
  io_queue :: queue

text \<open>
  Where a call has got to: it still waits for a slot of the rate limit, it waits for room in the queue
  with its event in hand, or it has returned.
\<close>

datatype save_call = Rate_limited | Awaiting_room pending_event | Done "skialith_error + unit"

definition enqueue :: "pending_event \<Rightarrow> 'js store_io \<Rightarrow> save_call \<times> 'js store_io" where
  "enqueue pending io =
     (let q = io_queue io
      in if \<not> q_open q then (Done (Inl QueueClosed), io)
         else if length (q_items q) < q_capacity q
         then (Done (Inr ()), io\<lparr>io_queue := q\<lparr>q_items := q_items q @ [pending]\<rparr>\<rparr>)
         else (Awaiting_room pending, io))"

definition save_event ::
  "'v json_api \<Rightarrow> 'js publish \<Rightarrow> u32 \<Rightarrow> nat \<Rightarrow> (nat \<Rightarrow> int) \<Rightarrow> string \<Rightarrow> string \<Rightarrow> 'v \<Rightarrow> 'js store_io
     \<Rightarrow> save_call \<times> 'js store_io" where
  "save_event api publish rate_limit fuel clock agent_id event_id payload io =
     (case wait_alone rate_limit fuel clock (io_limiter io) of
        None \<Rightarrow> (Rate_limited, io)
      | Some limiter' \<Rightarrow>
          (let io1 = io\<lparr>io_limiter := limiter'\<rparr>
           in (case to_vec api (envelope api agent_id event_id payload) of
                 None \<Rightarrow> (Done (Inl Serialize), io1)
               | Some payload_json \<Rightarrow>
                   (let (r, js') = publish (io_js io1) \<lparr>msg_subject = trace_subject agent_id,
                                     msg_headers = [], msg_payload = payload_json\<rparr>;
                        io2 = io1\<lparr>io_js := js'\<rparr>
                    in (case published r of
                          Inl e \<Rightarrow> (Done (Inl (JetStreamPublish e)), io2)
                        | Inr _ \<Rightarrow>
                            enqueue \<lparr>pe_agent_id = agent_id, pe_event_id = event_id,
                                     pe_payload_json = payload_json\<rparr> io2)))))"

definition ensure_stream ::
  "(string \<Rightarrow> string list \<Rightarrow> 'js \<Rightarrow> (string + unit) \<times> 'js) \<Rightarrow> string \<Rightarrow> string list \<Rightarrow> 'js
     \<Rightarrow> (skialith_error + unit) \<times> 'js" where
  "ensure_stream get_or_create_stream stream_name subjects js =
     (let (r, js') = get_or_create_stream stream_name subjects js in (map_err JetStream r, js'))"

text \<open>
  A store that has just been built: an untouched limiter and an empty queue, whose receiver is gone if
  the writer task has panicked.
\<close>

definition store_io_start :: "store \<Rightarrow> 'js \<Rightarrow> 'js store_io" where
  "store_io_start st js = \<lparr>io_limiter = st_rate_limiter st, io_js = js,
     io_queue = \<lparr>q_items = [], q_capacity = wt_capacity (active_writer st),
                 q_open = \<not> ticker_panics (wt_cfg (active_writer st))\<rparr>\<rparr>"

section \<open>The log before the queue\<close>

definition event_msg :: "string \<Rightarrow> bytes \<Rightarrow> wal_msg" where
  "event_msg agent_id b = \<lparr>msg_subject = trace_subject agent_id, msg_headers = [], msg_payload = b\<rparr>"

definition pending_of :: "string \<Rightarrow> string \<Rightarrow> bytes \<Rightarrow> pending_event" where
  "pending_of agent_id event_id b = \<lparr>pe_agent_id = agent_id, pe_event_id = event_id, pe_payload_json = b\<rparr>"

lemma save_event_cases:
  assumes "js_durable publish log"
    and "save_event api publish limit fuel clock agent_id event_id payload io = (out, io')"
  obtains (limited) "out = Rate_limited" "io' = io"
  | (unserialized) "out = Done (Inl Serialize)" "to_vec api (envelope api agent_id event_id payload) = None"
      "io_js io' = io_js io" "io_queue io' = io_queue io"
  | (unpublished) e b where "out = Done (Inl (JetStreamPublish e))"
      "to_vec api (envelope api agent_id event_id payload) = Some b"
      "log (io_js io') \<in> {log (io_js io), log (io_js io) @ [event_msg agent_id b]}"
      "io_queue io' = io_queue io"
  | (published) b io2 where "to_vec api (envelope api agent_id event_id payload) = Some b"
      "log (io_js io2) = log (io_js io) @ [event_msg agent_id b]" "io_queue io2 = io_queue io"
      "enqueue (pending_of agent_id event_id b) io2 = (out, io')"
proof (cases "wait_alone limit fuel clock (io_limiter io)")
  case None
  with assms(2) show ?thesis by (intro limited) (auto simp: save_event_def)
next
  case slot: (Some l)
  show ?thesis
  proof (cases "to_vec api (envelope api agent_id event_id payload)")
    case None
    with slot assms(2) show ?thesis by (intro unserialized) (auto simp: save_event_def)
  next
    case (Some b)
    obtain r js' where pub: "publish (io_js io) (event_msg agent_id b) = (r, js')" by fastforce
    show ?thesis
    proof (cases "published r")
      case (Inl e)
      with slot Some pub assms(2) js_durable_any [OF assms(1) pub] show ?thesis
        by (intro unpublished [of e b]) (auto simp: save_event_def event_msg_def)
    next
      case (Inr n)
      with js_durable_Acked [OF assms(1), of "io_js io" "event_msg agent_id b" n js'] pub
      have log: "log js' = log (io_js io) @ [event_msg agent_id b]" by simp
      with slot Some pub Inr assms(2) show ?thesis
        by (intro published [of b "io\<lparr>io_limiter := l, io_js := js'\<rparr>"])
           (simp_all add: save_event_def event_msg_def pending_of_def published_def Let_def)
    qed
  qed
qed

text \<open>
  C12.  The log before the queue: an event is queued for the database only with the very bytes that
  JetStream has acknowledged.  If \<open>save_event\<close> returns \<open>Ok\<close> it has appended one message to the log and
  one event to the queue; if the queue is closed or full the message is in the log all the same; on any
  other outcome nothing is queued.
\<close>

theorem save_event_wal_first:
  assumes "js_durable publish log"
    and "save_event api publish limit fuel clock agent_id event_id payload io = (out, io')"
  shows "(out = Rate_limited \<and> io' = io)
    \<or> (out = Done (Inl Serialize) \<and> log (io_js io') = log (io_js io) \<and> io_queue io' = io_queue io)
    \<or> (\<exists>b. to_vec api (envelope api agent_id event_id payload) = Some b
        \<and> ((\<exists>e. out = Done (Inl (JetStreamPublish e))) \<and> io_queue io' = io_queue io
             \<and> log (io_js io') \<in> {log (io_js io), log (io_js io) @ [event_msg agent_id b]}
           \<or> log (io_js io') = log (io_js io) @ [event_msg agent_id b]
             \<and> (out = Done (Inl QueueClosed) \<and> \<not> q_open (io_queue io) \<and> io_queue io' = io_queue io
                \<or> out = Awaiting_room (pending_of agent_id event_id b) \<and> io_queue io' = io_queue io
                  \<and> q_capacity (io_queue io) \<le> length (q_items (io_queue io))
                \<or> out = Done (Inr ()) \<and> q_items (io_queue io')
                    = q_items (io_queue io) @ [pending_of agent_id event_id b])))"
  using assms
proof (cases rule: save_event_cases)
  case (published b io2)
  then show ?thesis by (auto simp: enqueue_def Let_def split: if_splits)
qed auto

definition demo_io :: "bool \<Rightarrow> wal_msg list store_io" where
  "demo_io alive = \<lparr>io_limiter = rate_limiter_default, io_js = [],
     io_queue = \<lparr>q_items = [], q_capacity = 1, q_open = alive\<rparr>\<rparr>"

lemma demo_to_vec [simp]: "to_vec demo_json v = Some v"
  by (simp add: demo_json_def)

lemma demo_save:
  "save_event demo_json demo_publish u32_MAX 0 clock a e ''p'' (demo_io alive) =
     (if alive then Done (Inr ()) else Done (Inl QueueClosed),
      \<lparr>io_limiter = rate_limiter_default,
       io_js = [event_msg a (envelope demo_json a e ''p'')],
       io_queue = \<lparr>q_items = (if alive then [pending_of a e (envelope demo_json a e ''p'')] else []),
                   q_capacity = 1, q_open = alive\<rparr>\<rparr>)"
  by (simp add: save_event_def demo_io_def wait_alone_unlimited demo_publish_def trace_subject_def
      published_def enqueue_def event_msg_def pending_of_def)

theorem save_event_wal_first_witness:
  "\<exists>b. to_vec demo_json (envelope demo_json ''a'' ''e'' ''p'') = Some b
     \<and> io_js (snd (save_event demo_json demo_publish u32_MAX 0 (\<lambda>_. 0) ''a'' ''e'' ''p'' (demo_io False)))
       = [event_msg ''a'' b]"
proof -
  let ?run = "save_event demo_json demo_publish u32_MAX 0 (\<lambda>_. 0) ''a'' ''e'' ''p'' (demo_io False)"
  have "?run = (Done (Inl QueueClosed), snd ?run)" by (simp add: demo_save)
  moreover have "io_js (demo_io False) = []" by (simp add: demo_io_def)
  ultimately show ?thesis
    using save_event_wal_first [OF demo_publish_durable, of demo_json u32_MAX 0 "\<lambda>_. 0" "''a''" "''e''" "''p''"
      "demo_io False" "Done (Inl QueueClosed)" "snd ?run"] by auto
qed

section \<open>The limits of a store\<close>

lemma store_new_Some:
  "store_new managed cfg limit lock = Some st \<longleftrightarrow> channel_capacity cfg \<noteq> 0
     \<and> st = \<lparr>st_writers = [\<lparr>wt_cfg = clamp_config managed cfg, wt_capacity = channel_capacity cfg,
                               wt_dead_letter = False\<rparr>],
              st_enqueue_tx = 0, st_dead_letter_tx = False, st_rate_limiter = rate_limiter_default,
              st_rate_limit = limit, st_instance_lock = lock\<rparr>"
  by (auto simp: store_new_def Let_def clamp_config_def)

text \<open>
  Whatever configuration the caller asks for, a Community store keeps the Community limits: its
  writer starts, flushes no more often than every 100 ms, and at no point of any run adds more than 64
  rows to the table at once.
\<close>

theorem community_store_clamped:
  assumes "store_new False cfg limit lock = Some st" and "wt_cfg (active_writer st) = cfg'"
  shows "\<not> ticker_panics cfg' \<and> 100 \<le> max_batch_linger cfg' \<and> max_batch_size cfg' \<le> 64
    \<and> (let w = fold (writer_select coll lossy delays dl cfg') inputs (writer_init tbl)
       in length (w_events (writer_select coll lossy delays dl cfg' i w)) \<le> length (w_events w) + 64)"
proof -
  let ?w = "fold (writer_select coll lossy delays dl cfg') inputs (writer_init tbl)"
  have cfg': "cfg' = clamp_config False cfg"
    using assms by (auto simp: store_new_Some active_writer_def)
  then have limits: "100 \<le> max_batch_linger cfg'" "max_batch_size cfg' \<le> 64"
    by (simp_all add: clamp_config_def edition_limits)
  have "writer_bounded cfg' (writer_init tbl)"
    by (simp add: writer_bounded_def writer_init_def insert_cap_def)
  then have "writer_bounded cfg' ?w" by (rule writer_run_bounded)
  from writer_select_bounded [OF this, of coll lossy delays dl i] limits(2)
  have "length (w_events (writer_select coll lossy delays dl cfg' i ?w)) \<le> length (w_events ?w) + 64"
    unfolding insert_cap_def by linarith
  with limits show ?thesis by (simp add: ticker_panics_def Let_def)
qed

theorem community_store_clamped_witness:
  "\<exists>st. store_new False \<lparr>max_batch_size = 1000, max_batch_linger = 1, channel_capacity = 5\<rparr> 1000 None = Some st
     \<and> max_batch_size (wt_cfg (active_writer st)) \<le> 64"
proof -
  obtain st where "store_new False \<lparr>max_batch_size = 1000, max_batch_linger = 1, channel_capacity = 5\<rparr> 1000 None
      = Some st" by (simp add: store_new_Some)
  with community_store_clamped [OF this refl] show ?thesis by blast
qed

section \<open>Well-formed stores\<close>

text \<open>The stores that the interface can build.\<close>

inductive store_built :: "bool \<Rightarrow> store \<Rightarrow> bool" for managed :: bool where
  new: "store_new managed cfg limit lock = Some st \<Longrightarrow> store_built managed st"
| dead_letter: "store_built managed st \<Longrightarrow> store_built managed (with_dead_letter st)"

lemma connect_built:
  "connect managed crates api env cfg kv = (Some (Inr st), kv') \<Longrightarrow> store_built managed st"
  by (auto simp: connect_def Let_def intro: store_built.new split: option.splits prod.splits sum.splits)

lemma new_unchecked_built: "new_unchecked managed cfg = Some st \<Longrightarrow> store_built managed st"
  by (auto simp: new_unchecked_def intro: store_built.new)

definition store_ok :: "store \<Rightarrow> bool" where
  "store_ok st \<longleftrightarrow> Suc (st_enqueue_tx st) = length (st_writers st)
     \<and> list_all (\<lambda>t. 0 < wt_capacity t) (st_writers st)
     \<and> wt_dead_letter (last (st_writers st)) = st_dead_letter_tx st"

lemma store_built_ok: "store_built managed st \<Longrightarrow> store_ok st"
  by (induction rule: store_built.induct) (auto simp: store_ok_def store_new_Some with_dead_letter_def)

definition queue_ok :: "nat \<Rightarrow> queue \<Rightarrow> bool" where
  "queue_ok cap q \<longleftrightarrow> q_capacity q = cap \<and> length (q_items q) \<le> cap"

lemma enqueue_queue_ok: "enqueue ev io = (out, io') \<Longrightarrow> queue_ok cap (io_queue io) \<Longrightarrow> queue_ok cap (io_queue io')"
  by (auto simp: enqueue_def queue_ok_def Let_def split: if_splits)

text \<open>
  C29.  Every store that the interface can build, by \<open>new\<close>, \<open>connect\<close> or \<open>new_unchecked\<close> and any number
  of \<open>with_dead_letter\<close>, is well-formed: it sends to a writer that it has started, the last one, which
  has the dead-letter channel exactly if the store has; its queue starts empty with room for at least
  one event; and no save ever takes a queue beyond its capacity or changes the capacity.
\<close>

theorem stores_well_formed:
  assumes "store_built managed st"
    and "save_event api publish limit fuel clock agent_id event_id payload io = (out, io')"
    and "queue_ok (wt_capacity (active_writer st)) (io_queue io)"
  shows "st_enqueue_tx st < length (st_writers st) \<and> active_writer st = last (st_writers st)
    \<and> wt_dead_letter (active_writer st) = st_dead_letter_tx st \<and> 0 < wt_capacity (active_writer st)
    \<and> queue_ok (wt_capacity (active_writer st)) (io_queue (store_io_start st js))
    \<and> queue_ok (wt_capacity (active_writer st)) (io_queue io')"
proof -
  from assms(1) have ok: "store_ok st" by (rule store_built_ok)
  then have ne: "st_writers st \<noteq> []" and index: "st_enqueue_tx st = length (st_writers st) - 1"
    by (auto simp: store_ok_def)
  then have last: "active_writer st = last (st_writers st)" by (simp add: active_writer_def last_conv_nth)
  with ok ne have "0 < wt_capacity (active_writer st)"
    by (auto simp: store_ok_def list_all_iff)
  moreover have "queue_ok (wt_capacity (active_writer st)) (io_queue io')"
    using assms(2,3)
    by (auto simp: save_event_def Let_def split: option.splits prod.splits sum.splits elim!: enqueue_queue_ok)
  ultimately show ?thesis using ok last by (auto simp: store_ok_def queue_ok_def store_io_start_def)
qed

theorem stores_well_formed_witness:
  "\<exists>st. store_new False \<lparr>max_batch_size = 9, max_batch_linger = 9, channel_capacity = 1\<rparr> 1000 None = Some st
     \<and> queue_ok 10000 (io_queue (snd (save_event demo_json demo_publish u32_MAX 0 (\<lambda>_. 0) ''a'' ''e'' ''p''
          (store_io_start (with_dead_letter st) []))))"
proof -
  obtain st where st: "store_new False \<lparr>max_batch_size = 9, max_batch_linger = 9, channel_capacity = 1\<rparr> 1000 None = Some st"
    by (simp add: store_new_Some)
  have cap: "wt_capacity (active_writer (with_dead_letter st)) = 10000"
    by (simp add: active_writer_def with_dead_letter_def)
  then have "queue_ok (wt_capacity (active_writer (with_dead_letter st)))
      (io_queue (store_io_start (with_dead_letter st) ([] :: wal_msg list)))"
    by (simp add: queue_ok_def store_io_start_def)
  note stores_well_formed [OF store_built.dead_letter [OF store_built.new [OF st]] prod.collapse [symmetric] this,
      where api = demo_json and publish = demo_publish and limit = u32_MAX and fuel = 0 and clock = "\<lambda>_. 0"
        and agent_id = "''a''" and event_id = "''e''" and payload = "''p''" and js = "[] :: wal_msg list"]
  then have "queue_ok 10000 (io_queue (snd (save_event demo_json demo_publish u32_MAX 0 (\<lambda>_. 0) ''a'' ''e'' ''p''
      (store_io_start (with_dead_letter st) []))))"
    unfolding cap by blast
  with st show ?thesis by blast
qed

lemma writer_fills:
  assumes "length (w_batch w) + length evs < max_batch_size cfg"
  shows "fold (writer_select coll lossy delays dl cfg) (map (\<lambda>ev. Recv ev quiet) evs) w
    = w\<lparr>w_batch := w_batch w @ evs\<rparr>"
  using assms by (induction evs arbitrary: w) (simp_all add: Let_def)

lemma flush_quiet:
  assumes "w_batch w \<noteq> []" and "events_unique coll (w_events w @ push_values lossy (w_batch w))"
  shows "w_events (flush_batch_with_retry coll lossy delays dl quiet w)
    = w_events w @ push_values lossy (w_batch w)"
  using assms
  by (cases delays) (simp_all add: flush_batch_with_retry_def quiet_def flush_batch_clean Let_def)

lemma active_dead_letter_writer [simp]:
  "active_writer (with_dead_letter st)
    = \<lparr>wt_cfg = config_default, wt_capacity = 10000, wt_dead_letter = True\<rparr>"
  by (simp add: active_writer_def with_dead_letter_def)

text \<open>
  \<open>with_dead_letter\<close> undoes the limits: the writer it starts has the default configuration,
  whatever the edition and the configuration of the store, and so it holds back 255 events and puts
  256 rows into one statement.
\<close>

theorem dead_letter_bypasses_limits:
  assumes "length evs = 256" and "events_unique coll (push_values lossy evs)"
  shows "let cfg = wt_cfg (active_writer (with_dead_letter st));
      w = fold (writer_select coll lossy delays True cfg) (map (\<lambda>ev. Recv ev quiet) (butlast evs))
            (writer_init [])
    in w_events w = []
      \<and> w_events (writer_select coll lossy delays True cfg (Recv (last evs) quiet) w) = push_values lossy evs"
proof -
  have evs: "butlast evs @ [last evs] = evs" using assms(1) by (intro append_butlast_last_id) auto
  have "fold (writer_select coll lossy delays True config_default) (map (\<lambda>ev. Recv ev quiet) (butlast evs))
      (writer_init []) = (writer_init [])\<lparr>w_batch := butlast evs\<rparr>"
    using assms(1) by (subst writer_fills) (simp_all add: writer_init_def config_default_def)
  moreover have "max_batch_size config_default = 256" by (simp add: config_default_def)
  ultimately show ?thesis
    using assms evs
      flush_quiet [of "(writer_init [])\<lparr>w_batch := evs\<rparr>" coll lossy delays True]
    by (auto simp: Let_def writer_init_def)
qed

theorem dead_letter_bypasses_limits_witness:
  "\<exists>st w. store_new False config_default 1000 None = Some st
     \<and> length (w_events (writer_select id id [] True (wt_cfg (active_writer (with_dead_letter st)))
          (Recv (demo_event ''a'' (replicate 255 (CHR ''x''))) quiet) w)) = 256 \<and> w_events w = []"
proof -
  let ?evs = "map (\<lambda>n. demo_event ''a'' (replicate n (CHR ''x''))) [0..<256]"
  let ?w = "fold (writer_select id id [] True config_default) (map (\<lambda>ev. Recv ev quiet) (butlast ?evs))
    (writer_init [])"
  obtain st where st: "store_new False config_default 1000 None = Some st"
    by (simp add: store_new_Some config_default_def)
  have "push_values id ?evs = map (\<lambda>n. demo_row_of ''a'' (replicate n (CHR ''x''))) [0..<256]"
    by (simp add: push_values_def comp_def)
  then have "events_unique id (push_values id ?evs)"
    by (simp add: events_unique_def comp_def distinct_map inj_on_def)
  from dead_letter_bypasses_limits [OF _ this, of st "[]"] st show ?thesis
    by (intro exI [of _ st] exI [of _ ?w]) (simp add: Let_def last_map)
qed

text \<open>
  A writer that cannot start makes every save fail after it has been logged: a Managed store with
  a linger of zero passes the clamp, its writer task panics at once, and \<open>save_event\<close> never returns \<open>Ok\<close>,
  although what it was given is in the log.
\<close>

theorem zero_linger_never_saves:
  assumes "store_new True cfg limit lock = Some st" and "max_batch_linger cfg = 0"
    and "js_durable publish log"
    and "save_event api publish limit' fuel clock agent_id event_id payload (store_io_start st js) = (out, io')"
  shows "run_tidb_batch_writer coll lossy delays dl (wt_cfg (active_writer st)) inputs closing tbl = None
    \<and> out \<noteq> Done (Inr ())
    \<and> (out = Done (Inl QueueClosed) \<longrightarrow> (\<exists>b. log (io_js io') = log js @ [event_msg agent_id b]))"
proof -
  have panics: "ticker_panics (wt_cfg (active_writer st))"
    using assms(1,2)
    by (auto simp: store_new_Some active_writer_def clamp_config_def ticker_panics_def edition_limits)
  then have closed: "\<not> q_open (io_queue (store_io_start st js))" by (simp add: store_io_start_def)
  have js: "io_js (store_io_start st js) = js" by (simp add: store_io_start_def)
  from assms(3,4) show ?thesis
  proof (cases rule: save_event_cases)
    case (published b io2)
    with closed js have "out = Done (Inl QueueClosed)" "io' = io2" by (simp_all add: enqueue_def)
    with published js panics show ?thesis by (auto simp: run_tidb_batch_writer_def)
  qed (simp_all add: panics run_tidb_batch_writer_def)
qed

theorem zero_linger_never_saves_witness:
  "\<exists>st. store_new True \<lparr>max_batch_size = 256, max_batch_linger = 0, channel_capacity = 9\<rparr> u32_MAX None = Some st
     \<and> fst (save_event demo_json demo_publish u32_MAX 0 (\<lambda>_. 0) ''a'' ''e'' ''p'' (store_io_start st []))
       \<noteq> Done (Inr ())"
proof -
  let ?cfg = "\<lparr>max_batch_size = 256, max_batch_linger = 0, channel_capacity = 9\<rparr>"
  obtain st where st: "store_new True ?cfg u32_MAX None = Some st" by (simp add: store_new_Some)
  have "max_batch_linger ?cfg = 0" by simp
  note never = zero_linger_never_saves
    [OF st this demo_publish_durable prod.collapse [symmetric], THEN conjunct2, THEN conjunct1]
  show ?thesis by (rule exI, rule conjI [OF st never])
qed

section \<open>Rights and the instance lock\<close>

text \<open>
  What \<open>connect\<close> grants comes from the licence: the store's rate limit is the licence's; with the
  HA right the bucket is not touched, and without it the lock was free and is now held by this store for
  30 s; and without a licence that verifies, the limit is 1000 events per second and the lock is held.
\<close>

theorem connect_grants:
  assumes "kv_laws api vw" and "connect managed crates api env cfg kv = (Some (Inr st), kv')"
  shows "st_rate_limit st = effective_rate_limit (ce_now_rate env) (load crates (ce_license_var env))
    \<and> (if allows_ha (ce_now_ha env) (load crates (ce_license_var env))
       then kv' = kv \<and> st_instance_lock st = Some Pending
       else kv_revision vw kv LOCK_KEY = 0 \<and> st_instance_lock st = Some (Beating 1)
         \<and> kv_live vw kv' LOCK_KEY = Some (kv_seq vw kv + 1, 30000))
    \<and> (load crates (ce_license_var env) = None \<longrightarrow>
         st_rate_limit st = 1000 \<and> st_instance_lock st = Some (Beating 1))"
proof -
  let ?lic = "load crates (ce_license_var env)"
  let ?ha = "allows_ha (ce_now_ha env) ?lic"
  obtain hb where lock: "acquire api ?ha kv = (Inr hb, kv')"
    and st: "store_new managed cfg (effective_rate_limit (ce_now_rate env) ?lic) (Some hb) = Some st"
    using assms(2)
    by (auto simp: connect_def Let_def split: option.splits prod.splits sum.splits)
  have fields: "st_rate_limit st = effective_rate_limit (ce_now_rate env) ?lic" "st_instance_lock st = Some hb"
    using st by (auto simp: store_new_Some)
  have unlicensed: "effective_rate_limit t None = 1000" "\<not> allows_ha t None" for t
    by (simp_all add: effective_rate_limit_def allows_ha_def edition_limits)
  show ?thesis
  proof (cases ?ha)
    case True
    then have "?lic \<noteq> None" using unlicensed(2) by metis
    with True lock fields show ?thesis by (auto simp: acquire_def)
  next
    case False
    with lock have "acquire api False kv = (Inr hb, kv')" by simp
    from acquire_Ok [OF assms(1) this] False fields unlicensed show ?thesis by (auto simp: LOCK_TTL_def)
  qed
qed

definition demo_env :: "string option \<Rightarrow> sqlx_error option \<Rightarrow> connect_env" where
  "demo_env var tidb = \<lparr>ce_license_var = var, ce_now_rate = 0, ce_now_ha = 0, ce_nats = None, ce_tidb = tidb\<rparr>"

lemmas connect_eval = connect_def demo_env_def load_def allows_ha_def Let_def

lemma demo_fresh_acquire:
  obtains kv1 where "acquire demo_kv_api False demo_fresh = (Inr (Beating 1), kv1)"
  using demo_acquire [of demo_fresh] by (simp add: demo_fresh_def kv_revision_def demo_view_def)

theorem connect_grants_witness:
  "\<exists>st kv'. connect False demo_crates demo_kv_api (demo_env None None) config_default demo_fresh
       = (Some (Inr st), kv')
     \<and> st_rate_limit st = 1000 \<and> kv_live demo_view kv' LOCK_KEY = Some (1, 30000)"
proof -
  obtain kv1 where took: "acquire demo_kv_api False demo_fresh = (Inr (Beating 1), kv1)"
    by (rule demo_fresh_acquire)
  obtain st where st: "store_new False config_default (effective_rate_limit 0 None) (Some (Beating 1)) = Some st"
    by (simp add: store_new_Some config_default_def)
  from took st have run: "connect False demo_crates demo_kv_api (demo_env None None) config_default demo_fresh
      = (Some (Inr st), kv1)"
    by (simp add: connect_eval)
  from connect_grants [OF demo_kv_laws run] have "st_rate_limit st = 1000"
    and "kv_live demo_view kv1 LOCK_KEY = Some (1, 30000)"
    by (simp_all add: demo_env_def load_def allows_ha_def demo_view_def demo_fresh_def edition_limits)
  with run show ?thesis by blast
qed

text \<open>
  A start that fails on the database still locks out the next one: \<open>connect\<close> takes the lock
  before it reaches for the database and drops it on the error, but the entry stays, so that any start
  without the HA right within the next 30 s is refused as if another instance were running.
\<close>

theorem failed_connect_blocks_restart:
  assumes "kv_laws api vw" and "kv_reliable api vw" and "kv_seq vw kv + 1 \<noteq> 0"
    and "connect managed crates api env cfg kv = (Some (Inl (Sqlx e)), kv')"
    and "\<not> allows_ha (ce_now_ha env) (load crates (ce_license_var env))"
    and "\<not> allows_ha (ce_now_ha env') (load crates (ce_license_var env'))" and "ce_nats env' = None"
    and "d < 30000"
  shows "fst (connect managed crates api env' cfg' (kv_elapse vw d kv'))
    = Some (Inl (Instance_Lock_error (lock_error_to_string AlreadyRunning)))"
proof -
  obtain hb where "acquire api False kv = (Inr hb, kv')"
    using assms(4,5)
    by (auto simp: connect_def Let_def split: option.splits prod.splits sum.splits)
  note took = acquire_Ok [OF assms(1) this]
  let ?kv = "kv_elapse vw d kv'"
  have live: "kv_revision vw ?kv LOCK_KEY \<noteq> 0"
    using took(3) assms(3,8) by (simp add: kv_revision_def elapse_view [OF assms(1)] LOCK_TTL_def)
  have bucket: "kv_bucket vw ?kv = Some lock_config"
    using took(5) by (simp add: elapse_view [OF assms(1)])
  obtain r kv2 where second: "acquire api False ?kv = (r, kv2)" by fastforce
  from acquire_held(5) [OF assms(1) live this assms(2) bucket] second assms(6,7)
  show ?thesis by (simp add: connect_def Let_def)
qed

theorem failed_connect_blocks_restart_witness:
  "let kv' = snd (connect False demo_crates demo_kv_api (demo_env None (Some (Sqlx_Other ''refused'')))
        config_default demo_fresh)
   in fst (connect False demo_crates demo_kv_api (demo_env None None) config_default
        (kv_elapse demo_view 5000 kv'))
      = Some (Inl (Instance_Lock_error (lock_error_to_string AlreadyRunning)))"
proof -
  let ?env = "demo_env None (Some (Sqlx_Other ''refused''))"
  obtain kv1 where took: "acquire demo_kv_api False demo_fresh = (Inr (Beating 1), kv1)"
    by (rule demo_fresh_acquire)
  have community: "\<not> allows_ha (ce_now_ha (demo_env None t)) (load demo_crates (ce_license_var (demo_env None t)))"
    for t by (simp add: demo_env_def load_def allows_ha_def)
  from took have run: "connect False demo_crates demo_kv_api ?env config_default demo_fresh
      = (Some (Inl (Sqlx (Sqlx_Other ''refused''))), kv1)"
    by (simp add: connect_eval)
  have "kv_seq demo_view demo_fresh + 1 \<noteq> 0" by (simp add: demo_view_def demo_fresh_def)
  note blocked = failed_connect_blocks_restart
    [OF demo_kv_laws demo_kv_reliable this run community community]
  have "ce_nats (demo_env None None) = None" by (simp add: demo_env_def)
  from blocked [OF this, of 5000] show ?thesis by (simp add: run Let_def)
qed

section \<open>What the ingest loop makes of a saved event\<close>

text \<open>
  A saved event that is ingested from the log becomes a \<open>thought\<close> at the step of its stream
  sequence, whatever step and type its payload gives: the envelope has neither field at its top level.
  Its payload still names the agent and the event.
\<close>

definition names_event :: "'v json_api \<Rightarrow> 'v \<Rightarrow> string \<Rightarrow> string \<Rightarrow> bool" where
  "names_event api v agent_id event_id \<longleftrightarrow>
     Option.bind (jv_get api v ''agent_id'') (jv_as_str api) = Some agent_id
     \<and> Option.bind (jv_get api v ''event_id'') (jv_as_str api) = Some event_id"

lemma saved_event_decoded:
  assumes "json_laws api" and "to_vec api (envelope api agent_id event_id payload) = Some b"
    and "CHR ''.'' \<notin> set agent_id"
    and "jm_subject m = msg_subject (event_msg agent_id b)" and "jm_payload m = msg_payload (event_msg agent_id b)"
  shows "\<exists>v. from_slice api b = Some v \<and> names_event api v agent_id event_id \<and> decode_message api m
    = Inr \<lparr>tr_agent_id = agent_id, tr_step_index = as_i32 (js_sequence m), tr_event_type = Thought,
           tr_payload = v\<rparr>"
proof -
  let ?fields = "[(''agent_id'', jv_str api agent_id), (''event_id'', jv_str api event_id), (''payload'', payload)]"
  have distinct: "distinct (map fst ?fields)" and bytes: "to_vec api (jv_object api ?fields) = Some b"
    using assms(2) by (simp_all add: envelope_def)
  obtain v where v: "from_slice api b = Some v"
    and fields: "\<And>k. jv_get api v k = None \<longleftrightarrow> k \<notin> fst ` set ?fields"
    and strings: "\<And>k s. map_of ?fields k = Some (jv_str api s) \<Longrightarrow>
      Option.bind (jv_get api v k) (jv_as_str api) = Some s"
    by (rule json_object_text [OF assms(1) distinct bytes]) (rule that)
  have "names_event api v agent_id event_id"
    using strings [of "''agent_id''" agent_id] strings [of "''event_id''" event_id] by (simp add: names_event_def)
  have "jv_get api v ''step_index'' = None" and "jv_get api v ''event_type'' = None"
    by (simp_all add: fields)
  moreover have "subject_agent (trace_subject agent_id) = agent_id"
    using assms(3) by (simp add: subject_agent_trace_subject takeWhile_eq_self_iff) metis
  ultimately show ?thesis
    using v \<open>names_event api v agent_id event_id\<close> assms(4,5)
    by (simp add: decode_message_def derive_step_index_def derive_event_type_def event_msg_def)
qed

end
