(* ===== verification/Agent_Manager.thy ===== *)
theory Agent_Manager
  imports External
begin

text \<open>
  \<open>src/agent_manager.rs\<close>: checkpoints are published to JetStream under \<open>agent.checkpoint.<id>\<close>, and
  the call returns when the \<open>PubAck\<close> has arrived.
\<close>

text \<open>The variant \<open>Ack\<close> of the error type is never built: both awaits fail with a \<open>PublishError\<close>.\<close>

datatype manager_error = Manager_Serialize | Manager_Publish string | Manager_Ack string

definition checkpoint_subject :: "string \<Rightarrow> string" where
  "checkpoint_subject agent_id = ''agent.checkpoint.'' @ agent_id"

definition checkpoint_headers :: "string \<Rightarrow> (string \<times> string) list" where
  "checkpoint_headers agent_id =
     [(''X-Priority'', ''high''), (''X-WAL-Phase'', ''checkpoint''), (''X-Agent-Id'', agent_id)]"

definition checkpoint_state ::
  "'v json_api \<Rightarrow> 'js publish \<Rightarrow> string \<Rightarrow> 'v \<Rightarrow> 'js \<Rightarrow> (manager_error + unit) \<times> 'js" where
  "checkpoint_state api publish agent_id state js =
     (case to_vec api state of
        None \<Rightarrow> (Inl Manager_Serialize, js)
      | Some payload \<Rightarrow>
          (let (r, js') = publish js \<lparr>msg_subject = checkpoint_subject agent_id,
                                       msg_headers = checkpoint_headers agent_id,
                                       msg_payload = payload\<rparr>
           in (case published r of
                 Inl e \<Rightarrow> (Inl (Manager_Publish e), js')
               | Inr _ \<Rightarrow> (Inr (), js'))))"

definition checkpoint_msg :: "string \<Rightarrow> bytes \<Rightarrow> wal_msg" where
  "checkpoint_msg agent_id payload = \<lparr>msg_subject = checkpoint_subject agent_id,
     msg_headers = checkpoint_headers agent_id, msg_payload = payload\<rparr>"

text \<open>What a call does to the log, whatever it returns.\<close>

lemma checkpoint_state_log:
  assumes "js_durable publish log" and "checkpoint_state api publish agent_id state js = (r, js')"
  shows "log js' = log js \<or>
    (\<exists>p. to_vec api state = Some p \<and> log js' = log js @ [checkpoint_msg agent_id p])"
  using assms(2) js_durable_any [OF assms(1)]
  by (auto simp: checkpoint_state_def checkpoint_msg_def split: option.splits prod.splits sum.splits)

lemma checkpoint_state_Ok:
  assumes "js_durable publish log" and "checkpoint_state api publish agent_id state js = (Inr (), js')"
  shows "\<exists>p. to_vec api state = Some p \<and> log js' = log js @ [checkpoint_msg agent_id p]"
  using assms(2) js_durable_Acked [OF assms(1)]
  by (auto simp: checkpoint_state_def checkpoint_msg_def split: option.splits prod.splits sum.splits)

text \<open>
  A checkpoint that returns \<open>Ok\<close> is in the write-ahead log: the log has grown by exactly one
  message, under the agent's checkpoint subject, with the high-priority checkpoint headers and the
  serialized state.
\<close>

theorem checkpoint_durable:
  assumes "js_durable publish log"
    and "checkpoint_state api publish agent_id state js = (Inr (), js')"
  shows "\<exists>p. to_vec api state = Some p
    \<and> log js' = log js @ [\<lparr>msg_subject = ''agent.checkpoint.'' @ agent_id,
        msg_headers = [(''X-Priority'', ''high''), (''X-WAL-Phase'', ''checkpoint''),
          (''X-Agent-Id'', agent_id)],
        msg_payload = p\<rparr>]"
  using checkpoint_state_Ok [OF assms]
  by (simp add: checkpoint_msg_def checkpoint_subject_def checkpoint_headers_def)

theorem checkpoint_durable_witness:
  "\<exists>p. to_vec demo_json ''11'' = Some p
     \<and> snd (checkpoint_state demo_json demo_publish ''a1'' ''11'' [])
       = [\<lparr>msg_subject = ''agent.checkpoint.a1'',
           msg_headers = [(''X-Priority'', ''high''), (''X-WAL-Phase'', ''checkpoint''),
             (''X-Agent-Id'', ''a1'')],
           msg_payload = p\<rparr>]"
proof -
  have "fst (checkpoint_state demo_json demo_publish ''a1'' ''11'' []) = Inr ()"
    by (simp add: checkpoint_state_def demo_json_def demo_publish_def published_def
        checkpoint_subject_def)
  then have "checkpoint_state demo_json demo_publish ''a1'' ''11'' []
      = (Inr (), snd (checkpoint_state demo_json demo_publish ''a1'' ''11'' []))"
    by (simp add: prod_eq_iff)
  from checkpoint_durable [OF demo_publish_durable this] show ?thesis by simp
qed

end
