(* ===== verification/Resurrection.thy ===== *)
theory Resurrection
  imports Agent_Trace
begin

text \<open>
  \<open>src/resurrection.rs\<close>: the state an agent resumes from, read from \<open>agent_traces\<close>: the \<open>thought\<close> row
  of the agent with the highest step.
\<close>

datatype resurrection_error = Resurrection_Sqlx sqlx_error

record 'v agent_state =
  as_agent_id :: string
  as_step_index :: i64
  as_state :: 'v

definition new_agent :: "'v json_api \<Rightarrow> string \<Rightarrow> 'v agent_state" where
  "new_agent api agent_id = \<lparr>as_agent_id = agent_id, as_step_index = 0,
     as_state = jv_object api [(''kind'', jv_str api ''NewAgent''), (''step_index'', jv_int api 0)]\<rparr>"

text \<open>\<open>WHERE agent_id = ? AND event_type = 'thought'\<close>, \<open>ORDER BY step_index DESC\<close>, \<open>LIMIT 1\<close>.\<close>

definition thought_rows :: "collation \<Rightarrow> string \<Rightarrow> 'v trace_row list \<Rightarrow> 'v trace_row list" where
  "thought_rows coll agent_id tbl =
     filter (\<lambda>r. coll (row_agent_id r) = coll agent_id \<and> row_event_type r = ''thought'') tbl"

definition select_latest_thought ::
  "collation \<Rightarrow> string \<Rightarrow> 'v trace_row list \<Rightarrow> (i64 \<times> 'v option) option" where
  "select_latest_thought coll agent_id tbl =
     map_option (\<lambda>r. (i32_to_i64 (row_step_index r), row_payload r))
       (nth_opt (sort_key (\<lambda>r. - sint (row_step_index r)) (thought_rows coll agent_id tbl)) 0)"

definition resume_agent ::
  "collation \<Rightarrow> 'v json_api \<Rightarrow> sqlx_error option \<Rightarrow> 'v trace_row list \<Rightarrow> string
     \<Rightarrow> resurrection_error + 'v agent_state" where
  "resume_agent coll api fault tbl agent_id =
     (case fault of
        Some e \<Rightarrow> Inl (Resurrection_Sqlx e)
      | None \<Rightarrow> Inr
          (case select_latest_thought coll agent_id tbl of
             Some (step_index, maybe_payload) \<Rightarrow>
               (let state =
                  (case maybe_payload of
                     Some j \<Rightarrow> j
                   | None \<Rightarrow> jv_object api [(''kind'', jv_str api ''Unknown''),
                                            (''step_index'', jv_int api step_index)])
                in \<lparr>as_agent_id = agent_id, as_step_index = step_index, as_state = state\<rparr>)
           | None \<Rightarrow> new_agent api agent_id))"

section \<open>The selected row\<close>

lemma nth_opt_0_sort:
  "nth_opt (sort_key f xs) 0 = (if xs = [] then None else Some (hd (sort_key f xs)))"
  by (auto simp: nth_opt_def hd_conv_nth simp flip: set_empty)

lemma hd_sort_key_least:
  assumes "xs \<noteq> []"
  shows "hd (sort_key f xs) \<in> set xs" and "x \<in> set xs \<Longrightarrow> f (hd (sort_key f xs)) \<le> f x"
proof -
  obtain y ys where ys: "sort_key f xs = y # ys"
    using assms by (metis list.exhaust set_empty set_sort)
  have members: "set xs = insert y (set ys)" using ys by (metis list.simps(15) set_sort)
  show "hd (sort_key f xs) \<in> set xs" using ys members by simp
  have "sorted (map f (y # ys))" using ys by (metis sorted_sort_key)
  with ys members show "x \<in> set xs \<Longrightarrow> f (hd (sort_key f xs)) \<le> f x" by auto
qed

lemma sint_row_eq: "sint (a :: i32) = sint b \<longleftrightarrow> a = b"
  by (auto intro: signed_word_eqI)

text \<open>Under the unique key there is one row with the highest step, and that one is selected.\<close>

lemma select_latest_thought_Some:
  assumes "traces_unique coll tbl" and "r \<in> set (thought_rows coll agent_id tbl)"
    and "\<And>r'. r' \<in> set (thought_rows coll agent_id tbl) \<Longrightarrow>
      sint (row_step_index r') \<le> sint (row_step_index r)"
  shows "select_latest_thought coll agent_id tbl
    = Some (i32_to_i64 (row_step_index r), row_payload r)"
proof -
  let ?rows = "thought_rows coll agent_id tbl"
  let ?top = "hd (sort_key (\<lambda>r. - sint (row_step_index r)) ?rows)"
  have ne: "?rows \<noteq> []" using assms(2) by auto
  have top: "?top \<in> set ?rows" using hd_sort_key_least(1) [OF ne] .
  have "- sint (row_step_index ?top) \<le> - sint (row_step_index r)"
    using hd_sort_key_least(2) [OF ne assms(2)] .
  with assms(3) [OF top] have "sint (row_step_index ?top) = sint (row_step_index r)" by simp
  then have "row_step_index ?top = row_step_index r" by (simp add: sint_row_eq)
  moreover have "inj_on (uq_agent_step coll) (set tbl)"
    using assms(1) by (simp add: traces_unique_def distinct_map)
  ultimately have "?top = r"
    using top assms(2) by (auto simp: thought_rows_def uq_agent_step_def inj_on_def)
  then show ?thesis using ne by (simp add: select_latest_thought_def nth_opt_0_sort)
qed

lemma select_latest_thought_None: "thought_rows coll agent_id tbl = [] \<Longrightarrow>
    select_latest_thought coll agent_id tbl = None"
  by (simp add: select_latest_thought_def nth_opt_def)

lemma thought_rows_put:
  "thought_rows coll agent_id (trace_put coll r tbl) =
     thought_rows coll agent_id tbl @
     (if trace_lookup coll tbl (uq_agent_step coll r) = None \<and> coll (row_agent_id r) = coll agent_id
         \<and> row_event_type r = ''thought'' then [r] else [])"
  by (simp add: thought_rows_def trace_put_def)

text \<open>Only the agent's \<open>thought\<close> rows matter.\<close>

lemma resume_agent_cong:
  "thought_rows coll agent_id tbl = thought_rows coll agent_id tbl' \<Longrightarrow>
     resume_agent coll api f tbl agent_id = resume_agent coll api f tbl' agent_id"
  by (cases f) (simp_all add: resume_agent_def select_latest_thought_def)

text \<open>
  C21.  An agent resumes from its own \<open>thought\<close> row with the highest step, compared as signed numbers
  and widened without loss, and with that row's payload (or the \<open>Unknown\<close> state if it is null); with no
  such row it starts as a new agent at step zero.
\<close>

theorem resume_agent_latest:
  assumes "traces_unique coll tbl" and "resume_agent coll api None tbl agent_id = Inr st"
  shows "(thought_rows coll agent_id tbl = [] \<and> st = new_agent api agent_id)
    \<or> (\<exists>r \<in> set (thought_rows coll agent_id tbl).
         (\<forall>r' \<in> set (thought_rows coll agent_id tbl).
            sint (row_step_index r') \<le> sint (row_step_index r))
         \<and> as_agent_id st = agent_id
         \<and> sint (as_step_index st) = sint (row_step_index r)
         \<and> as_state st = (case row_payload r of
              Some j \<Rightarrow> j
            | None \<Rightarrow> jv_object api [(''kind'', jv_str api ''Unknown''),
                                     (''step_index'', jv_int api (as_step_index st))]))"
proof (cases "thought_rows coll agent_id tbl = []")
  case True
  with assms(2) show ?thesis by (simp add: resume_agent_def select_latest_thought_None)
next
  case ne: False
  let ?r = "hd (sort_key (\<lambda>r. - sint (row_step_index r)) (thought_rows coll agent_id tbl))"
  have r: "?r \<in> set (thought_rows coll agent_id tbl)"
    and top: "\<And>r'. r' \<in> set (thought_rows coll agent_id tbl) \<Longrightarrow>
      sint (row_step_index r') \<le> sint (row_step_index ?r)"
    using hd_sort_key_least [OF ne, where f = "\<lambda>r. - sint (row_step_index r)"] by auto
  have wide: "sint (i32_to_i64 s) = sint s" for s
    by (simp add: i32_to_i64_def sint_up_scast is_up)
  from assms(2) select_latest_thought_Some [OF assms(1) r top]
  have "st = \<lparr>as_agent_id = agent_id, as_step_index = i32_to_i64 (row_step_index ?r),
      as_state = (case row_payload ?r of Some j \<Rightarrow> j
        | None \<Rightarrow> jv_object api [(''kind'', jv_str api ''Unknown''),
            (''step_index'', jv_int api (i32_to_i64 (row_step_index ?r)))])\<rparr>"
    by (simp add: resume_agent_def)
  with top wide show ?thesis
    by (intro disjI2 bexI [OF _ r]) (simp split: option.split)
qed

definition demo_tbl :: "string trace_row list" where
  "demo_tbl =
     [\<lparr>row_agent_id = ''a1'', row_step_index = 4, row_event_type = ''thought'', row_payload = Some ''p4''\<rparr>,
      \<lparr>row_agent_id = ''a1'', row_step_index = -1, row_event_type = ''thought'', row_payload = Some ''m''\<rparr>,
      \<lparr>row_agent_id = ''a1'', row_step_index = 9, row_event_type = ''tool_call'', row_payload = None\<rparr>,
      \<lparr>row_agent_id = ''b'', row_step_index = 8, row_event_type = ''thought'', row_payload = None\<rparr>]"

lemma demo_tbl_unique: "traces_unique id demo_tbl"
  by (simp add: traces_unique_def demo_tbl_def uq_agent_step_def)

lemma demo_resume:
  "resume_agent id demo_json None demo_tbl ''a1''
     = Inr \<lparr>as_agent_id = ''a1'', as_step_index = 4, as_state = ''p4''\<rparr>"
  by (simp add: resume_agent_def select_latest_thought_def thought_rows_def demo_tbl_def
      nth_opt_def i32_to_i64_def)

theorem resume_agent_latest_witness:
  "\<exists>r \<in> set (thought_rows id ''a1'' demo_tbl). row_payload r = Some ''p4''"
proof -
  from resume_agent_latest [OF demo_tbl_unique demo_resume]
  show ?thesis by (auto simp: new_agent_def demo_tbl_def thought_rows_def)
qed

lemma thought_put_resumes:
  assumes "traces_unique coll tbl"
    and "tr_event_type t = Thought" and "coll (tr_agent_id t) = coll agent_id"
    and "trace_lookup coll tbl (coll (tr_agent_id t), tr_step_index t) = None"
    and "\<forall>r \<in> set (thought_rows coll agent_id tbl). sint (row_step_index r) < sint (tr_step_index t)"
    and "trace_fits t"
  shows "resume_agent coll api None (snd (trace_insert coll None t tbl)) agent_id
    = Inr \<lparr>as_agent_id = agent_id, as_step_index = i32_to_i64 (tr_step_index t), as_state = tr_payload t\<rparr>"
proof -
  let ?r = "row_of_trace t"
  let ?tbl = "trace_put coll ?r tbl"
  have "thought_rows coll agent_id ?tbl = thought_rows coll agent_id tbl @ [?r]"
    using assms(2-4) by (simp add: thought_rows_put uq_agent_step_def row_of_trace_def)
  with assms(5) have "?r \<in> set (thought_rows coll agent_id ?tbl)"
    and "\<And>r'. r' \<in> set (thought_rows coll agent_id ?tbl) \<Longrightarrow>
      sint (row_step_index r') \<le> sint (row_step_index ?r)"
    by (auto simp: row_of_trace_def order_less_imp_le)
  from select_latest_thought_Some [OF trace_put_unique [OF assms(1)] this] show ?thesis
    by (simp add: trace_insert_no_fault assms(6) resume_agent_def row_of_trace_def)
qed

text \<open>
  Saving is enough to resume: once a \<open>thought\<close> whose step is free and above all the agent's
  earlier thoughts has been inserted, the agent resumes at that step with that payload.
\<close>

theorem insert_then_resume:
  assumes "traces_unique coll tbl"
    and "tr_event_type t = Thought" and "coll (tr_agent_id t) = coll agent_id"
    and "trace_lookup coll tbl (coll (tr_agent_id t), tr_step_index t) = None"
    and "\<forall>r \<in> set (thought_rows coll agent_id tbl). sint (row_step_index r) < sint (tr_step_index t)"
    and "trace_fits t"
  shows "resume_agent coll api None (snd (trace_insert coll None t tbl)) agent_id
    = Inr \<lparr>as_agent_id = agent_id, as_step_index = i32_to_i64 (tr_step_index t), as_state = tr_payload t\<rparr>"
  using assms by (rule thought_put_resumes)

theorem insert_then_resume_witness:
  "resume_agent id demo_json None (snd (trace_insert id None
      \<lparr>tr_agent_id = ''a1'', tr_step_index = 5, tr_event_type = Thought, tr_payload = ''p5''\<rparr> demo_tbl)) ''a1''
    = Inr \<lparr>as_agent_id = ''a1'', as_step_index = 5, as_state = ''p5''\<rparr>"
proof -
  let ?t = "\<lparr>tr_agent_id = ''a1'', tr_step_index = 5, tr_event_type = Thought, tr_payload = ''p5''\<rparr>"
  have "trace_lookup id demo_tbl (id (tr_agent_id ?t), tr_step_index ?t) = None"
    and "\<forall>r \<in> set (thought_rows id ''a1'' demo_tbl). sint (row_step_index r) < sint (tr_step_index ?t)"
    by (simp_all add: trace_lookup_def demo_tbl_def uq_agent_step_def thought_rows_def)
  moreover have "trace_fits ?t" by (simp add: trace_fits_def fits_column_def agent_id_width_def)
  ultimately show ?thesis
    using insert_then_resume [of id demo_tbl ?t "''a1''" demo_json] demo_tbl_unique
    by (simp add: i32_to_i64_def)
qed

text \<open>
  Agents do not see each other: inserting a trace of an agent that the collation tells apart from
  this one, or a trace that is not a \<open>thought\<close>, never changes what this agent resumes from, whatever
  the insert meets.
\<close>

theorem resume_isolated:
  assumes "honest_fault fault" and "coll (tr_agent_id t) \<noteq> coll agent_id \<or> tr_event_type t \<noteq> Thought"
  shows "resume_agent coll api f (snd (trace_insert coll fault t tbl)) agent_id
    = resume_agent coll api f tbl agent_id"
proof -
  have "as_db_str ty = ''thought'' \<longleftrightarrow> ty = Thought" for ty by (cases ty) simp_all
  with assms(2) have "thought_rows coll agent_id (trace_put coll (row_of_trace t) tbl)
      = thought_rows coll agent_id tbl"
    by (auto simp: thought_rows_put row_of_trace_def)
  then have "resume_agent coll api f (trace_put coll (row_of_trace t) tbl) agent_id
      = resume_agent coll api f tbl agent_id"
    by (rule resume_agent_cong)
  with trace_insert_table [OF assms(1), of coll t tbl] show ?thesis by auto
qed

theorem resume_isolated_witness:
  "resume_agent id demo_json None (snd (trace_insert id None
      \<lparr>tr_agent_id = ''a1'', tr_step_index = 50, tr_event_type = ToolCall, tr_payload = ''x''\<rparr> demo_tbl)) ''a1''
    = Inr \<lparr>as_agent_id = ''a1'', as_step_index = 4, as_state = ''p4''\<rparr>"
proof -
  let ?t = "\<lparr>tr_agent_id = ''a1'', tr_step_index = 50, tr_event_type = ToolCall, tr_payload = ''x''\<rparr>"
  have "honest_fault None" and "id (tr_agent_id ?t) \<noteq> id ''a1'' \<or> tr_event_type ?t \<noteq> Thought"
    by simp_all
  from resume_isolated [where coll = id, OF this, of demo_json None demo_tbl] show ?thesis
    by (simp add: demo_resume)
qed

end
