(* ===== verification/Server.thy ===== *)
theory Server
  imports Event_Store Agent_Manager Resurrection
begin

text \<open>
  \<open>src/bin/server.rs\<close>: the HTTP sidecar, its handlers, its routes and its start.  The matcher of
  \<open>axum\<close>'s router, which decides whether a path fits a route's pattern and what it captures, and the
  extractor that reads a request's body are parameters; a response is a status and, where the code
  gives one, a body.
\<close>

section \<open>Requests and responses\<close>

text \<open>The body types; a body that \<open>serde\<close> cannot read as one is rejected before the handler runs.\<close>

record 'v save_event_request =
  se_event_id :: string
  se_payload :: 'v

record 'v checkpoint_request =
  cp_step_index :: i32
  cp_state :: 'v

record 'v agent_state_response =
  rs_agent_id :: string
  rs_step_index :: i64
  rs_state :: 'v

type_synonym api_error = "nat \<times> string"

definition status_ok :: nat where [response_codes]: "status_ok = 200"
definition status_no_content :: nat where [response_codes]: "status_no_content = 204"
definition status_not_found :: nat where [response_codes]: "status_not_found = 404"
definition status_method_not_allowed :: nat where [response_codes]: "status_method_not_allowed = 405"
definition status_internal :: nat where [response_codes]: "status_internal = 500"

definition internal :: "string \<Rightarrow> api_error" where [response_codes]:
  "internal message = (status_internal, message)"

text \<open>The \<open>Display\<close> of the errors the handlers meet.\<close>

fun skialith_error_to_string :: "skialith_error \<Rightarrow> string" where
  "skialith_error_to_string Serialize = ''failed to serialize event payload''"
| "skialith_error_to_string (NatsConnect e) = ''nats connect failed''"
| "skialith_error_to_string (NatsPublish e) = ''nats publish failed''"
| "skialith_error_to_string (JetStreamPublish e) = ''jetstream publish failed''"
| "skialith_error_to_string (JetStream e) = ''jetstream stream error''"
| "skialith_error_to_string (Sqlx e) = ''tidb write failed''"
| "skialith_error_to_string QueueClosed = ''event queue is closed''"
| "skialith_error_to_string (Instance_Lock_error e) = ''instance lock: '' @ e"

fun manager_error_to_string :: "manager_error \<Rightarrow> string" where
  "manager_error_to_string Manager_Serialize = ''failed to serialize checkpoint state''"
| "manager_error_to_string (Manager_Publish e) = ''jetstream publish failed''"
| "manager_error_to_string (Manager_Ack e) = ''jetstream ack failed''"

fun resurrection_error_to_string :: "resurrection_error \<Rightarrow> string" where
  "resurrection_error_to_string (Resurrection_Sqlx e) = ''tidb query failed''"

section \<open>Handlers\<close>

text \<open>\<open>None\<close>: the handler has not answered yet.\<close>

definition handle_save_event ::
  "'v json_api \<Rightarrow> 'js publish \<Rightarrow> u32 \<Rightarrow> nat \<Rightarrow> (nat \<Rightarrow> int) \<Rightarrow> string \<Rightarrow> 'v save_event_request \<Rightarrow> 'js store_io
     \<Rightarrow> (api_error + nat) option \<times> 'js store_io" where
  "handle_save_event api publish limit fuel clock agent_id body io =
     (case save_event api publish limit fuel clock agent_id (se_event_id body) (se_payload body) io of
        (Done r, io') \<Rightarrow>
          (Some (res_bind (map_err (\<lambda>e. internal (skialith_error_to_string e)) r)
                   (\<lambda>_. Inr status_no_content)), io')
      | (_, io') \<Rightarrow> (None, io'))"

definition checkpoint_payload :: "'v json_api \<Rightarrow> 'v checkpoint_request \<Rightarrow> 'v" where
  "checkpoint_payload api body = jv_object api
     [(''step_index'', jv_int api (i32_to_i64 (cp_step_index body))), (''state'', cp_state body)]"

definition handle_checkpoint ::
  "'v json_api \<Rightarrow> 'js publish \<Rightarrow> string \<Rightarrow> 'v checkpoint_request \<Rightarrow> 'js \<Rightarrow> (api_error + nat) \<times> 'js" where
  "handle_checkpoint api publish agent_id body js =
     (let (r, js') = checkpoint_state api publish agent_id (checkpoint_payload api body) js
      in (res_bind (map_err (\<lambda>e. internal (manager_error_to_string e)) r) (\<lambda>_. Inr status_no_content), js'))"

definition handle_get_state ::
  "collation \<Rightarrow> 'v json_api \<Rightarrow> sqlx_error option \<Rightarrow> 'v trace_row list \<Rightarrow> string
     \<Rightarrow> api_error + 'v agent_state_response" where
  "handle_get_state coll api fault tbl agent_id =
     res_bind (map_err (\<lambda>e. internal (resurrection_error_to_string e)) (resume_agent coll api fault tbl agent_id))
       (\<lambda>st. Inr \<lparr>rs_agent_id = as_agent_id st, rs_step_index = as_step_index st, rs_state = as_state st\<rparr>)"

definition health :: nat where [response_codes]:
  "health = status_ok"

section \<open>Routes\<close>

datatype http_method = GET | HEAD | POST | Other_method string
datatype endpoint = Health | Save_event | Checkpoint | Get_state

definition routes :: "(string \<times> http_method \<times> endpoint) list" where
  "routes =
     [(''/health'', GET, Health),
      (''/agents/{agent_id}/events'', POST, Save_event),
      (''/agents/{agent_id}/checkpoint'', POST, Checkpoint),
      (''/agents/{agent_id}/state'', GET, Get_state)]"

type_synonym route_matcher = "string \<Rightarrow> string \<Rightarrow> (string \<times> string) list option"

text \<open>
  The router: no pattern fits, or the one that does is for another method, or its handler is called; a
  handler for GET also answers HEAD.  \<open>Path<String>\<close> needs exactly one capture; otherwise its rejection
  is a 500.
\<close>

definition method_fits :: "http_method \<Rightarrow> http_method \<Rightarrow> bool" where
  "method_fits m' m \<longleftrightarrow> m = m' \<or> m' = GET \<and> m = HEAD"

fun dispatch_among ::
  "route_matcher \<Rightarrow> (string \<times> http_method \<times> endpoint) list \<Rightarrow> http_method \<Rightarrow> string \<Rightarrow> nat + endpoint \<times> string"
where
  "dispatch_among matches [] m path = Inl status_not_found"
| "dispatch_among matches ((pattern, m', ep) # rs) m path =
     (case matches pattern path of
        None \<Rightarrow> dispatch_among matches rs m path
      | Some captures \<Rightarrow>
          if \<not> method_fits m' m then Inl status_method_not_allowed
          else if ep = Health then Inr (Health, [])
          else (case captures of [(_, agent_id)] \<Rightarrow> Inr (ep, agent_id) | _ \<Rightarrow> Inl status_internal))"

definition dispatch :: "route_matcher \<Rightarrow> http_method \<Rightarrow> string \<Rightarrow> nat + endpoint \<times> string" where
  "dispatch matches = dispatch_among matches routes"

section \<open>Serving\<close>

text \<open>
  What a request finds behind the router: the store, with what its calls change, and the database it
  resumes from.  The checkpoints go to the same JetStream as the events.
\<close>

record ('v, 'js) app_state =
  ap_store :: store
  ap_io :: "'js store_io"
  ap_tidb :: "'v trace_row list"

definition app_start :: "store \<Rightarrow> 'js \<Rightarrow> 'v trace_row list \<Rightarrow> ('v, 'js) app_state" where
  "app_start st js traces = \<lparr>ap_store = st, ap_io = store_io_start st js, ap_tidb = traces\<rparr>"

record http_request =
  rq_method :: http_method
  rq_path :: string
  rq_content_type :: "string option"
  rq_body :: bytes

text \<open>An answer: a bare status, the JSON of an \<open>ErrorResponse\<close> under a status, or the state of an agent.\<close>

datatype 'v http_response =
    Status nat
  | Error_response nat string
  | State_response "'v agent_state_response"

fun status_of :: "'v http_response \<Rightarrow> nat" where
  "status_of (Status n) = n"
| "status_of (Error_response n _) = n"
| "status_of (State_response _) = status_ok"

text \<open>
  The services and libraries that a request meets; \<open>Json<T>\<close> either gives the body as a \<open>T\<close> or the
  status of its rejection.
\<close>

record ('v, 'js) serving =
  sg_coll :: collation
  sg_api :: "'v json_api"
  sg_publish :: "'js publish"
  sg_matches :: route_matcher
  sg_json_event :: "http_request \<Rightarrow> nat + 'v save_event_request"
  sg_json_checkpoint :: "http_request \<Rightarrow> nat + 'v checkpoint_request"

definition answer :: "api_error + nat \<Rightarrow> 'v http_response" where
  "answer r = (case r of Inl (status, message) \<Rightarrow> Error_response status message | Inr status \<Rightarrow> Status status)"

definition state_answer :: "api_error + 'v agent_state_response \<Rightarrow> 'v http_response" where
  "state_answer r = (case r of Inl (status, message) \<Rightarrow> Error_response status message | Inr st \<Rightarrow> State_response st)"

text \<open>One request; \<open>None\<close>: not answered yet.  The answer to a HEAD request has no body.\<close>

definition serve ::
  "('v, 'js) serving \<Rightarrow> nat \<Rightarrow> (nat \<Rightarrow> int) \<Rightarrow> sqlx_error option \<Rightarrow> http_request \<Rightarrow> ('v, 'js) app_state
     \<Rightarrow> 'v http_response option \<times> ('v, 'js) app_state" where
  "serve sg fuel clock fault rq app =
     (case dispatch (sg_matches sg) (rq_method rq) (rq_path rq) of
        Inl status \<Rightarrow> (Some (Status status), app)
      | Inr (Health, _) \<Rightarrow> (Some (Status health), app)
      | Inr (Save_event, agent_id) \<Rightarrow>
          (case sg_json_event sg rq of
             Inl rejection \<Rightarrow> (Some (Status rejection), app)
           | Inr body \<Rightarrow>
               (let (r, io') = handle_save_event (sg_api sg) (sg_publish sg) (st_rate_limit (ap_store app))
                      fuel clock agent_id body (ap_io app)
                in (map_option answer r, app\<lparr>ap_io := io'\<rparr>)))
      | Inr (Checkpoint, agent_id) \<Rightarrow>
          (case sg_json_checkpoint sg rq of
             Inl rejection \<Rightarrow> (Some (Status rejection), app)
           | Inr body \<Rightarrow>
               (let (r, js') = handle_checkpoint (sg_api sg) (sg_publish sg) agent_id body (io_js (ap_io app))
                in (Some (answer r), app\<lparr>ap_io := (ap_io app)\<lparr>io_js := js'\<rparr>\<rparr>)))
      | Inr (Get_state, agent_id) \<Rightarrow>
          (let r = state_answer (handle_get_state (sg_coll sg) (sg_api sg) fault (ap_tidb app) agent_id)
           in (Some (if rq_method rq = HEAD then Status (status_of r) else r), app)))"

section \<open>Start\<close>

definition server_nats_url :: "string option \<Rightarrow> string" where
  "server_nats_url var = (case var of None \<Rightarrow> ''nats://127.0.0.1:4222'' | Some u \<Rightarrow> u)"

definition server_port :: "string option \<Rightarrow> u16 option" where
  "server_port var = parse_u16 (case var of None \<Rightarrow> ''8080'' | Some s \<Rightarrow> s)"

record server_env =
  sv_tidb_url :: "string option"
  sv_port :: "string option"
  sv_connect :: connect_env
  sv_second_nats :: "string option"
  sv_bind :: "string option"

text \<open>
  \<open>main\<close> up to \<open>axum::serve\<close>: a missing variable panics, an error of a service ends the process, as the
  error that \<open>main\<close> returns and that the runtime prints in its \<open>Debug\<close> form.
\<close>

datatype main_error = Store_error skialith_error | Nats_error string | Io_error string
datatype server_start = Panicked | Failed main_error | Listening u16 store

definition server_main ::
  "bool \<Rightarrow> 'k license_crates \<Rightarrow> 'kv kv_api \<Rightarrow> server_env \<Rightarrow> 'kv \<Rightarrow> server_start \<times> 'kv" where
  "server_main managed crates api env kv =
     (case sv_tidb_url env of
        None \<Rightarrow> (Panicked, kv)
      | Some _ \<Rightarrow>
     (case server_port (sv_port env) of
        None \<Rightarrow> (Panicked, kv)
      | Some port \<Rightarrow>
     (case connect managed crates api (sv_connect env) config_default kv of
        (None, kv') \<Rightarrow> (Panicked, kv')
      | (Some (Inl e), kv') \<Rightarrow> (Failed (Store_error e), kv')
      | (Some (Inr st), kv') \<Rightarrow>
          (case sv_second_nats env of
             Some e \<Rightarrow> (Failed (Nats_error e), kv')
           | None \<Rightarrow>
               (case sv_bind env of
                  Some e \<Rightarrow> (Failed (Io_error e), kv')
                | None \<Rightarrow> (Listening port st, kv'))))))"

section \<open>Routing\<close>

text \<open>
  The documented matching of \<open>axum\<close> 0.7, the version that is locked: a capture is written \<open>:name\<close> and a
  wildcard \<open>*name\<close>, and a pattern with neither fits only itself.
\<close>

definition matcher_0_7 :: "route_matcher \<Rightarrow> bool" where
  "matcher_0_7 matches \<longleftrightarrow>
     (\<forall>pattern path. CHR '':'' \<notin> set pattern \<longrightarrow> CHR ''*'' \<notin> set pattern \<longrightarrow>
        matches pattern path = (if path = pattern then Some [] else None))"

text \<open>The paths of an agent and the patterns, told apart by their ends.\<close>

definition agent_path :: "string \<Rightarrow> string \<Rightarrow> string" where
  "agent_path a q = ''/agents/'' @ a @ ''/'' @ q"

lemma agent_path_eq_iff: "agent_path a q = agent_path b q \<longleftrightarrow> a = b"
  by (simp add: agent_path_def)

lemma agent_path_last: "q \<noteq> [] \<Longrightarrow> last (agent_path a q) = last q"
  by (simp add: agent_path_def)

lemma neq_by_last: "last x \<noteq> last y \<Longrightarrow> x \<noteq> y"
  by auto

lemma agent_pattern_paths:
  "''/agents/{agent_id}/events'' = agent_path ''{agent_id}'' ''events''"
  "''/agents/{agent_id}/checkpoint'' = agent_path ''{agent_id}'' ''checkpoint''"
  "''/agents/{agent_id}/state'' = agent_path ''{agent_id}'' ''state''"
  by (simp_all add: agent_path_def)

lemma dispatch_0_7:
  assumes "matcher_0_7 matches"
  shows "dispatch matches m path =
      (if path = ''/health'' then (if method_fits GET m then Inr (Health, []) else Inl 405)
       else if path = agent_path ''{agent_id}'' ''events'' then Inl (if m = POST then 500 else 405)
       else if path = agent_path ''{agent_id}'' ''checkpoint'' then Inl (if m = POST then 500 else 405)
       else if path = agent_path ''{agent_id}'' ''state'' then Inl (if method_fits GET m then 500 else 405)
       else Inl 404)"
proof -
  have match: "matches pattern path = (if path = pattern then Some [] else None)"
    if "CHR '':'' \<notin> set pattern" "CHR ''*'' \<notin> set pattern" for pattern
    using assms that unfolding matcher_0_7_def by blast
  show ?thesis
    by (simp add: dispatch_def routes_def match response_codes method_fits_def flip: agent_pattern_paths)
qed

lemma dispatch_agent_path:
  assumes "matcher_0_7 matches" and "a \<noteq> ''{agent_id}''" and "q \<in> {''events'', ''checkpoint'', ''state''}"
  shows "dispatch matches m (agent_path a q) = Inl 404"
proof -
  have ends: "last (agent_path a q) = last q" for a using assms(3) by (auto intro: agent_path_last)
  have "agent_path a q \<noteq> ''/health''"
    using assms(3) by (intro neq_by_last) (auto simp: ends)
  moreover have "agent_path a q \<noteq> agent_path ''{agent_id}'' q'"
    if "q' \<in> {''events'', ''checkpoint'', ''state''}" for q'
  proof (cases "q = q'")
    case True
    with assms(2) show ?thesis by (simp add: agent_path_eq_iff)
  next
    case False
    with assms(3) that show ?thesis by (intro neq_by_last) (auto simp: agent_path_last)
  qed
  ultimately show ?thesis by (simp add: dispatch_0_7 [OF assms(1)])
qed

text \<open>
  C31.  Under the locked version of the router no request ever changes anything: only \<open>/health\<close> is
  answered with 200, all other requests with 404, 405 or 500, the store, JetStream and the queue stay
  as they are, and the three requests of every agent (but one literally called \<open>{agent_id}\<close>) are
  answered with 404, by whatever method.
\<close>

theorem served_in_vain:
  assumes "matcher_0_7 (sg_matches sg)" and "serve sg fuel clock fault rq app = (response, app')"
  shows "app' = app
    \<and> (response = Some (Status 200) \<and> rq_path rq = ''/health''
       \<or> response \<in> {Some (Status 404), Some (Status 405), Some (Status 500)})
    \<and> (rq_path rq \<in> (\<lambda>q. ''/agents/'' @ a @ ''/'' @ q) ` {''events'', ''checkpoint'', ''state''}
         \<and> a \<noteq> ''{agent_id}'' \<longrightarrow> response = Some (Status 404))"
proof -
  have "dispatch (sg_matches sg) (rq_method rq) (rq_path rq) = Inl 404"
    if "rq_path rq \<in> (\<lambda>q. ''/agents/'' @ a @ ''/'' @ q) ` {''events'', ''checkpoint'', ''state''}" "a \<noteq> ''{agent_id}''"
    using that dispatch_agent_path [OF assms(1) that(2)] by (auto simp: agent_path_def)
  with assms(2) show ?thesis
    by (auto simp: serve_def dispatch_0_7 [OF assms(1)] health_def status_ok_def split: if_splits)
qed

definition literal_matcher :: route_matcher where
  "literal_matcher pattern path = (if path = pattern then Some [] else None)"

lemma literal_matcher_0_7: "matcher_0_7 literal_matcher"
  by (simp add: matcher_0_7_def literal_matcher_def)

definition demo_serving :: "route_matcher \<Rightarrow> (string, wal_msg list) serving" where
  "demo_serving matches = \<lparr>sg_coll = id, sg_api = demo_json, sg_publish = demo_publish, sg_matches = matches,
     sg_json_event = (\<lambda>rq. Inr \<lparr>se_event_id = ''e'', se_payload = rq_body rq\<rparr>),
     sg_json_checkpoint = (\<lambda>rq. Inr \<lparr>cp_step_index = 3, cp_state = rq_body rq\<rparr>)\<rparr>"

definition demo_request :: "http_method \<Rightarrow> string \<Rightarrow> http_request" where
  "demo_request m path = \<lparr>rq_method = m, rq_path = path, rq_content_type = Some ''application/json'', rq_body = ''p''\<rparr>"

definition demo_app :: "(string, wal_msg list) app_state" where
  "demo_app = app_start \<lparr>st_writers = [\<lparr>wt_cfg = config_default, wt_capacity = 10000, wt_dead_letter = False\<rparr>],
     st_enqueue_tx = 0, st_dead_letter_tx = False, st_rate_limiter = rate_limiter_default,
     st_rate_limit = u32_MAX, st_instance_lock = None\<rparr> [] []"

theorem served_in_vain_witness:
  "serve (demo_serving literal_matcher) 0 (\<lambda>_. 0) None (demo_request POST ''/agents/a1/events'') demo_app
     = (Some (Status 404), demo_app)"
proof -
  have "matcher_0_7 (sg_matches (demo_serving literal_matcher))"
    by (simp add: demo_serving_def literal_matcher_0_7)
  from served_in_vain [OF this prod.collapse [symmetric], of 0 "\<lambda>_. 0" None "demo_request POST ''/agents/a1/events''"
      demo_app "''a1''"]
  show ?thesis by (simp add: demo_request_def prod_eq_iff)
qed

section \<open>Handlers\<close>

text \<open>
  C32.  The answer to \<open>POST .../events\<close>: 204 means that the event is in the log and in the queue, and
  nothing else is ever answered than a 500, with the error's text, after which nothing was queued,
  although the event may be in the log.
\<close>

theorem save_response:
  assumes "js_durable publish log"
    and "handle_save_event api publish limit fuel clock agent_id body io = (Some response, io')"
  shows "\<exists>b. (response = Inr 204
        \<and> to_vec api (envelope api agent_id (se_event_id body) (se_payload body)) = Some b
        \<and> log (io_js io') = log (io_js io) @ [event_msg agent_id b]
        \<and> q_items (io_queue io') = q_items (io_queue io) @ [pending_of agent_id (se_event_id body) b])
      \<or> ((\<exists>e. response = Inl (500, skialith_error_to_string e)) \<and> io_queue io' = io_queue io
        \<and> log (io_js io') \<in> {log (io_js io), log (io_js io) @ [event_msg agent_id b]})"
proof -
  obtain r where save: "save_event api publish limit fuel clock agent_id (se_event_id body) (se_payload body) io
      = (Done r, io')"
    and response: "response = res_bind (map_err (\<lambda>e. internal (skialith_error_to_string e)) r)
      (\<lambda>_. Inr status_no_content)"
    using assms(2) by (auto simp: handle_save_event_def split: prod.splits save_call.splits)
  from assms(1) save show ?thesis
  proof (cases rule: save_event_cases)
    case (published b io2)
    then show ?thesis
      by (intro exI [of _ b])
         (auto simp: response response_codes enqueue_def Let_def
           split: if_splits simp del: skialith_error_to_string.simps)
  qed (auto simp: response response_codes simp del: skialith_error_to_string.simps)
qed

theorem save_response_witness:
  "\<exists>b. q_items (io_queue (snd (handle_save_event demo_json demo_publish u32_MAX 0 (\<lambda>_. 0) ''a''
      \<lparr>se_event_id = ''e'', se_payload = ''p''\<rparr> (demo_io True)))) = [pending_of ''a'' ''e'' b]"
proof -
  let ?body = "\<lparr>se_event_id = ''e'', se_payload = ''p''\<rparr>"
  let ?run = "handle_save_event demo_json demo_publish u32_MAX 0 (\<lambda>_. 0) ''a'' ?body (demo_io True)"
  have "?run = (Some (Inr 204), snd ?run)"
    by (simp add: handle_save_event_def demo_save response_codes)
  from save_response [OF demo_publish_durable this] show ?thesis by (auto simp: demo_io_def)
qed

text \<open>
  C33.  The answer to \<open>POST .../checkpoint\<close>: 204 means that the log has gained one message, under the
  agent's checkpoint subject and with the text of an object whose \<open>step_index\<close> reads back as the signed
  step of the request and whose \<open>state\<close> is the request's; anything else is a 500.
\<close>

theorem checkpoint_response:
  assumes "json_laws api" and "js_durable publish log"
    and "handle_checkpoint api publish agent_id body js = (response, js')"
  shows "(response = Inr 204 \<and> (\<exists>v p n. to_vec api v = Some p \<and> log js' = log js @ [checkpoint_msg agent_id p]
        \<and> Option.bind (jv_get api v ''step_index'') (jv_as_i64 api) = Some n \<and> sint n = sint (cp_step_index body)
        \<and> jv_get api v ''state'' = Some (cp_state body)))
    \<or> (\<exists>e. response = Inl (500, manager_error_to_string e))"
proof -
  let ?v = "checkpoint_payload api body"
  obtain r where run: "checkpoint_state api publish agent_id ?v js = (r, js')"
    and response: "response = res_bind (map_err (\<lambda>e. internal (manager_error_to_string e)) r)
      (\<lambda>_. Inr status_no_content)"
    using assms(3) by (auto simp: handle_checkpoint_def split: prod.splits)
  have step: "Option.bind (jv_get api ?v ''step_index'') (jv_as_i64 api) = Some (i32_to_i64 (cp_step_index body))"
    and state: "jv_get api ?v ''state'' = Some (cp_state body)"
    using assms(1) by (simp_all add: checkpoint_payload_def json_get_object json_as_i64_int)
  have wide: "sint (i32_to_i64 (cp_step_index body)) = sint (cp_step_index body)"
    by (simp add: i32_to_i64_def sint_up_scast is_up)
  show ?thesis
  proof (cases r)
    case (Inl e)
    then show ?thesis by (auto simp: response response_codes)
  next
    case (Inr u)
    with run checkpoint_state_Ok [OF assms(2), of api agent_id ?v js js'] obtain p
      where "to_vec api ?v = Some p" "log js' = log js @ [checkpoint_msg agent_id p]" by auto
    with step state wide Inr show ?thesis by (auto simp: response response_codes)
  qed
qed

theorem checkpoint_response_witness:
  "\<exists>p. snd (handle_checkpoint demo_json demo_publish ''a'' \<lparr>cp_step_index = 3, cp_state = ''s''\<rparr> [])
    = [checkpoint_msg ''a'' p]"
proof -
  let ?run = "handle_checkpoint demo_json demo_publish ''a'' \<lparr>cp_step_index = 3, cp_state = ''s''\<rparr> []"
  have "fst ?run = Inr 204"
    by (simp add: handle_checkpoint_def checkpoint_state_def demo_publish_def published_def
        checkpoint_subject_def response_codes)
  then have "?run = (Inr 204, snd ?run)" by (simp add: prod_eq_iff)
  from checkpoint_response [OF demo_json_laws demo_publish_durable this] show ?thesis by auto
qed

section \<open>The port\<close>

fun decimal :: "nat \<Rightarrow> string" where
  "decimal n = (if n < 10 then [char_of (48 + n)] else decimal (n div 10) @ [char_of (48 + n mod 10)])"

declare decimal.simps [simp del]

lemma digit_val_char_of: "d < 10 \<Longrightarrow> digit_val (char_of (48 + d)) = Some d"
  by (simp add: digit_val_def Let_def)

lemma decimal_digits: "c \<in> set (decimal n) \<Longrightarrow> digit_val c \<noteq> None"
proof (induction n rule: decimal.induct)
  case (1 n)
  then show ?case
    by (subst (asm) (2) decimal.simps) (auto simp: digit_val_char_of split: if_splits)
qed

lemma decimal_not_Nil: "decimal n \<noteq> []"
  by (subst decimal.simps) simp

lemma parse_digits_append:
  "parse_digits acc (xs @ ys) = Option.bind (parse_digits acc xs) (\<lambda>n. parse_digits n ys)"
  by (induction xs arbitrary: acc) (auto split: option.splits)

lemma parse_digits_decimal: "parse_digits 0 (decimal n) = (if n < 2 ^ 16 then Some n else None)"
proof (induction n rule: decimal.induct)
  case (1 n)
  show ?case
  proof (cases "n < 10")
    case True
    then show ?thesis by (subst decimal.simps) (simp add: digit_val_char_of)
  next
    case False
    have "n div 10 * 10 + n mod 10 = n" by simp
    moreover have "n < 2 ^ 16 \<Longrightarrow> n div 10 < 2 ^ 16" by simp
    ultimately show ?thesis using 1 [OF False] False
      by (subst decimal.simps) (simp add: parse_digits_append digit_val_char_of)
  qed
qed

text \<open>
  Every port can be configured by its decimal digits, and no number that is not a port is
  accepted: \<open>SERVER_PORT\<close> written in decimal is read back as itself below \<open>2 ^ 16\<close> and is refused, with a
  panic, from there on; an unset variable means 8080.
\<close>

theorem port_roundtrip:
  "server_port (Some (decimal n)) = (if n < 65536 then Some (of_nat n) else None)
   \<and> server_port None = Some 8080
   \<and> server_port (Some []) = None"
proof -
  have "decimal n \<noteq> CHR ''+'' # rest" for rest
    using decimal_digits [of "CHR ''+''" n] by (auto simp: digit_val_def)
  then have "(case decimal n of CHR ''+'' # rest \<Rightarrow> rest | _ \<Rightarrow> decimal n) = decimal n"
    by (auto split: list.splits char.splits bool.splits)
  then have "parse_u16 (decimal n) = (if n < 65536 then Some (of_nat n) else None)"
    by (simp add: parse_u16_def Let_def decimal_not_Nil parse_digits_decimal)
  moreover have "server_port None = Some 8080"
    by (simp add: server_port_def parse_u16_def digit_val_def)
  moreover have "server_port (Some []) = None" by (simp add: server_port_def parse_u16_def)
  ultimately show ?thesis by (simp add: server_port_def)
qed

section \<open>A second server\<close>

text \<open>
  C39.  One Community server at a time: once a server without the HA right listens, any other one that
  is started without it within the next 30 s, and that reaches a NATS server which refuses no call that
  may succeed, ends with the lock's error, even if the first has not refreshed the lock by then (any
  refresh only prolongs this); and a server that panics over its own variables has not touched the lock.
\<close>

theorem second_server_refused:
  assumes "kv_laws api vw" and "kv_reliable api vw" and "kv_seq vw kv + 1 \<noteq> 0"
    and "server_main managed crates api env kv = (Listening port st, kv')"
    and "\<not> allows_ha (ce_now_ha (sv_connect env)) (load crates (ce_license_var (sv_connect env)))"
    and "\<not> allows_ha (ce_now_ha (sv_connect env')) (load crates (ce_license_var (sv_connect env')))"
    and "ce_nats (sv_connect env') = None" and "d < 30000"
  shows "let kv2 = kv_elapse vw d kv'; second = server_main managed crates api env' kv2
    in if sv_tidb_url env' = None \<or> server_port (sv_port env') = None then second = (Panicked, kv2)
       else fst second = Failed (Store_error (Instance_Lock_error (lock_error_to_string AlreadyRunning)))"
proof -
  obtain hb where "acquire api False kv = (Inr hb, kv')"
    using assms(4,5)
    by (auto simp: server_main_def connect_def Let_def split: option.splits prod.splits sum.splits)
  note took = acquire_Ok [OF assms(1) this]
  let ?kv = "kv_elapse vw d kv'"
  have live: "kv_revision vw ?kv LOCK_KEY \<noteq> 0"
    using took(3) assms(3,8) by (simp add: kv_revision_def elapse_view [OF assms(1)] LOCK_TTL_def)
  have bucket: "kv_bucket vw ?kv = Some lock_config"
    using took(5) by (simp add: elapse_view [OF assms(1)])
  obtain r kv2 where second: "acquire api False ?kv = (r, kv2)" by fastforce
  from acquire_held(5) [OF assms(1) live this assms(2) bucket] second assms(6,7)
  have refused: "connect managed crates api (sv_connect env') config_default ?kv
      = (Some (Inl (Instance_Lock_error (lock_error_to_string AlreadyRunning))), kv2)"
    by (simp add: connect_def Let_def)
  show ?thesis
    unfolding Let_def server_main_def refused
    by (cases "sv_tidb_url env'"; cases "server_port (sv_port env')")
       (simp_all del: lock_error_to_string.simps)
qed

definition demo_server :: "string \<Rightarrow> server_env" where
  "demo_server port = \<lparr>sv_tidb_url = Some ''mysql://db'', sv_port = Some port, sv_connect = demo_env None None,
     sv_second_nats = None, sv_bind = None\<rparr>"

theorem second_server_refused_witness:
  "let kv' = snd (server_main False demo_crates demo_kv_api (demo_server ''80'') demo_fresh)
   in fst (server_main False demo_crates demo_kv_api (demo_server ''81'') (kv_elapse demo_view 9 kv'))
      = Failed (Store_error (Instance_Lock_error (lock_error_to_string AlreadyRunning)))"
proof -
  obtain kv1 where took: "acquire demo_kv_api False demo_fresh = (Inr (Beating 1), kv1)"
    by (rule demo_fresh_acquire)
  obtain st where st: "store_new False config_default (effective_rate_limit 0 None) (Some (Beating 1)) = Some st"
    by (simp add: store_new_Some config_default_def)
  have ports: "server_port (Some ''80'') = Some 80" "server_port (Some ''81'') = Some 81"
    by (simp_all add: server_port_def parse_u16_def digit_val_def)
  from took st ports(1) have run: "server_main False demo_crates demo_kv_api (demo_server ''80'') demo_fresh
      = (Listening 80 st, kv1)"
    by (simp add: server_main_def demo_server_def connect_eval)
  have seq: "kv_seq demo_view demo_fresh + 1 \<noteq> 0" by (simp add: demo_view_def demo_fresh_def)
  have community: "\<not> allows_ha (ce_now_ha (sv_connect (demo_server p)))
      (load demo_crates (ce_license_var (sv_connect (demo_server p))))" for p
    by (simp add: demo_server_def demo_env_def load_def allows_ha_def)
  have "ce_nats (sv_connect (demo_server ''81'')) = None" by (simp add: demo_server_def demo_env_def)
  from second_server_refused [OF demo_kv_laws demo_kv_reliable seq run community community this, of 9]
  show ?thesis unfolding run by (simp add: Let_def demo_server_def ports del: lock_error_to_string.simps)
qed

end
