(* ===== verification/System.thy ===== *)
theory System
  imports Server
begin

text \<open>
  The sidecar as a whole: the requests, the writer task, the queue between them, JetStream and the two
  tables, as one step relation in which any request, receive, tick or crash may come next.  It ties the
  components together: what the queue and the database hold against what the log holds, what becomes of
  a saved event, and what a restarted agent is given.
\<close>

section \<open>The step relation\<close>

text \<open>The fixed surroundings of a run.\<close>

record ('v, 'js) world =
  wd_api :: "'v json_api"
  wd_publish :: "'js publish"
  wd_log :: "'js \<Rightarrow> wal_msg list"
  wd_coll :: collation
  wd_lossy :: "bytes \<Rightarrow> string"
  wd_delays :: "millis list"
  wd_dead_letter :: bool
  wd_cfg :: skialith_config
  wd_limit :: u32

text \<open>
  The state: the store's limiter, JetStream and queue; the saves that wait for room in the queue; the
  writer with the table \<open>agent_events\<close>; the table \<open>agent_traces\<close>.  \<open>sc_saved\<close> (the events for which
  \<open>save_event\<close> has returned \<open>Ok\<close>) and \<open>sc_crashed\<close> are history.
\<close>

record ('v, 'js) sidecar =
  sc_io :: "'js store_io"
  sc_waiting :: "pending_event list"
  sc_writer :: writer
  sc_traces :: "'v trace_row list"
  sc_saved :: "pending_event list"
  sc_crashed :: bool

definition after_save :: "save_call \<Rightarrow> pending_event \<Rightarrow> ('v, 'js) sidecar \<Rightarrow> ('v, 'js) sidecar" where
  "after_save out ev s =
     (case out of
        Done (Inr _) \<Rightarrow> s\<lparr>sc_saved := sc_saved s @ [ev]\<rparr>
      | Awaiting_room ev' \<Rightarrow> s\<lparr>sc_waiting := sc_waiting s @ [ev']\<rparr>
      | _ \<Rightarrow> s)"

definition select_world :: "('v, 'js) world \<Rightarrow> select_input \<Rightarrow> writer \<Rightarrow> writer" where
  "select_world wd = writer_select (wd_coll wd) (wd_lossy wd) (wd_delays wd) (wd_dead_letter wd) (wd_cfg wd)"

inductive sidecar_step :: "('v, 'js) world \<Rightarrow> ('v, 'js) sidecar \<Rightarrow> ('v, 'js) sidecar \<Rightarrow> bool"
  for wd :: "('v, 'js) world" where
  save: "save_event (wd_api wd) (wd_publish wd) (wd_limit wd) fuel clock agent_id event_id payload (sc_io s)
      = (out, io') \<Longrightarrow>
    sidecar_step wd s (after_save out (last (q_items (io_queue io'))) (s\<lparr>sc_io := io'\<rparr>))"
| room: "ev \<in> set (sc_waiting s) \<Longrightarrow> enqueue ev (sc_io s) = (out, io') \<Longrightarrow>
    sidecar_step wd s (after_save out ev (s\<lparr>sc_io := io', sc_waiting := remove1 ev (sc_waiting s)\<rparr>))"
| checkpoint: "handle_checkpoint (wd_api wd) (wd_publish wd) agent_id body (io_js (sc_io s)) = (response, js') \<Longrightarrow>
    sidecar_step wd s (s\<lparr>sc_io := (sc_io s)\<lparr>io_js := js'\<rparr>\<rparr>)"
| receive: "q_items (io_queue (sc_io s)) = ev # items \<Longrightarrow>
    sidecar_step wd s (s\<lparr>sc_io := (sc_io s)\<lparr>io_queue := (io_queue (sc_io s))\<lparr>q_items := items\<rparr>\<rparr>,
      sc_writer := select_world wd (Recv ev fw) (sc_writer s)\<rparr>)"
| tick: "sidecar_step wd s (s\<lparr>sc_writer := select_world wd (Tick fw) (sc_writer s)\<rparr>)"
| crash: "sidecar_step wd s (s\<lparr>
      sc_io := (sc_io s)\<lparr>io_limiter := rate_limiter_default, io_queue := (io_queue (sc_io s))\<lparr>q_items := []\<rparr>\<rparr>,
      sc_waiting := [], sc_writer := (sc_writer s)\<lparr>w_batch := []\<rparr>, sc_crashed := True\<rparr>)"

inductive_cases sidecar_stepE: "sidecar_step wd s s'"

definition sidecar_init :: "event_row list \<Rightarrow> 'v trace_row list \<Rightarrow> ('v, 'js) sidecar \<Rightarrow> bool" where
  "sidecar_init events traces s \<longleftrightarrow> q_items (io_queue (sc_io s)) = [] \<and> sc_waiting s = []
     \<and> sc_writer s = writer_init events \<and> sc_traces s = traces \<and> sc_saved s = [] \<and> \<not> sc_crashed s"

section \<open>Invariants\<close>

definition msg_of :: "pending_event \<Rightarrow> wal_msg" where
  "msg_of ev = event_msg (pe_agent_id ev) (pe_payload_json ev)"

definition logged :: "('v, 'js) world \<Rightarrow> ('v, 'js) sidecar \<Rightarrow> pending_event set" where
  "logged wd s = {ev. msg_of ev \<in> set (wd_log wd (io_js (sc_io s)))}"

definition held :: "writer \<Rightarrow> pending_event set" where
  "held w = set (w_batch w) \<union> set (concat (w_dead w)) \<union> set (w_lost w)"

text \<open>The database is behind the log, and (until a crash) no saved event is unaccounted for.\<close>

definition behind_log :: "('v, 'js) world \<Rightarrow> event_row list \<Rightarrow> ('v, 'js) sidecar \<Rightarrow> bool" where
  "behind_log wd events s \<longleftrightarrow>
     set (q_items (io_queue (sc_io s))) \<union> set (sc_waiting s) \<union> held (sc_writer s) \<union> set (sc_saved s) \<subseteq> logged wd s
     \<and> set (w_events (sc_writer s)) \<subseteq> set events \<union> row_of_event (wd_lossy wd) ` logged wd s"

definition accounted :: "('v, 'js) world \<Rightarrow> ('v, 'js) sidecar \<Rightarrow> bool" where
  "accounted wd s \<longleftrightarrow> sc_crashed s \<or>
     mset (push_values (wd_lossy wd) (sc_saved s)) \<subseteq>#
       booked (wd_lossy wd) (sc_writer s) + mset (push_values (wd_lossy wd) (q_items (io_queue (sc_io s))))"

definition sidecar_inv :: "('v, 'js) world \<Rightarrow> event_row list \<Rightarrow> 'v trace_row list \<Rightarrow> ('v, 'js) sidecar \<Rightarrow> bool" where
  "sidecar_inv wd events traces s \<longleftrightarrow> behind_log wd events s \<and> accounted wd s \<and> sc_traces s = traces"

lemma flush_held:
  "held (flush_batch_with_retry coll lossy delays dl fw w) \<subseteq> held w"
  "set (w_events (flush_batch_with_retry coll lossy delays dl fw w))
     \<subseteq> set (w_events w) \<union> row_of_event lossy ` set (w_batch w)"
  by (cases rule: flush_settles [of coll lossy delays dl fw w];
      auto simp: held_def given_up_def stored_all_def push_values_def)+

lemma select_held:
  assumes w'_def: "w' = writer_select coll lossy delays dl cfg i w"
  shows "held w' \<subseteq> held w \<union> set (received [i])
    \<and> set (w_events w') \<subseteq> set (w_events w) \<union> row_of_event lossy ` (held w \<union> set (received [i]))"
proof (cases i)
  case (Recv ev fw)
  let ?w = "w\<lparr>w_batch := w_batch w @ [ev]\<rparr>"
  have "held ?w \<subseteq> held w \<union> {ev}" and "set (w_batch w) \<subseteq> held w" by (auto simp: held_def)
  with flush_held [of coll lossy delays dl fw ?w] image_mono [OF this(2), of "row_of_event lossy"]
  have "held (flush_batch_with_retry coll lossy delays dl fw ?w) \<subseteq> held w \<union> {ev}"
    and "set (w_events (flush_batch_with_retry coll lossy delays dl fw ?w))
      \<subseteq> set (w_events w) \<union> row_of_event lossy ` (held w \<union> {ev})" by (simp_all, blast+)
  with \<open>held ?w \<subseteq> held w \<union> {ev}\<close> show ?thesis by (simp add: w'_def Recv Let_def) blast
next
  case (Tick fw)
  have "set (w_batch w) \<subseteq> held w" by (auto simp: held_def)
  with flush_held [of coll lossy delays dl fw w] image_mono [OF this, of "row_of_event lossy"] show ?thesis
    by (simp add: w'_def Tick flush_if_pending_def) blast
qed

lemma select_world_held:
  "held (select_world wd i w) \<subseteq> held w \<union> set (received [i])"
  "set (w_events (select_world wd i w))
     \<subseteq> set (w_events w) \<union> row_of_event (wd_lossy wd) ` (held w \<union> set (received [i]))"
  using select_held [OF refl, of "wd_coll wd" "wd_lossy wd" "wd_delays wd" "wd_dead_letter wd" "wd_cfg wd" i w]
  by (simp_all add: select_world_def)

lemma select_world_books:
  "booked (wd_lossy wd) w + mset (push_values (wd_lossy wd) (received [i]))
     \<subseteq># booked (wd_lossy wd) (select_world wd i w)"
  using writer_select_books by (simp add: select_world_def inflow_def)

text \<open>What a save leaves behind.\<close>

lemma enqueue_cases:
  assumes "enqueue ev io = (out, io')"
  obtains (closed) "out = Done (Inl QueueClosed)" "io' = io"
  | (accepted) "out = Done (Inr ())" "io_js io' = io_js io" "q_items (io_queue io') = q_items (io_queue io) @ [ev]"
  | (full) "out = Awaiting_room ev" "io' = io"
  using assms by (auto simp: enqueue_def Let_def split: if_splits)

lemma save_event_effect:
  assumes "js_durable publish log"
    and "save_event api publish limit fuel clock agent_id event_id payload io = (out, io')"
  obtains (accepted) ev where "out = Done (Inr ())" "q_items (io_queue io') = q_items (io_queue io) @ [ev]"
      "log (io_js io') = log (io_js io) @ [msg_of ev]"
  | (waiting) ev where "out = Awaiting_room ev" "q_items (io_queue io') = q_items (io_queue io)"
      "log (io_js io') = log (io_js io) @ [msg_of ev]"
  | (refused) ms where "out \<noteq> Done (Inr ())" "\<And>ev. out \<noteq> Awaiting_room ev"
      "q_items (io_queue io') = q_items (io_queue io)" "log (io_js io') = log (io_js io) @ ms" "length ms \<le> 1"
  using assms
proof (cases rule: save_event_cases)
  case (published b io2)
  have "msg_of (pending_of agent_id event_id b) = event_msg agent_id b" by (simp add: msg_of_def pending_of_def)
  with published(2,3) have log: "log (io_js io2) = log (io_js io) @ [msg_of (pending_of agent_id event_id b)]"
    and queue: "q_items (io_queue io2) = q_items (io_queue io)" by simp_all
  from published(4) show ?thesis
  proof (cases rule: enqueue_cases)
    case closed
    with log queue show ?thesis by (intro refused [of "[_]"]) auto
  next
    case enq: accepted
    with log queue show ?thesis by (intro accepted) simp_all
  next
    case full
    with log queue show ?thesis by (intro waiting) simp_all
  qed
next
  case (unpublished e b)
  then show ?thesis by (auto intro: refused [of "[]"] refused [of "[_]"])
qed (auto intro: refused [of "[]"])

lemma checkpoint_log_grows:
  assumes "js_durable publish log" and "handle_checkpoint api publish agent_id body js = (response, js')"
  shows "set (log js) \<subseteq> set (log js')"
proof -
  obtain r where "checkpoint_state api publish agent_id (checkpoint_payload api body) js = (r, js')"
    using assms(2) by (auto simp: handle_checkpoint_def split: prod.splits)
  from checkpoint_state_log [OF assms(1) this] show ?thesis by auto
qed

lemma logged_mono:
  "set (wd_log wd (io_js (sc_io s))) \<subseteq> set (wd_log wd (io_js (sc_io s'))) \<Longrightarrow> logged wd s \<subseteq> logged wd s'"
  by (auto simp: logged_def)

text \<open>
  A step keeps the database behind the log if its queue, waiting, held and saved events and its rows
  come from what was there before and from what the log now holds.
\<close>

lemma subset_chain:
  "A \<subseteq> B \<union> Q \<Longrightarrow> B \<subseteq> E \<union> R \<Longrightarrow> Q \<subseteq> R' \<Longrightarrow> R \<subseteq> R' \<Longrightarrow> A \<subseteq> E \<union> R'"
  by blast

lemma behind_log_step:
  assumes "behind_log wd events s"
    and "set (wd_log wd (io_js (sc_io s))) \<subseteq> set (wd_log wd (io_js (sc_io s')))"
    and "new \<subseteq> logged wd s'"
    and "set (q_items (io_queue (sc_io s'))) \<union> set (sc_waiting s') \<union> held (sc_writer s') \<union> set (sc_saved s')
      \<subseteq> set (q_items (io_queue (sc_io s))) \<union> set (sc_waiting s) \<union> held (sc_writer s) \<union> set (sc_saved s) \<union> new"
    and "set (w_events (sc_writer s')) \<subseteq> set (w_events (sc_writer s)) \<union> row_of_event (wd_lossy wd) `
      (set (q_items (io_queue (sc_io s))) \<union> held (sc_writer s))"
  shows "behind_log wd events s'"
proof -
  note grow = logged_mono [OF assms(2)]
  from assms(1) have old: "set (q_items (io_queue (sc_io s))) \<union> set (sc_waiting s) \<union> held (sc_writer s)
      \<union> set (sc_saved s) \<subseteq> logged wd s"
    and rows: "set (w_events (sc_writer s)) \<subseteq> set events \<union> row_of_event (wd_lossy wd) ` logged wd s"
    by (simp_all add: behind_log_def)
  have "row_of_event (wd_lossy wd) ` (set (q_items (io_queue (sc_io s))) \<union> held (sc_writer s))
      \<subseteq> row_of_event (wd_lossy wd) ` logged wd s'"
    using old grow by (intro image_mono) blast
  moreover have "row_of_event (wd_lossy wd) ` logged wd s \<subseteq> row_of_event (wd_lossy wd) ` logged wd s'"
    using grow by (rule image_mono)
  ultimately have "set (w_events (sc_writer s')) \<subseteq> set events \<union> row_of_event (wd_lossy wd) ` logged wd s'"
    by (rule subset_chain [OF assms(5) rows])
  moreover have "set (q_items (io_queue (sc_io s'))) \<union> set (sc_waiting s') \<union> held (sc_writer s')
      \<union> set (sc_saved s') \<subseteq> logged wd s'"
    using old grow assms(3,4) by blast
  ultimately show ?thesis by (simp add: behind_log_def)
qed

lemma after_save_simps [simp]:
  "sc_io (after_save out ev s) = sc_io s"
  "sc_writer (after_save out ev s) = sc_writer s"
  "sc_traces (after_save out ev s) = sc_traces s"
  "sc_crashed (after_save out ev s) = sc_crashed s"
  by (simp_all add: after_save_def split: save_call.splits sum.splits)

lemma behind_log_inv:
  assumes "js_durable (wd_publish wd) (wd_log wd)" and "behind_log wd events s" and "sidecar_step wd s s'"
  shows "behind_log wd events s'"
  using assms(3)
proof (cases rule: sidecar_step.cases)
  case (save fuel clock agent_id event_id payload out io')
  from assms(1) save(2) show ?thesis
  proof (cases rule: save_event_effect)
    case (accepted ev)
    then show ?thesis
      by (intro behind_log_step [OF assms(2), of s' "{ev}"]) (auto simp: save(1) after_save_def logged_def)
  next
    case (waiting ev)
    then show ?thesis
      by (intro behind_log_step [OF assms(2), of s' "{ev}"]) (auto simp: save(1) after_save_def logged_def)
  next
    case refused
    then show ?thesis
      by (intro behind_log_step [OF assms(2), of s' "{}"])
         (auto simp: save(1) after_save_def split: save_call.splits sum.splits)
  qed
next
  case (room ev out io')
  from room(3) show ?thesis
    by (cases rule: enqueue_cases; intro behind_log_step [OF assms(2), of s' "{}"])
       (use room(2) in \<open>auto simp: room(1) after_save_def dest: notin_set_remove1 set_remove1_subset [THEN subsetD]\<close>)
next
  case (checkpoint agent_id body response js')
  from checkpoint_log_grows [OF assms(1) checkpoint(2)] show ?thesis
    by (intro behind_log_step [OF assms(2), of s' "{}"]) (auto simp: checkpoint(1))
next
  case (receive ev items fw)
  with select_world_held [of wd "Recv ev fw" "sc_writer s"] show ?thesis
    by (intro behind_log_step [OF assms(2), of s' "{}"]) auto
next
  case (tick fw)
  with select_world_held [of wd "Tick fw" "sc_writer s"] show ?thesis
    by (intro behind_log_step [OF assms(2), of s' "{}"]) auto
next
  case crash
  then show ?thesis
    by (intro behind_log_step [OF assms(2), of s' "{}"]) (auto simp: held_def)
qed

lemma accounted_inv:
  assumes "js_durable (wd_publish wd) (wd_log wd)" and "accounted wd s" and "sidecar_step wd s s'"
  shows "accounted wd s'"
proof (cases "sc_crashed s")
  case True
  with assms(3) show ?thesis by (cases rule: sidecar_step.cases) (simp_all add: accounted_def)
next
  case False
  with assms(2) have old: "mset (push_values (wd_lossy wd) (sc_saved s)) \<subseteq>#
      booked (wd_lossy wd) (sc_writer s) + mset (push_values (wd_lossy wd) (q_items (io_queue (sc_io s))))"
    by (simp add: accounted_def)
  from assms(3) show ?thesis
  proof (cases rule: sidecar_step.cases)
    case (save fuel clock agent_id event_id payload out io')
    from assms(1) save(2) show ?thesis
    proof (cases rule: save_event_effect)
      case (accepted ev)
      with old show ?thesis by (simp add: save(1) accounted_def after_save_def)
    next
      case (waiting ev)
      with old show ?thesis by (simp add: save(1) accounted_def after_save_def)
    next
      case refused
      with old show ?thesis
        by (auto simp: save(1) accounted_def after_save_def split: save_call.splits sum.splits)
    qed
  next
    case (room ev out io')
    from room(3) show ?thesis
      by (cases rule: enqueue_cases) (use old in \<open>simp_all add: room(1) accounted_def after_save_def\<close>)
  next
    case (checkpoint agent_id body response js')
    with old show ?thesis by (simp add: accounted_def)
  next
    case (receive ev items fw)
    let ?row = "{#row_of_event (wd_lossy wd) ev#}"
    have "booked (wd_lossy wd) (sc_writer s) + ?row \<subseteq># booked (wd_lossy wd) (sc_writer s')"
      using select_world_books [of wd "sc_writer s" "Recv ev fw"] by (simp add: receive(1))
    then have "booked (wd_lossy wd) (sc_writer s) + ?row + mset (push_values (wd_lossy wd) items)
        \<subseteq># booked (wd_lossy wd) (sc_writer s') + mset (push_values (wd_lossy wd) items)"
      by (rule subset_mset.add_right_mono)
    with old receive show ?thesis
      by (auto simp: accounted_def intro: subset_mset.order_trans)
  next
    case (tick fw)
    have "booked (wd_lossy wd) (sc_writer s) \<subseteq># booked (wd_lossy wd) (sc_writer s')"
      using select_world_books [of wd "sc_writer s" "Tick fw"] by (simp add: tick)
    with old tick show ?thesis
      by (auto simp: accounted_def intro: subset_mset.order_trans subset_mset.add_right_mono)
  next
    case crash
    then show ?thesis by (simp add: accounted_def)
  qed
qed

lemma traces_inv:
  assumes "sidecar_step wd s s'"
  shows "sc_traces s' = sc_traces s"
  using assms by (cases rule: sidecar_step.cases) simp_all

interpretation sidecar: inductive_invariant "sidecar_init events traces" "sidecar_step wd"
    "\<lambda>s. js_durable (wd_publish wd) (wd_log wd) \<longrightarrow> sidecar_inv wd events traces s"
  for events and traces :: "'v trace_row list" and wd :: "('v, 'js) world"
proof unfold_locales
  fix s :: "('v, 'js) sidecar"
  assume "sidecar_init events traces s"
  then show "js_durable (wd_publish wd) (wd_log wd) \<longrightarrow> sidecar_inv wd events traces s"
    by (simp add: sidecar_init_def sidecar_inv_def behind_log_def accounted_def writer_init_def held_def)
next
  fix s t :: "('v, 'js) sidecar"
  assume "js_durable (wd_publish wd) (wd_log wd) \<longrightarrow> sidecar_inv wd events traces s" and "sidecar_step wd s t"
  then show "js_durable (wd_publish wd) (wd_log wd) \<longrightarrow> sidecar_inv wd events traces t"
    by (auto simp: sidecar_inv_def behind_log_inv accounted_inv traces_inv)
qed

lemma reach_sidecar_inv:
  "js_durable (wd_publish wd) (wd_log wd) \<Longrightarrow> reach (sidecar_init events traces) (sidecar_step wd) s
     \<Longrightarrow> sidecar_inv wd events traces s"
  using sidecar.reach_inv by blast

section \<open>The database and the log\<close>

text \<open>
  The log comes first, in every interleaving and across crashes: every row that a run adds to
  \<open>agent_events\<close> is that of an event whose message is in the log, and so is every event for which
  \<open>save_event\<close> has returned \<open>Ok\<close>.
\<close>

theorem database_behind_log:
  assumes "js_durable (wd_publish wd) (wd_log wd)"
    and "reach (sidecar_init events traces) (sidecar_step wd) s"
  shows "(\<forall>r \<in> set (w_events (sc_writer s)). r \<in> set events
      \<or> (\<exists>ev. r = row_of_event (wd_lossy wd) ev \<and> msg_of ev \<in> set (wd_log wd (io_js (sc_io s)))))
    \<and> (\<forall>ev \<in> set (sc_saved s). msg_of ev \<in> set (wd_log wd (io_js (sc_io s))))"
  using reach_sidecar_inv [OF assms] by (auto simp: sidecar_inv_def behind_log_def logged_def)

text \<open>
  Until a crash no acknowledged event is unaccounted for: each one for which \<open>save_event\<close> has
  returned \<open>Ok\<close>, with its multiplicity, is a row of \<open>agent_events\<close>, or in a dead-letter message, or
  logged as lost, or in the writer's batch, or in the queue.
\<close>

theorem saved_events_accounted:
  assumes "js_durable (wd_publish wd) (wd_log wd)"
    and "reach (sidecar_init events traces) (sidecar_step wd) s" and "\<not> sc_crashed s"
  shows "mset (push_values (wd_lossy wd) (sc_saved s)) \<subseteq># mset (w_events (sc_writer s))
    + mset (push_values (wd_lossy wd) (concat (w_dead (sc_writer s)) @ w_lost (sc_writer s)
        @ w_batch (sc_writer s) @ q_items (io_queue (sc_io s))))"
  using reach_sidecar_inv [OF assms(1,2)] assms(3)
  by (simp add: sidecar_inv_def accounted_def booked_def ac_simps)

section \<open>A run\<close>

definition demo_world :: "(string, wal_msg list) world" where
  "demo_world = \<lparr>wd_api = demo_json, wd_publish = demo_publish, wd_log = id, wd_coll = id, wd_lossy = id,
     wd_delays = [], wd_dead_letter = False,
     wd_cfg = \<lparr>max_batch_size = 64, max_batch_linger = 100, channel_capacity = 1\<rparr>, wd_limit = u32_MAX\<rparr>"

definition demo_sidecar :: "(string, wal_msg list) sidecar" where
  "demo_sidecar = \<lparr>sc_io = demo_io True, sc_waiting = [], sc_writer = writer_init [], sc_traces = [],
     sc_saved = [], sc_crashed = False\<rparr>"

definition demo_pending :: pending_event where
  "demo_pending = pending_of ''a'' ''e'' (envelope demo_json ''a'' ''e'' ''p'')"

text \<open>The event has been saved; it has been received; the process has crashed.\<close>

definition demo_saved :: "(string, wal_msg list) sidecar" where
  "demo_saved = demo_sidecar
     \<lparr>sc_io := \<lparr>io_limiter = rate_limiter_default, io_js = [msg_of demo_pending],
                io_queue = \<lparr>q_items = [demo_pending], q_capacity = 1, q_open = True\<rparr>\<rparr>,
      sc_saved := [demo_pending]\<rparr>"

definition demo_crashed :: "(string, wal_msg list) sidecar" where
  "demo_crashed = demo_saved
     \<lparr>sc_io := \<lparr>io_limiter = rate_limiter_default, io_js = [msg_of demo_pending],
                io_queue = \<lparr>q_items = [], q_capacity = 1, q_open = True\<rparr>\<rparr>,
      sc_crashed := True\<rparr>"

lemma demo_world_durable: "js_durable (wd_publish demo_world) (wd_log demo_world)"
  by (simp add: demo_world_def demo_publish_durable)

text \<open>The runs start with an empty log.\<close>

definition demo_start :: "(string, wal_msg list) sidecar \<Rightarrow> bool" where
  "demo_start s \<longleftrightarrow> sidecar_init [] [] s \<and> wd_log demo_world (io_js (sc_io s)) = []"

lemma demo_run_saved: "reach demo_start (sidecar_step demo_world) demo_saved"
proof (rule reach_step)
  show "reach demo_start (sidecar_step demo_world) demo_sidecar"
    by (rule reach_init) (simp add: demo_start_def sidecar_init_def demo_sidecar_def demo_io_def demo_world_def)
  have "save_event (wd_api demo_world) (wd_publish demo_world) (wd_limit demo_world) 0 (\<lambda>_. 0) ''a'' ''e'' ''p''
      (sc_io demo_sidecar) = (Done (Inr ()), sc_io demo_saved)"
    by (simp add: demo_world_def demo_sidecar_def demo_saved_def demo_save demo_pending_def msg_of_def
        pending_of_def)
  from sidecar_step.save [OF this] show "sidecar_step demo_world demo_sidecar demo_saved"
    by (simp add: after_save_def demo_saved_def demo_sidecar_def)
qed

lemma demo_run_crashed: "reach demo_start (sidecar_step demo_world) demo_crashed"
proof (rule reach_step [OF demo_run_saved])
  show "sidecar_step demo_world demo_saved demo_crashed"
    using sidecar_step.crash [of demo_world demo_saved]
    by (simp add: demo_crashed_def demo_saved_def demo_sidecar_def writer_init_def)
qed

lemma demo_reach_saved: "reach (sidecar_init [] []) (sidecar_step demo_world) demo_saved"
  using demo_run_saved by (rule reach_mono) (simp_all add: demo_start_def)

lemma demo_reach_crashed: "reach (sidecar_init [] []) (sidecar_step demo_world) demo_crashed"
  using demo_run_crashed by (rule reach_mono) (simp_all add: demo_start_def)

theorem database_behind_log_witness:
  "\<exists>s. reach (sidecar_init [] []) (sidecar_step demo_world) s \<and> sc_saved s = [demo_pending]
     \<and> msg_of demo_pending \<in> set (io_js (sc_io s))"
proof -
  from database_behind_log [OF demo_world_durable demo_reach_saved]
  have "\<forall>ev \<in> set (sc_saved demo_saved). msg_of ev \<in> set (io_js (sc_io demo_saved))"
    by (simp add: demo_world_def)
  with demo_reach_saved show ?thesis by (intro exI [of _ demo_saved]) (simp add: demo_saved_def)
qed

theorem saved_events_accounted_witness:
  "\<exists>s. reach (sidecar_init [] []) (sidecar_step demo_world) s \<and> sc_saved s = [demo_pending]
     \<and> row_of_event id demo_pending \<in># mset (push_values id (q_items (io_queue (sc_io s))))"
proof -
  have "\<not> sc_crashed demo_saved" by (simp add: demo_saved_def demo_sidecar_def)
  from saved_events_accounted [OF demo_world_durable demo_reach_saved this] demo_reach_saved show ?thesis
    by (intro exI [of _ demo_saved])
       (simp add: demo_world_def demo_saved_def demo_sidecar_def writer_init_def)
qed

text \<open>
  The database can miss an acknowledged event for ever: there is a run in which \<open>save_event\<close> has
  returned \<open>Ok\<close> and the process then crashes, after which the event is in the log and nowhere else, not
  in the table, a dead letter, the batch or the queue, and not reported as lost; and no code takes it
  from the log to \<open>agent_events\<close>.
\<close>

theorem crash_drops_acknowledged:
  "\<exists>(wd :: (string, wal_msg list) world) s ev.
     js_durable (wd_publish wd) (wd_log wd) \<and> reach (sidecar_init [] []) (sidecar_step wd) s
     \<and> sc_saved s = [ev] \<and> wd_log wd (io_js (sc_io s)) = [msg_of ev]
     \<and> w_events (sc_writer s) = [] \<and> held (sc_writer s) = {} \<and> q_items (io_queue (sc_io s)) = []
     \<and> sc_waiting s = []"
  using demo_world_durable demo_reach_crashed
  by (intro exI [of _ demo_world] exI [of _ demo_crashed] exI [of _ demo_pending])
     (simp add: demo_crashed_def demo_saved_def demo_sidecar_def writer_init_def held_def demo_world_def)

section \<open>From the request to the table\<close>

text \<open>The writer receives everything that is queued and then ticks.\<close>

definition drain :: "('v, 'js) world \<Rightarrow> flush_world \<Rightarrow> pending_event list \<Rightarrow> writer \<Rightarrow> writer" where
  "drain wd fw items w = select_world wd (Tick fw) (fold (\<lambda>ev. select_world wd (Recv ev quiet)) items w)"

lemma drain_flush:
  assumes "w_batch w = []" and "items \<noteq> []" and "length items < max_batch_size (wd_cfg wd)"
  shows "drain wd fw items w
    = flush_batch_with_retry (wd_coll wd) (wd_lossy wd) (wd_delays wd) (wd_dead_letter wd) fw
        (w\<lparr>w_batch := items\<rparr>)"
proof -
  have "fold (\<lambda>ev. select_world wd (Recv ev quiet)) items w = w\<lparr>w_batch := items\<rparr>"
    using assms(1,3) writer_fills [of w items "wd_cfg wd" "wd_coll wd" "wd_lossy wd" "wd_delays wd" "wd_dead_letter wd"]
    by (simp add: select_world_def fold_map comp_def)
  with assms(2) show ?thesis by (simp add: drain_def select_world_def flush_if_pending_def)
qed

text \<open>
  C1.  A saved event reaches the table: when \<open>save_event\<close> has returned \<open>Ok\<close>, the queue with the new
  event fits into one batch, its keys are new and the flush gets through within its attempts, then after
  the next tick the table ends with the rows of the queue, in order, and the last is the new event's.
\<close>

theorem saved_event_reaches_table:
  assumes "js_durable (wd_publish wd) (wd_log wd)"
    and "save_event (wd_api wd) (wd_publish wd) limit fuel clock agent_id event_id payload io = (Done (Inr ()), io')"
    and "w_batch w = []" and "length (q_items (io_queue io')) < max_batch_size (wd_cfg wd)"
    and "events_unique (wd_coll wd) (w_events w @ push_values (wd_lossy wd) (q_items (io_queue io')))"
    and "goes_through (wd_delays wd) fw"
  shows "\<exists>b. to_vec (wd_api wd) (envelope (wd_api wd) agent_id event_id payload) = Some b
    \<and> w_events (drain wd fw (q_items (io_queue io')) w)
      = w_events w @ push_values (wd_lossy wd) (q_items (io_queue io))
        @ [\<lparr>er_agent_id = agent_id, er_event_id = event_id, er_payload_json = wd_lossy wd b\<rparr>]"
  using assms(1,2)
proof (cases rule: save_event_cases)
  case (published b io2)
  from published(4) have items: "q_items (io_queue io') = q_items (io_queue io) @ [pending_of agent_id event_id b]"
    by (cases rule: enqueue_cases) (simp_all add: published(3))
  let ?w = "w\<lparr>w_batch := q_items (io_queue io')\<rparr>"
  have "w_batch ?w \<noteq> []"
    and "events_unique (wd_coll wd) (w_events ?w @ push_values (wd_lossy wd) (w_batch ?w))"
    using assms(5) by (simp_all add: items)
  from flush_goes_through [OF this assms(6), of "wd_dead_letter wd"] obtain slept where
    "flush_batch_with_retry (wd_coll wd) (wd_lossy wd) (wd_delays wd) (wd_dead_letter wd) fw ?w
      = stored_all (wd_lossy wd) ?w slept" by blast
  moreover have "drain wd fw (q_items (io_queue io')) w
      = flush_batch_with_retry (wd_coll wd) (wd_lossy wd) (wd_delays wd) (wd_dead_letter wd) fw ?w"
    by (rule drain_flush [OF assms(3) _ assms(4)]) (simp add: items)
  ultimately have "w_events (drain wd fw (q_items (io_queue io')) w)
      = w_events w @ push_values (wd_lossy wd) (q_items (io_queue io'))"
    by (simp add: stored_all_def)
  with published(1) show ?thesis by (simp add: items pending_of_def row_of_event_def)
qed simp_all

theorem saved_event_reaches_table_witness:
  "\<exists>b. w_events (drain demo_world (down_for 0) (q_items (io_queue (sc_io demo_saved))) (writer_init []))
    = [\<lparr>er_agent_id = ''a'', er_event_id = ''e'', er_payload_json = b\<rparr>]"
proof -
  have saved: "save_event (wd_api demo_world) (wd_publish demo_world) u32_MAX 0 (\<lambda>_. 0) ''a'' ''e'' ''p''
      (demo_io True) = (Done (Inr ()), sc_io demo_saved)"
    by (simp add: demo_world_def demo_saved_def demo_save demo_pending_def msg_of_def pending_of_def)
  have "w_batch (writer_init []) = []"
    and "length (q_items (io_queue (sc_io demo_saved))) < max_batch_size (wd_cfg demo_world)"
    and "events_unique (wd_coll demo_world)
      (w_events (writer_init []) @ push_values (wd_lossy demo_world) (q_items (io_queue (sc_io demo_saved))))"
    by (simp_all add: writer_init_def demo_saved_def demo_world_def events_unique_def)
  from saved_event_reaches_table [OF demo_world_durable saved this down_goes_through [of 0]] show ?thesis
    by (auto simp: writer_init_def demo_io_def)
qed



section \<open>Resuming\<close>

lemma checkpoint_subject_token: "nth_opt (split_on (CHR ''.'') (checkpoint_subject a)) 1 = Some ''checkpoint''"
proof -
  have "checkpoint_subject a = ''agent'' @ CHR ''.'' # (''checkpoint'' @ CHR ''.'' # a)"
    by (simp add: checkpoint_subject_def)
  then show ?thesis by (simp add: split_on_append nth_opt_def del: append.simps)
qed

text \<open>
  Saving, ingesting and resuming fit together like this, for an agent whose identifier fits its column: once the ingest loop has processed the
  message of a saved event whose stream sequence is above all earlier thoughts of the agent, the agent
  resumes at that sequence, and its state is the whole envelope; the step and the type that the
  caller's payload may give are not looked at.
\<close>

theorem ingested_event_resumes:
  assumes "json_laws api" and "to_vec api (envelope api agent_id event_id payload) = Some b"
    and "CHR ''.'' \<notin> set agent_id" and "fits_column agent_id"
    and "jm_subject m = msg_subject (event_msg agent_id b)" and "jm_payload m = msg_payload (event_msg agent_id b)"
    and "traces_unique coll (in_traces st)"
    and "trace_lookup coll (in_traces st) (coll agent_id, as_i32 (js_sequence m)) = None"
    and "\<forall>r \<in> set (thought_rows coll agent_id (in_traces st)).
      sint (row_step_index r) < sint (as_i32 (js_sequence m))"
    and "process_message coll api \<lparr>dl_msg = m, dl_fault = None, dl_ack = None\<rparr> st = (res, st')"
  shows "res = Inr () \<and> (\<exists>v. from_slice api b = Some v
    \<and> resume_agent coll api None (in_traces st') agent_id
      = Inr \<lparr>as_agent_id = agent_id, as_step_index = i32_to_i64 (as_i32 (js_sequence m)), as_state = v\<rparr>)"
proof -
  obtain v where v: "from_slice api b = Some v" and decoded: "decode_message api m
      = Inr \<lparr>tr_agent_id = agent_id, tr_step_index = as_i32 (js_sequence m), tr_event_type = Thought,
             tr_payload = v\<rparr>"
    using saved_event_decoded [OF assms(1-3,5,6)] by blast
  let ?t = "\<lparr>tr_agent_id = agent_id, tr_step_index = as_i32 (js_sequence m), tr_event_type = Thought,
    tr_payload = v\<rparr>"
  have "trace_insert coll None ?t (in_traces st) = (Inr (), snd (trace_insert coll None ?t (in_traces st)))"
    using assms(4) by (simp add: trace_insert_no_fault trace_fits_def)
  with assms(10) decoded have "res = Inr ()" and "in_traces st' = snd (trace_insert coll None ?t (in_traces st))"
    by (auto simp: process_message_def split: prod.splits)
  with thought_put_resumes [OF assms(7), of ?t agent_id api] assms(4,8,9) v show ?thesis
    by (simp add: trace_fits_def)
qed

theorem ingested_event_resumes_witness:
  "\<exists>v. resume_agent id demo_json None (in_traces (snd (process_message id demo_json
      \<lparr>dl_msg = \<lparr>jm_subject = ''agent.trace.a1'', jm_payload = envelope demo_json ''a1'' ''e'' ''p'',
         jm_info = Some 7\<rparr>, dl_fault = None, dl_ack = None\<rparr> \<lparr>in_traces = demo_tbl, in_acked = []\<rparr>))) ''a1''
    = Inr \<lparr>as_agent_id = ''a1'', as_step_index = i32_to_i64 (as_i32 7), as_state = v\<rparr>"
proof -
  let ?b = "envelope demo_json ''a1'' ''e'' ''p''" and ?st = "\<lparr>in_traces = demo_tbl, in_acked = []\<rparr>"
  let ?m = "\<lparr>jm_subject = ''agent.trace.a1'', jm_payload = ?b, jm_info = Some 7\<rparr>"
  have msg: "to_vec demo_json ?b = Some ?b" "CHR ''.'' \<notin> set ''a1''" "fits_column ''a1''"
    "jm_subject ?m = msg_subject (event_msg ''a1'' ?b)" "jm_payload ?m = msg_payload (event_msg ''a1'' ?b)"
    by (simp_all add: event_msg_def trace_subject_def fits_column_def agent_id_width_def)
  have seq: "as_i32 (js_sequence ?m) = 7" by (simp add: as_i32_def js_sequence_def)
  have "traces_unique id (in_traces ?st)" using demo_tbl_unique by simp
  moreover have "trace_lookup id (in_traces ?st) (id ''a1'', as_i32 (js_sequence ?m)) = None"
    unfolding seq by (simp add: trace_lookup_def demo_tbl_def uq_agent_step_def)
  moreover have "\<forall>r \<in> set (thought_rows id ''a1'' (in_traces ?st)).
      sint (row_step_index r) < sint (as_i32 (js_sequence ?m))"
    unfolding seq by (simp add: demo_tbl_def thought_rows_def)
  ultimately show ?thesis
    using ingested_event_resumes [OF demo_json_laws msg _ _ _ prod.collapse [symmetric], of id ?st]
    by (auto simp: js_sequence_def)
qed

end
