(* ===== verification/Pipeline.thy ===== *)
theory Pipeline
  imports System
begin

text \<open>
  What the sidecar promises its callers, as a system of its own: a log, the events that are on their
  way to the database, the rows, and the events that were given up.  It says nothing of queues, batches,
  retries or handlers.  The sidecar refines it, and so its invariants are the sidecar's.
\<close>

section \<open>The specification\<close>

record pipeline =
  pl_log :: "wal_msg list"
  pl_pending :: "pending_event multiset"
  pl_rows :: "event_row list"
  pl_gone :: "pending_event multiset"

text \<open>
  A message is logged; an event is accepted, that is logged and from then on pending; the queue refuses
  it after all; some pending events become rows, all of them under new keys; or they are given up, and
  may have become rows nevertheless; a crash forgets what is pending.
\<close>

inductive pipeline_step :: "collation \<Rightarrow> (bytes \<Rightarrow> string) \<Rightarrow> pipeline \<Rightarrow> pipeline \<Rightarrow> bool"
  for coll :: collation and lossy :: "bytes \<Rightarrow> string" where
  log: "pipeline_step coll lossy p (p\<lparr>pl_log := pl_log p @ [m]\<rparr>)"
| accept: "pipeline_step coll lossy p
    (p\<lparr>pl_log := pl_log p @ [msg_of ev], pl_pending := add_mset ev (pl_pending p)\<rparr>)"
| refuse: "ev \<in># pl_pending p \<Longrightarrow>
    pipeline_step coll lossy p (p\<lparr>pl_pending := pl_pending p - {#ev#}\<rparr>)"
| store: "mset evs \<subseteq># pl_pending p \<Longrightarrow> events_unique coll (pl_rows p @ push_values lossy evs) \<Longrightarrow>
    pipeline_step coll lossy p
      (p\<lparr>pl_pending := pl_pending p - mset evs, pl_rows := pl_rows p @ push_values lossy evs\<rparr>)"
| give_up: "mset evs \<subseteq># pl_pending p \<Longrightarrow>
    pipeline_step coll lossy p (p\<lparr>pl_pending := pl_pending p - mset evs, pl_gone := pl_gone p + mset evs\<rparr>)"
| give_up_stored: "mset evs \<subseteq># pl_pending p \<Longrightarrow> events_unique coll (pl_rows p @ push_values lossy evs) \<Longrightarrow>
    pipeline_step coll lossy p
      (p\<lparr>pl_pending := pl_pending p - mset evs, pl_rows := pl_rows p @ push_values lossy evs,
         pl_gone := pl_gone p + mset evs\<rparr>)"
| crash: "pipeline_step coll lossy p (p\<lparr>pl_pending := {#}\<rparr>)"

inductive_cases pipeline_stepE: "pipeline_step coll lossy p p'"

definition pipeline_init :: "event_row list \<Rightarrow> pipeline \<Rightarrow> bool" where
  "pipeline_init events p \<longleftrightarrow> pl_pending p = {#} \<and> pl_rows p = events \<and> pl_gone p = {#}"

text \<open>
  Whatever is pending, given up or a new row is in the log; rows are only ever added, and never two
  under one key.
\<close>

definition pipeline_logged :: "pipeline \<Rightarrow> pending_event set" where
  "pipeline_logged p = {ev. msg_of ev \<in> set (pl_log p)}"

definition pipeline_inv :: "collation \<Rightarrow> (bytes \<Rightarrow> string) \<Rightarrow> event_row list \<Rightarrow> pipeline \<Rightarrow> bool" where
  "pipeline_inv coll lossy events p \<longleftrightarrow>
     set_mset (pl_pending p) \<union> set_mset (pl_gone p) \<subseteq> pipeline_logged p
     \<and> set (pl_rows p) \<subseteq> set events \<union> row_of_event lossy ` pipeline_logged p
     \<and> prefix events (pl_rows p)
     \<and> (events_unique coll events \<longrightarrow> events_unique coll (pl_rows p))"

lemma mset_subset_set: "mset evs \<subseteq># M \<Longrightarrow> set evs \<subseteq> set_mset M"
  by (metis set_mset_mono set_mset_mset)

lemma covered_mono: "R \<subseteq> E \<union> f ` A \<Longrightarrow> A \<subseteq> B \<Longrightarrow> R \<subseteq> E \<union> f ` B"
  by blast

lemma pipeline_inv_step:
  assumes inv: "pipeline_inv coll lossy events p" and step: "pipeline_step coll lossy p p'"
  shows "pipeline_inv coll lossy events p'"
proof -
  have settled: "set evs \<subseteq> pipeline_logged p"
      "set (push_values lossy evs) \<subseteq> row_of_event lossy ` pipeline_logged p"
    if "mset evs \<subseteq># pl_pending p" for evs
    using mset_subset_set [OF that] inv by (auto simp: pipeline_inv_def push_values_def)
  have rows: "set (pl_rows p) \<subseteq> set events \<union> row_of_event lossy ` pipeline_logged p"
    using inv by (simp add: pipeline_inv_def)
  from step show ?thesis
  proof (cases rule: pipeline_step.cases)
    case (log m)
    then have grow: "pipeline_logged p \<subseteq> pipeline_logged p'" by (auto simp: pipeline_logged_def)
    with log inv covered_mono [OF rows grow] show ?thesis by (auto simp: pipeline_inv_def)
  next
    case (accept ev)
    then have grow: "pipeline_logged p \<subseteq> pipeline_logged p'" by (auto simp: pipeline_logged_def)
    have "ev \<in> pipeline_logged p'" using accept by (simp add: pipeline_logged_def)
    with accept inv grow covered_mono [OF rows grow] show ?thesis by (auto simp: pipeline_inv_def)
  next
    case (refuse ev)
    with inv show ?thesis
      by (auto simp: pipeline_inv_def pipeline_logged_def dest: in_diffD)
  next
    case (store evs)
    with inv settled [of evs] show ?thesis
      by (auto simp: pipeline_inv_def pipeline_logged_def dest: in_diffD)
  next
    case (give_up evs)
    with inv settled [of evs] show ?thesis
      by (auto simp: pipeline_inv_def pipeline_logged_def dest: in_diffD)
  next
    case (give_up_stored evs)
    with inv settled [of evs] show ?thesis
      by (auto simp: pipeline_inv_def pipeline_logged_def dest: in_diffD)
  next
    case crash
    with inv show ?thesis by (auto simp: pipeline_inv_def pipeline_logged_def)
  qed
qed

interpretation pipeline: inductive_invariant "pipeline_init events" "pipeline_step coll lossy"
    "pipeline_inv coll lossy events"
  for events coll lossy
  by unfold_locales (simp add: pipeline_init_def pipeline_inv_def, rule pipeline_inv_step)

section \<open>The writer\<close>

text \<open>What one turn of the writer's loop makes of the batch and the event it receives.\<close>

definition gone :: "writer \<Rightarrow> pending_event multiset" where
  "gone w = mset (concat (w_dead w)) + mset (w_lost w)"

lemma flush_outcomes:
  obtains (stored) "w_events (flush_batch_with_retry coll lossy delays dl fw w) = w_events w @ push_values lossy (w_batch w)"
      "gone (flush_batch_with_retry coll lossy delays dl fw w) = gone w"
      "events_unique coll (w_events w @ push_values lossy (w_batch w))"
  | (failed) "w_events (flush_batch_with_retry coll lossy delays dl fw w) = w_events w"
      "gone (flush_batch_with_retry coll lossy delays dl fw w) = gone w + mset (w_batch w)"
  | (unclear) "w_events (flush_batch_with_retry coll lossy delays dl fw w) = w_events w @ push_values lossy (w_batch w)"
      "gone (flush_batch_with_retry coll lossy delays dl fw w) = gone w + mset (w_batch w)"
      "events_unique coll (w_events w @ push_values lossy (w_batch w))"
proof (cases rule: flush_settles [of coll lossy delays dl fw w])
  case (stored slept)
  then show ?thesis by (intro that(1)) (simp_all add: stored_all_def gone_def)
next
  case failed
  then show ?thesis by (intro that(2)) (auto simp: given_up_def gone_def)
next
  case unclear
  then show ?thesis by (intro that(3)) (auto simp: given_up_def gone_def)
qed

text \<open>Towards the specification a flush is one step, whatever else is pending.\<close>

lemma pipeline_flush:
  assumes "pl_pending p = mset (w_batch w) + rest" and "pl_rows p = w_events w" and "pl_gone p = gone w"
    and "w' = flush_batch_with_retry coll lossy delays dl fw w"
  shows "pipeline_step coll lossy p (p\<lparr>pl_pending := rest, pl_rows := w_events w', pl_gone := gone w'\<rparr>)"
proof (cases rule: flush_outcomes [of coll lossy delays dl fw w])
  case stored
  with assms pipeline_step.store [of "w_batch w" p coll lossy] show ?thesis by (cases p) simp
next
  case failed
  with assms pipeline_step.give_up [of "w_batch w" p coll lossy] show ?thesis by (cases p) simp
next
  case unclear
  with assms pipeline_step.give_up_stored [of "w_batch w" p coll lossy] show ?thesis by (cases p) simp
qed

text \<open>So is a turn of the loop, or it only fills the batch.\<close>

lemma pipeline_select:
  assumes "pl_pending p = mset (w_batch w) + mset (received [i]) + rest" and "pl_rows p = w_events w"
    and "pl_gone p = gone w" and w': "w' = select_world wd i w"
  shows "(pipeline_step (wd_coll wd) (wd_lossy wd))\<^sup>=\<^sup>= p
    (p\<lparr>pl_pending := mset (w_batch w') + rest, pl_rows := w_events w', pl_gone := gone w'\<rparr>)"
proof (cases i)
  case (Recv ev fw)
  let ?w = "w\<lparr>w_batch := w_batch w @ [ev]\<rparr>"
  have same: "pl_pending p = mset (w_batch ?w) + rest" "pl_rows p = w_events ?w" "pl_gone p = gone ?w"
    using assms(1-3) by (simp_all add: Recv gone_def)
  show ?thesis
  proof (cases "max_batch_size (wd_cfg wd) \<le> length (w_batch ?w)")
    case True
    then have "w' = flush_batch_with_retry (wd_coll wd) (wd_lossy wd) (wd_delays wd) (wd_dead_letter wd) fw ?w"
      by (simp add: w' select_world_def Recv)
    with pipeline_flush [OF same this] flush_empties [of _ _ _ _ fw ?w] show ?thesis by simp
  next
    case False
    then have "w' = ?w" by (simp add: w' select_world_def Recv)
    with same show ?thesis by (cases p) simp
  qed
next
  case (Tick fw)
  have same: "pl_pending p = mset (w_batch w) + rest" using assms(1) by (simp add: Tick)
  show ?thesis
  proof (cases "w_batch w = []")
    case True
    then have "w' = w" by (simp add: w' select_world_def Tick flush_if_pending_def)
    with same assms(2,3) show ?thesis by (cases p) simp
  next
    case False
    then have "w' = flush_batch_with_retry (wd_coll wd) (wd_lossy wd) (wd_delays wd) (wd_dead_letter wd) fw w"
      by (simp add: w' select_world_def Tick flush_if_pending_def)
    with pipeline_flush [OF same assms(2,3) this] flush_empties [of _ _ _ _ fw w] show ?thesis by simp
  qed
qed

section \<open>The sidecar refines it\<close>

definition pipeline_of :: "('v, 'js) world \<Rightarrow> ('v, 'js) sidecar \<Rightarrow> pipeline" where
  "pipeline_of wd s = \<lparr>pl_log = wd_log wd (io_js (sc_io s)),
     pl_pending = mset (w_batch (sc_writer s)) + mset (q_items (io_queue (sc_io s))) + mset (sc_waiting s),
     pl_rows = w_events (sc_writer s), pl_gone = gone (sc_writer s)\<rparr>"

definition durable :: "('v, 'js) world \<Rightarrow> bool" where
  "durable wd \<longleftrightarrow> js_durable (wd_publish wd) (wd_log wd)"

text \<open>A log that has grown by at most one message, and nothing else that the specification sees.\<close>

lemma pipeline_log_only:
  "length ms \<le> 1 \<Longrightarrow> (pipeline_step coll lossy)\<^sup>=\<^sup>= p (p\<lparr>pl_log := pl_log p @ ms\<rparr>)"
  using pipeline_step.log [of coll lossy p] by (cases ms; cases p) auto

lemma sidecar_step_refines:
  assumes "durable wd" and step: "sidecar_step wd s s'"
  shows "(pipeline_step (wd_coll wd) (wd_lossy wd))\<^sup>=\<^sup>= (pipeline_of wd s) (pipeline_of wd s')"
proof -
  from assms(1) have js: "js_durable (wd_publish wd) (wd_log wd)" by (simp add: durable_def)
  let ?step = "pipeline_step (wd_coll wd) (wd_lossy wd)" and ?p = "pipeline_of wd s"
  from step show ?thesis
  proof (cases rule: sidecar_step.cases)
    case (save fuel clock agent_id event_id payload out io')
    from js save(2) show ?thesis
    proof (cases rule: save_event_effect)
      case (accepted ev)
      then show ?thesis using pipeline_step.accept [of "wd_coll wd" "wd_lossy wd" ?p ev]
        by (simp add: save(1) pipeline_of_def after_save_def)
    next
      case (waiting ev)
      then show ?thesis using pipeline_step.accept [of "wd_coll wd" "wd_lossy wd" ?p ev]
        by (simp add: save(1) pipeline_of_def after_save_def)
    next
      case (refused ms)
      then have "sc_waiting s' = sc_waiting s"
        by (auto simp: save(1) after_save_def split: save_call.splits sum.splits)
      with refused pipeline_log_only [of ms "wd_coll wd" "wd_lossy wd" ?p] show ?thesis
        by (simp add: save(1) pipeline_of_def)
    qed
  next
    case (room ev out io')
    from room(2) obtain rest where "mset (sc_waiting s) = add_mset ev rest"
      by (metis multi_member_split set_mset_mset)
    with room(3) pipeline_step.refuse [of ev ?p "wd_coll wd" "wd_lossy wd"] show ?thesis
      by (cases rule: enqueue_cases) (auto simp: room(1) pipeline_of_def after_save_def)
  next
    case (checkpoint agent_id body response js')
    then obtain r where "checkpoint_state (wd_api wd) (wd_publish wd) agent_id
        (checkpoint_payload (wd_api wd) body) (io_js (sc_io s)) = (r, js')"
      by (auto simp: handle_checkpoint_def split: prod.splits)
    from checkpoint_state_log [OF js this] obtain ms where
      "wd_log wd js' = wd_log wd (io_js (sc_io s)) @ ms" "length ms \<le> 1" by fastforce
    with pipeline_log_only [of ms "wd_coll wd" "wd_lossy wd" ?p] show ?thesis
      by (simp add: checkpoint(1) pipeline_of_def)
  next
    case (receive ev items fw)
    with pipeline_select [of ?p "sc_writer s" "Recv ev fw" "mset items + mset (sc_waiting s)" _ wd, OF _ _ _ refl]
    show ?thesis by (simp add: pipeline_of_def ac_simps)
  next
    case (tick fw)
    with pipeline_select [of ?p "sc_writer s" "Tick fw"
        "mset (q_items (io_queue (sc_io s))) + mset (sc_waiting s)" _ wd, OF _ _ _ refl]
    show ?thesis by (simp add: pipeline_of_def ac_simps)
  next
    case crash
    with pipeline_step.crash [of "wd_coll wd" "wd_lossy wd" ?p] show ?thesis
      by (simp add: pipeline_of_def gone_def)
  qed
qed

interpretation refined: refined_invariant
    "\<lambda>s. durable wd \<and> sidecar_init events traces s" "\<lambda>s t. durable wd \<and> sidecar_step wd s t"
    "pipeline_init events" "pipeline_step (wd_coll wd) (wd_lossy wd)" "pipeline_of wd"
    "pipeline_inv (wd_coll wd) (wd_lossy wd) events"
  for wd :: "('v, 'js) world" and events and traces :: "'v trace_row list"
proof unfold_locales
  show "pipeline_init events (pipeline_of wd s)" if "durable wd \<and> sidecar_init events traces s" for s
    using that by (simp add: sidecar_init_def pipeline_init_def pipeline_of_def writer_init_def gone_def)
qed (auto dest: sidecar_step_refines)

lemma durable_reach:
  "durable wd \<Longrightarrow> reach (sidecar_init events traces) (sidecar_step wd) s \<Longrightarrow>
     reach (\<lambda>s. durable wd \<and> sidecar_init events traces s) (\<lambda>s t. durable wd \<and> sidecar_step wd s t) s"
  by (erule reach_mono) simp_all

text \<open>
  C2.  The sidecar implements its specification: every reachable state of the sidecar, in whatever order
  requests, receives, ticks and crashes came, is mapped to a reachable state of the pipeline, and its
  every next step to one step of the pipeline or to none.
\<close>

theorem sidecar_refines_pipeline:
  assumes "js_durable (wd_publish wd) (wd_log wd)"
    and "reach (sidecar_init events traces) (sidecar_step wd) s"
  shows "reach (pipeline_init events) (pipeline_step (wd_coll wd) (wd_lossy wd)) (pipeline_of wd s)
    \<and> (sidecar_step wd s s' \<longrightarrow>
        (pipeline_step (wd_coll wd) (wd_lossy wd))\<^sup>=\<^sup>= (pipeline_of wd s) (pipeline_of wd s'))"
proof -
  from assms(1) have "durable wd" by (simp add: durable_def)
  with refined.reach_abstraction [OF durable_reach [OF this assms(2)]] sidecar_step_refines show ?thesis
    by blast
qed

theorem sidecar_refines_pipeline_witness:
  "reach (pipeline_init []) (pipeline_step id id)
     \<lparr>pl_log = [msg_of demo_pending], pl_pending = {#demo_pending#}, pl_rows = [], pl_gone = {#}\<rparr>"
  using sidecar_refines_pipeline [OF demo_world_durable demo_reach_saved]
  by (simp add: pipeline_of_def gone_def demo_saved_def demo_sidecar_def demo_world_def writer_init_def)

section \<open>The queue drains\<close>

text \<open>The turns of the writer's loop, and the turns that empty the queue.\<close>

definition receive_turn :: "('v, 'js) world \<Rightarrow> flush_world \<Rightarrow> ('v, 'js) sidecar \<Rightarrow> ('v, 'js) sidecar" where
  "receive_turn wd fw s =
     (case q_items (io_queue (sc_io s)) of
        [] \<Rightarrow> s
      | ev # items \<Rightarrow>
          s\<lparr>sc_io := (sc_io s)\<lparr>io_queue := (io_queue (sc_io s))\<lparr>q_items := items\<rparr>\<rparr>,
            sc_writer := select_world wd (Recv ev fw) (sc_writer s)\<rparr>)"

definition tick_turn :: "('v, 'js) world \<Rightarrow> flush_world \<Rightarrow> ('v, 'js) sidecar \<Rightarrow> ('v, 'js) sidecar" where
  "tick_turn wd fw s = s\<lparr>sc_writer := select_world wd (Tick fw) (sc_writer s)\<rparr>"

fun drain_turns :: "('v, 'js) world \<Rightarrow> flush_world list \<Rightarrow> ('v, 'js) sidecar \<Rightarrow> ('v, 'js) sidecar" where
  "drain_turns wd [] s = s"
| "drain_turns wd [fw] s = tick_turn wd fw s"
| "drain_turns wd (fw # fw' # fws) s = drain_turns wd (fw' # fws) (receive_turn wd fw s)"

text \<open>An event is settled once it is a row or given up; what the writer is handed it keeps or settles.\<close>

definition settled :: "(bytes \<Rightarrow> string) \<Rightarrow> writer \<Rightarrow> pending_event set" where
  "settled lossy w = {ev. row_of_event lossy ev \<in> set (w_events w) \<or> ev \<in># gone w}"

lemma flush_settled:
  "settled lossy w \<union> set (w_batch w) \<subseteq> settled lossy (flush_batch_with_retry coll lossy delays dl fw w)"
  by (cases rule: flush_outcomes [of coll lossy delays dl fw w]) (auto simp: settled_def push_values_def)

lemma select_settled:
  "settled (wd_lossy wd) w \<union> set (w_batch w) \<union> set (received [i])
     \<subseteq> settled (wd_lossy wd) (select_world wd i w) \<union> set (w_batch (select_world wd i w))"
proof (cases i)
  case (Recv ev fw)
  have "settled (wd_lossy wd) (w\<lparr>w_batch := b\<rparr>) = settled (wd_lossy wd) w" for b
    by (simp add: settled_def gone_def)
  with flush_settled [of "wd_lossy wd" "w\<lparr>w_batch := w_batch w @ [ev]\<rparr>" "wd_coll wd" "wd_delays wd"
      "wd_dead_letter wd" fw] Recv show ?thesis
    by (auto simp: select_world_def Let_def)
next
  case (Tick fw)
  with flush_settled [of "wd_lossy wd" w "wd_coll wd" "wd_delays wd" "wd_dead_letter wd" fw] show ?thesis
    by (auto simp: select_world_def flush_if_pending_def)
qed

lemma tick_empties: "w_batch (select_world wd (Tick fw) w) = []"
  by (simp add: select_world_def flush_if_pending_empties)

lemma drain_turns_run:
  assumes "length fws = Suc (length (q_items (io_queue (sc_io s))))"
  shows "(sidecar_step wd)\<^sup>*\<^sup>* s (drain_turns wd fws s)
    \<and> q_items (io_queue (sc_io (drain_turns wd fws s))) = [] \<and> w_batch (sc_writer (drain_turns wd fws s)) = []
    \<and> settled (wd_lossy wd) (sc_writer s) \<union> set (w_batch (sc_writer s)) \<union> set (q_items (io_queue (sc_io s)))
        \<subseteq> settled (wd_lossy wd) (sc_writer (drain_turns wd fws s))"
  using assms
proof (induction wd fws s rule: drain_turns.induct)
  case (2 wd fw s)
  have "sidecar_step wd s (tick_turn wd fw s)" unfolding tick_turn_def by (rule sidecar_step.tick)
  with 2 select_settled [of wd "sc_writer s" "Tick fw"] tick_empties [of wd fw "sc_writer s"] show ?case
    by (simp add: r_into_rtranclp tick_turn_def)
next
  case (3 wd fw fw' fws s)
  then obtain ev items where q: "q_items (io_queue (sc_io s)) = ev # items" by (cases "q_items (io_queue (sc_io s))") auto
  let ?t = "receive_turn wd fw s"
  from q have t: "?t = s\<lparr>sc_io := (sc_io s)\<lparr>io_queue := (io_queue (sc_io s))\<lparr>q_items := items\<rparr>\<rparr>,
      sc_writer := select_world wd (Recv ev fw) (sc_writer s)\<rparr>"
    by (simp add: receive_turn_def)
  from sidecar_step.receive [OF q] have "sidecar_step wd s ?t" unfolding t .
  moreover have "length (fw' # fws) = Suc (length (q_items (io_queue (sc_io ?t))))"
    using 3(2) q by (simp add: t)
  note IH = 3(1) [OF this]
  moreover have "settled (wd_lossy wd) (sc_writer s) \<union> set (w_batch (sc_writer s)) \<union> set (q_items (io_queue (sc_io s)))
      \<subseteq> settled (wd_lossy wd) (sc_writer ?t) \<union> set (w_batch (sc_writer ?t)) \<union> set (q_items (io_queue (sc_io ?t)))"
    using select_settled [of wd "sc_writer s" "Recv ev fw"] q by (auto simp: t)
  ultimately show ?case by (auto intro: converse_rtranclp_into_rtranclp)
qed simp_all

text \<open>
  C13.  The writer never gets stuck: from every state, whatever the database does to every attempt of
  every flush, as many receives as the queue is long and one tick, which are steps of the sidecar, leave
  the queue and the batch empty, and every event that was in either is then a row of the table or has
  been given up to the dead-letter channel or the log.
\<close>

theorem queue_drains:
  assumes "length fws = Suc (length (q_items (io_queue (sc_io s))))"
  shows "let s' = drain_turns wd fws s
    in (sidecar_step wd)\<^sup>*\<^sup>* s s' \<and> q_items (io_queue (sc_io s')) = [] \<and> w_batch (sc_writer s') = []
      \<and> set (w_batch (sc_writer s)) \<union> set (q_items (io_queue (sc_io s)))
        \<subseteq> {ev. row_of_event (wd_lossy wd) ev \<in> set (w_events (sc_writer s'))
              \<or> ev \<in> set (concat (w_dead (sc_writer s'))) \<union> set (w_lost (sc_writer s'))}"
  using drain_turns_run [OF assms, of wd] by (auto simp: Let_def settled_def gone_def)

theorem queue_drains_witness:
  "let s' = drain_turns demo_world [quiet, down_for 9] demo_saved
   in w_events (sc_writer s') = [] \<and> w_lost (sc_writer s') = [demo_pending]"
proof -
  let ?s = "drain_turns demo_world [quiet, down_for 9] demo_saved"
  have "length [quiet, down_for 9] = Suc (length (q_items (io_queue (sc_io demo_saved))))"
    by (simp add: demo_saved_def)
  note queue_drains [OF this, of demo_world]
  moreover have "w_events (sc_writer ?s) = []" and "w_dead (sc_writer ?s) = []"
    and "w_lost (sc_writer ?s) = [] \<or> w_lost (sc_writer ?s) = [demo_pending]"
    by (simp_all add: receive_turn_def tick_turn_def demo_saved_def demo_sidecar_def demo_world_def
        select_world_def Let_def writer_init_def flush_if_pending_def flush_batch_with_retry_def flush_batch_def
        down_for_def no_faults_def)
  ultimately show ?thesis by (auto simp: Let_def demo_saved_def)
qed

end
