(* ===== verification/Concurrent.thy ===== *)
theory Concurrent
  imports Pipeline
begin

text \<open>
  \<open>save_event\<close> at the grain of its suspension points: any number of calls run at the same time, each
  somewhere between its waiting for a slot and its send to the queue, and each may be dropped where it
  stands, as \<open>axum\<close> drops the future of a request whose client has gone.  A call that runs alone is the
  function \<open>save_event\<close>; calls that interleave still implement the pipeline, in which no event
  overtakes its log entry and every call that has returned is accounted for, but the queue need not
  have the order of the log.
\<close>

section \<open>One call\<close>

text \<open>
  Where a call stands: in the rate limiter, before its payload is serialized, before the message is
  sent, waiting for the answer of JetStream, sending to the queue, or finished.
\<close>

datatype save_pc =
    Waiting wait_pc
  | Serializing
  | Publishing bytes
  | Await_ack pub_result bytes
  | Sending pending_event
  | Finished "skialith_error + unit"

record 'v save_task =
  tk_agent :: string
  tk_event :: string
  tk_payload :: 'v
  tk_pc :: save_pc

definition after_wait :: "wait_pc \<Rightarrow> save_pc" where
  "after_wait pc = (if pc = Returned then Serializing else Waiting pc)"

definition new_call :: "u32 \<Rightarrow> string \<Rightarrow> string \<Rightarrow> 'v \<Rightarrow> 'v save_task" where
  "new_call limit agent_id event_id payload =
     \<lparr>tk_agent = agent_id, tk_event = event_id, tk_payload = payload, tk_pc = after_wait (wait_enter limit)\<rparr>"

definition save_move ::
  "'v json_api \<Rightarrow> 'js publish \<Rightarrow> u32 \<Rightarrow> int \<Rightarrow> 'v save_task \<times> 'js store_io \<Rightarrow> 'v save_task \<times> 'js store_io" where
  "save_move api publish limit t ci =
     (let (c, io) = ci in
      case tk_pc c of
        Waiting pc \<Rightarrow>
          (let (l', pc') = wait_step limit t (io_limiter io) pc
           in (c\<lparr>tk_pc := after_wait pc'\<rparr>, io\<lparr>io_limiter := l'\<rparr>))
      | Serializing \<Rightarrow>
          (c\<lparr>tk_pc := (case to_vec api (envelope api (tk_agent c) (tk_event c) (tk_payload c)) of
             None \<Rightarrow> Finished (Inl Serialize)
           | Some payload_json \<Rightarrow> Publishing payload_json)\<rparr>, io)
      | Publishing payload_json \<Rightarrow>
          (let (r, js') = publish (io_js io) \<lparr>msg_subject = trace_subject (tk_agent c), msg_headers = [],
                            msg_payload = payload_json\<rparr>
           in (c\<lparr>tk_pc := Await_ack r payload_json\<rparr>, io\<lparr>io_js := js'\<rparr>))
      | Await_ack r payload_json \<Rightarrow>
          (c\<lparr>tk_pc := (case published r of
             Inl e \<Rightarrow> Finished (Inl (JetStreamPublish e))
           | Inr _ \<Rightarrow> Sending \<lparr>pe_agent_id = tk_agent c, pe_event_id = tk_event c,
                               pe_payload_json = payload_json\<rparr>)\<rparr>, io)
      | Sending pending \<Rightarrow>
          (case enqueue pending io of
             (Done r, io') \<Rightarrow> (c\<lparr>tk_pc := Finished r\<rparr>, io')
           | (_, io') \<Rightarrow> (c, io'))
      | Finished r \<Rightarrow> (c, io))"

text \<open>A call on its own, with the clock that each of its moves would read.\<close>

definition save_run ::
  "'v json_api \<Rightarrow> 'js publish \<Rightarrow> u32 \<Rightarrow> int list \<Rightarrow> 'v save_task \<times> 'js store_io \<Rightarrow> 'v save_task \<times> 'js store_io"
where
  "save_run api publish limit ts = fold (save_move api publish limit) ts"

lemma save_run_Nil: "save_run api publish limit [] ci = ci"
  by (simp add: save_run_def)

lemma save_run_Cons: "save_run api publish limit (t # ts) ci = save_run api publish limit ts (save_move api publish limit t ci)"
  by (simp add: save_run_def)

lemma save_run_append: "save_run api publish limit (ts @ us) ci = save_run api publish limit us (save_run api publish limit ts ci)"
  by (simp add: save_run_def)

lemma save_move_Waiting:
  "tk_pc c = Waiting pc \<Longrightarrow> save_move api publish limit t (c, io) =
     (c\<lparr>tk_pc := after_wait (snd (wait_step limit t (io_limiter io) pc))\<rparr>,
      io\<lparr>io_limiter := fst (wait_step limit t (io_limiter io) pc)\<rparr>)"
  by (simp add: save_move_def split: prod.splits)

text \<open>A pass of the limiter's loop: four moves that return, or five after which it starts over.\<close>

lemma save_run_pass:
  assumes "tk_pc c = Waiting Loop_top"
  shows "snd (wait_pass limit t (io_limiter io)) = Returned \<Longrightarrow>
      save_run api publish limit [t, t, t, t] (c, io)
        = (c\<lparr>tk_pc := Serializing\<rparr>, io\<lparr>io_limiter := fst (wait_pass limit t (io_limiter io))\<rparr>)"
    and "snd (wait_pass limit t (io_limiter io)) \<noteq> Returned \<Longrightarrow>
      save_run api publish limit [t, t, t, t, t] (c, io) = (c, io)"
  using assms
  by (auto simp: save_run_Cons save_run_Nil save_move_Waiting after_wait_def wait_pass_def Let_def
      split: if_splits)

lemma save_run_wait:
  assumes "tk_pc c = after_wait (wait_enter limit)"
    and "wait_alone limit fuel clock (io_limiter io) = Some l'"
  shows "\<exists>ts. set ts \<subseteq> range clock \<and>
    save_run api publish limit ts (c, io) = (c\<lparr>tk_pc := Serializing\<rparr>, io\<lparr>io_limiter := l'\<rparr>)"
proof (cases "limit = u32_MAX")
  case True
  with assms show ?thesis
    by (intro exI [of _ "[]"]) (simp add: wait_alone_unlimited save_run_Nil after_wait_def wait_enter_def)
next
  case limited: False
  then have at_top: "tk_pc c = Waiting Loop_top"
    using assms(1) by (simp add: after_wait_def wait_enter_def)
  from assms(2) show ?thesis
  proof (induction fuel arbitrary: clock)
    case 0
    with limited show ?case by (subst (asm) wait_alone.simps) simp
  next
    case (Suc fuel)
    show ?case
    proof (cases "snd (wait_pass limit (clock 0) (io_limiter io)) = Returned")
      case True
      with Suc.prems limited have "l' = fst (wait_pass limit (clock 0) (io_limiter io))"
        by (simp add: wait_alone_Suc)
      with save_run_pass(1) [OF at_top True] show ?thesis
        by (intro exI [of _ "[clock 0, clock 0, clock 0, clock 0]"]) simp
    next
      case False
      with Suc.prems limited have "wait_alone limit fuel (\<lambda>i. clock (Suc i)) (io_limiter io) = Some l'"
        by (simp add: wait_alone_Suc)
      from Suc.IH [OF this] obtain ts where "set ts \<subseteq> range (\<lambda>i. clock (Suc i))"
        and rest: "save_run api publish limit ts (c, io) = (c\<lparr>tk_pc := Serializing\<rparr>, io\<lparr>io_limiter := l'\<rparr>)"
        by blast
      then have "set ([clock 0, clock 0, clock 0, clock 0, clock 0] @ ts) \<subseteq> range clock" by auto
      moreover have "save_run api publish limit ([clock 0, clock 0, clock 0, clock 0, clock 0] @ ts) (c, io)
          = (c\<lparr>tk_pc := Serializing\<rparr>, io\<lparr>io_limiter := l'\<rparr>)"
        unfolding save_run_append save_run_pass(2) [OF at_top False] by (rule rest)
      ultimately show ?thesis by blast
    qed
  qed
qed

fun pc_of :: "save_call \<Rightarrow> save_pc" where
  "pc_of Rate_limited = Waiting Loop_top"
| "pc_of (Awaiting_room ev) = Sending ev"
| "pc_of (Done r) = Finished r"

text \<open>From the serialization on, four more moves at most.\<close>

lemma save_run_rest:
  assumes "wait_alone limit fuel clock (io_limiter io) = Some l'"
    and "save_event api publish limit fuel clock (tk_agent c) (tk_event c) (tk_payload c) io = (out, io')"
    and "tk_pc c = Serializing"
  shows "\<exists>c' n. save_run api publish limit (replicate n t) (c, io\<lparr>io_limiter := l'\<rparr>) = (c', io') \<and> tk_pc c' = pc_of out"
proof (cases "to_vec api (envelope api (tk_agent c) (tk_event c) (tk_payload c))")
  case None
  with assms show ?thesis
    by (intro exI [of _ "c\<lparr>tk_pc := Finished (Inl Serialize)\<rparr>"] exI [of _ 1])
       (auto simp: save_run_Cons save_run_Nil save_move_def save_event_def)
next
  case (Some b)
  obtain r js' where pub: "publish (io_js io) \<lparr>msg_subject = trace_subject (tk_agent c), msg_headers = [],
      msg_payload = b\<rparr> = (r, js')" by fastforce
  show ?thesis
  proof (cases "published r")
    case (Inl e)
    with assms Some pub show ?thesis
      by (intro exI [of _ "c\<lparr>tk_pc := Finished (Inl (JetStreamPublish e))\<rparr>"] exI [of _ 3])
         (auto simp: save_run_Cons save_run_Nil save_move_def save_event_def eval_nat_numeral)
  next
    case (Inr n)
    with assms Some pub show ?thesis
      by (intro exI [of _ "c\<lparr>tk_pc := pc_of out\<rparr>"] exI [of _ 4])
         (auto simp: save_run_Cons save_run_Nil save_move_def save_event_def published_def eval_nat_numeral
           enqueue_def Let_def split: if_splits)
  qed
qed

text \<open>
  A call that nothing interrupts is the function \<open>save_event\<close>: whenever the function leaves the
  rate limiter, the moves of a new call, each with a clock reading that the function uses, reach the
  same limiter, log and queue, and the call has finished with the function's result, or stands before
  the full queue with the same event in hand.
\<close>

theorem call_alone_is_save_event:
  assumes "save_event api publish limit fuel clock agent_id event_id payload io = (out, io')"
    and "out \<noteq> Rate_limited"
  shows "\<exists>ts c. set ts \<subseteq> range clock \<and> tk_pc c = pc_of out
    \<and> save_run api publish limit ts (new_call limit agent_id event_id payload, io) = (c, io')"
proof -
  let ?c = "new_call limit agent_id event_id payload"
  from assms obtain l' where slot: "wait_alone limit fuel clock (io_limiter io) = Some l'"
    by (auto simp: save_event_def split: option.splits)
  obtain ts where ts: "set ts \<subseteq> range clock"
    and run: "save_run api publish limit ts (?c, io) = (?c\<lparr>tk_pc := Serializing\<rparr>, io\<lparr>io_limiter := l'\<rparr>)"
    using save_run_wait [of ?c, OF _ slot, of api publish] by (auto simp: new_call_def)
  from assms(1) have "save_event api publish limit fuel clock (tk_agent (?c\<lparr>tk_pc := Serializing\<rparr>))
      (tk_event (?c\<lparr>tk_pc := Serializing\<rparr>)) (tk_payload (?c\<lparr>tk_pc := Serializing\<rparr>)) io = (out, io')"
    by (simp add: new_call_def)
  from save_run_rest [OF slot this, of "clock 0"] obtain c n where
    "save_run api publish limit (replicate n (clock 0)) (?c\<lparr>tk_pc := Serializing\<rparr>, io\<lparr>io_limiter := l'\<rparr>) = (c, io')"
    and "tk_pc c = pc_of out" by auto
  with ts show ?thesis
    by (intro exI [of _ "ts @ replicate n (clock 0)"] exI [of _ c]) (auto simp: save_run_append run)
qed

theorem call_alone_is_save_event_witness:
  "\<exists>ts c. tk_pc c = Finished (Inr ())
    \<and> save_run demo_json demo_publish u32_MAX ts (new_call u32_MAX ''a'' ''e'' ''p'', demo_io True)
      = (c, sc_io demo_saved)"
proof -
  have "save_event demo_json demo_publish u32_MAX 0 (\<lambda>_. 0) ''a'' ''e'' ''p'' (demo_io True)
      = (Done (Inr ()), sc_io demo_saved)"
    by (simp add: demo_saved_def demo_save demo_pending_def msg_of_def pending_of_def)
  from call_alone_is_save_event [OF this] show ?thesis by auto
qed

section \<open>Calls that interleave\<close>

record ('v, 'js) fleet =
  fl_io :: "'js store_io"
  fl_calls :: "'v save_task list"
  fl_writer :: writer

text \<open>
  A call arrives, moves or is dropped, whichever it is and wherever it stands; the writer receives or
  ticks; the process crashes.
\<close>

inductive fleet_step :: "('v, 'js) world \<Rightarrow> ('v, 'js) fleet \<Rightarrow> ('v, 'js) fleet \<Rightarrow> bool"
  for wd :: "('v, 'js) world" where
  arrive: "fleet_step wd f (f\<lparr>fl_calls := fl_calls f @ [new_call (wd_limit wd) agent_id event_id payload]\<rparr>)"
| move: "fl_calls f = before @ c # after \<Longrightarrow> save_move (wd_api wd) (wd_publish wd) (wd_limit wd) t (c, fl_io f) = (c', io') \<Longrightarrow>
    fleet_step wd f (f\<lparr>fl_io := io', fl_calls := before @ c' # after\<rparr>)"
| drop: "fl_calls f = before @ c # after \<Longrightarrow> fleet_step wd f (f\<lparr>fl_calls := before @ after\<rparr>)"
| receive: "q_items (io_queue (fl_io f)) = ev # items \<Longrightarrow>
    fleet_step wd f (f\<lparr>fl_io := (fl_io f)\<lparr>io_queue := (io_queue (fl_io f))\<lparr>q_items := items\<rparr>\<rparr>,
      fl_writer := select_world wd (Recv ev fw) (fl_writer f)\<rparr>)"
| tick: "fleet_step wd f (f\<lparr>fl_writer := select_world wd (Tick fw) (fl_writer f)\<rparr>)"
| crash: "fleet_step wd f (f\<lparr>
      fl_io := (fl_io f)\<lparr>io_limiter := rate_limiter_default, io_queue := (io_queue (fl_io f))\<lparr>q_items := []\<rparr>\<rparr>,
      fl_calls := [], fl_writer := (fl_writer f)\<lparr>w_batch := []\<rparr>\<rparr>)"

inductive_cases fleet_stepE: "fleet_step wd f f'"

definition fleet_init :: "event_row list \<Rightarrow> ('v, 'js) fleet \<Rightarrow> bool" where
  "fleet_init events f \<longleftrightarrow> q_items (io_queue (fl_io f)) = [] \<and> fl_calls f = [] \<and> fl_writer f = writer_init events"

text \<open>The event that a call has in hand: logged, and neither queued nor refused yet.\<close>

definition in_hand :: "'v save_task \<Rightarrow> pending_event list" where
  "in_hand c = (case tk_pc c of
      Await_ack (Acked n) b \<Rightarrow> [pending_of (tk_agent c) (tk_event c) b]
    | Sending ev \<Rightarrow> [ev]
    | _ \<Rightarrow> [])"

definition fleet_pipeline :: "('v, 'js) world \<Rightarrow> ('v, 'js) fleet \<Rightarrow> pipeline" where
  "fleet_pipeline wd f = \<lparr>pl_log = wd_log wd (io_js (fl_io f)),
     pl_pending = mset (w_batch (fl_writer f)) + mset (q_items (io_queue (fl_io f))) + mset (concat (map in_hand (fl_calls f))),
     pl_rows = w_events (fl_writer f), pl_gone = gone (fl_writer f)\<rparr>"

text \<open>What a move does to the log, the queue and the event in hand.\<close>

lemma save_move_effect:
  assumes "js_durable publish log" and "save_move api publish limit t (c, io) = (c', io')"
  obtains (quiet) ms where "in_hand c' = in_hand c" "q_items (io_queue io') = q_items (io_queue io)"
      "log (io_js io') = log (io_js io) @ ms" "length ms \<le> 1"
  | (accepted) ev where "in_hand c = []" "in_hand c' = [ev]" "q_items (io_queue io') = q_items (io_queue io)"
      "log (io_js io') = log (io_js io) @ [msg_of ev]"
  | (queued) ev where "in_hand c = [ev]" "in_hand c' = []"
      "q_items (io_queue io') = q_items (io_queue io) @ [ev]" "log (io_js io') = log (io_js io)"
  | (refused) ev where "in_hand c = [ev]" "in_hand c' = []"
      "q_items (io_queue io') = q_items (io_queue io)" "log (io_js io') = log (io_js io)"
proof (cases "tk_pc c")
  case (Waiting pc)
  with assms(2) show ?thesis
    by (intro quiet [of "[]"]) (auto simp: save_move_Waiting in_hand_def after_wait_def)
next
  case Serializing
  with assms(2) show ?thesis
    by (intro quiet [of "[]"]) (auto simp: save_move_def in_hand_def split: option.splits)
next
  case (Publishing b)
  obtain r js' where pub: "publish (io_js io) (event_msg (tk_agent c) b) = (r, js')" by fastforce
  with Publishing assms(2) have c': "c' = c\<lparr>tk_pc := Await_ack r b\<rparr>" and io': "io' = io\<lparr>io_js := js'\<rparr>"
    by (simp_all add: save_move_def event_msg_def)
  show ?thesis
  proof (cases "\<exists>n. r = Acked n")
    case True
    with js_durable_Acked [OF assms(1)] pub
    have "log js' = log (io_js io) @ [msg_of (pending_of (tk_agent c) (tk_event c) b)]"
      by (auto simp: msg_of_def pending_of_def)
    with True show ?thesis
      by (intro accepted [of "pending_of (tk_agent c) (tk_event c) b"]) (auto simp: in_hand_def Publishing c' io')
  next
    case False
    then have "in_hand c' = in_hand c" by (auto simp: in_hand_def Publishing c' split: pub_result.splits)
    with js_durable_any [OF assms(1) pub] show ?thesis
      by (auto simp: io' intro: quiet [of "[]"] quiet [of "[_]"])
  qed
next
  case (Await_ack r b)
  with assms(2) show ?thesis
    by (intro quiet [of "[]"])
       (auto simp: save_move_def in_hand_def published_def pending_of_def split: pub_result.splits)
next
  case (Sending ev)
  obtain out io2 where enq: "enqueue ev io = (out, io2)" by fastforce
  from enq show ?thesis
  proof (cases rule: enqueue_cases)
    case closed
    with Sending enq assms(2) show ?thesis by (intro refused [of ev]) (auto simp: save_move_def in_hand_def)
  next
    case enqd: accepted
    with Sending enq assms(2) show ?thesis by (intro queued [of ev]) (auto simp: save_move_def in_hand_def)
  next
    case full
    with Sending enq assms(2) show ?thesis by (intro quiet [of "[]"]) (auto simp: save_move_def in_hand_def)
  qed
next
  case (Finished r)
  with assms(2) show ?thesis by (intro quiet [of "[]"]) (auto simp: save_move_def)
qed

lemma fleet_step_refines:
  assumes "durable wd" and step: "fleet_step wd f f'"
  shows "(pipeline_step (wd_coll wd) (wd_lossy wd))\<^sup>=\<^sup>= (fleet_pipeline wd f) (fleet_pipeline wd f')"
proof -
  from assms(1) have js: "js_durable (wd_publish wd) (wd_log wd)" by (simp add: durable_def)
  let ?p = "fleet_pipeline wd f"
  from step show ?thesis
  proof (cases rule: fleet_step.cases)
    case (arrive agent_id event_id payload)
    have "in_hand (new_call (wd_limit wd) agent_id event_id payload) = []"
      by (simp add: in_hand_def new_call_def after_wait_def)
    with arrive show ?thesis by (simp add: fleet_pipeline_def)
  next
    case (move before c after t c' io')
    from js move(3) show ?thesis
    proof (cases rule: save_move_effect)
      case (quiet ms)
      with move pipeline_log_only [of ms "wd_coll wd" "wd_lossy wd" ?p] show ?thesis
        by (simp add: fleet_pipeline_def)
    next
      case (accepted ev)
      with move pipeline_step.accept [of "wd_coll wd" "wd_lossy wd" ?p ev] show ?thesis
        by (simp add: fleet_pipeline_def)
    next
      case (queued ev)
      with move show ?thesis by (simp add: fleet_pipeline_def)
    next
      case (refused ev)
      with move pipeline_step.refuse [of ev ?p "wd_coll wd" "wd_lossy wd"] show ?thesis
        by (simp add: fleet_pipeline_def)
    qed
  next
    case (drop before c after)
    have "in_hand c = [] \<or> (\<exists>ev. in_hand c = [ev])"
      by (simp add: in_hand_def split: save_pc.splits pub_result.splits)
    then consider "in_hand c = []" | ev where "in_hand c = [ev]" by blast
    then show ?thesis
    proof cases
      case 1
      with drop show ?thesis by (simp add: fleet_pipeline_def)
    next
      case (2 ev)
      with drop pipeline_step.refuse [of ev ?p "wd_coll wd" "wd_lossy wd"] show ?thesis
        by (simp add: fleet_pipeline_def)
    qed
  next
    case (receive ev items fw)
    with pipeline_select [of ?p "fl_writer f" "Recv ev fw"
        "mset items + mset (concat (map in_hand (fl_calls f)))" _ wd, OF _ _ _ refl]
    show ?thesis by (simp add: fleet_pipeline_def ac_simps)
  next
    case (tick fw)
    with pipeline_select [of ?p "fl_writer f" "Tick fw"
        "mset (q_items (io_queue (fl_io f))) + mset (concat (map in_hand (fl_calls f)))" _ wd, OF _ _ _ refl]
    show ?thesis by (simp add: fleet_pipeline_def ac_simps)
  next
    case crash
    with pipeline_step.crash [of "wd_coll wd" "wd_lossy wd" ?p] show ?thesis
      by (simp add: fleet_pipeline_def gone_def)
  qed
qed

interpretation fleet_spec: refined_invariant
    "\<lambda>f. durable wd \<and> fleet_init events f" "\<lambda>f g. durable wd \<and> fleet_step wd f g"
    "pipeline_init events" "pipeline_step (wd_coll wd) (wd_lossy wd)" "fleet_pipeline wd"
    "pipeline_inv (wd_coll wd) (wd_lossy wd) events"
  for wd :: "('v, 'js) world" and events
proof unfold_locales
  show "pipeline_init events (fleet_pipeline wd f)" if "durable wd \<and> fleet_init events f" for f
    using that by (simp add: fleet_init_def pipeline_init_def fleet_pipeline_def writer_init_def gone_def)
qed (auto dest: fleet_step_refines)

lemma durable_fleet_reach:
  "durable wd \<Longrightarrow> reach (fleet_init events) (fleet_step wd) f \<Longrightarrow>
     reach (\<lambda>f. durable wd \<and> fleet_init events f) (\<lambda>f g. durable wd \<and> fleet_step wd f g) f"
  by (erule reach_mono) simp_all

section \<open>What a finished call knows\<close>

text \<open>
  A call's place in the code says what has happened: beyond the serialization its bytes are the
  envelope's, and from the acknowledgement on its message is in the log.
\<close>

definition call_ok :: "'v json_api \<Rightarrow> wal_msg list \<Rightarrow> 'v save_task \<Rightarrow> bool" where
  "call_ok api log c \<longleftrightarrow>
     (let bytes_of = to_vec api (envelope api (tk_agent c) (tk_event c) (tk_payload c));
          entry = (\<lambda>b. event_msg (tk_agent c) b \<in> set log)
      in case tk_pc c of
           Publishing b \<Rightarrow> bytes_of = Some b
         | Await_ack r b \<Rightarrow> bytes_of = Some b \<and> ((\<exists>n. r = Acked n) \<longrightarrow> entry b)
         | Sending ev \<Rightarrow> \<exists>b. ev = pending_of (tk_agent c) (tk_event c) b \<and> bytes_of = Some b \<and> entry b
         | Finished (Inr _) \<Rightarrow> \<exists>b. bytes_of = Some b \<and> entry b
         | _ \<Rightarrow> True)"

lemma call_ok_mono: "call_ok api log c \<Longrightarrow> set log \<subseteq> set log' \<Longrightarrow> call_ok api log' c"
  by (auto simp: call_ok_def Let_def split: save_pc.splits sum.splits)

lemma save_move_log:
  assumes "js_durable publish log" and "save_move api publish limit t (c, io) = (c', io')"
  shows "set (log (io_js io)) \<subseteq> set (log (io_js io'))"
  using assms by (cases rule: save_move_effect) auto

lemma save_move_ok:
  assumes "js_durable publish log" and "save_move api publish limit t (c, io) = (c', io')"
    and "call_ok api (log (io_js io)) c"
  shows "call_ok api (log (io_js io')) c'"
proof (cases "tk_pc c")
  case (Waiting pc)
  with assms(2) show ?thesis by (auto simp: save_move_Waiting after_wait_def call_ok_def)
next
  case Serializing
  with assms(2) show ?thesis by (auto simp: save_move_def call_ok_def split: option.splits)
next
  case (Publishing b)
  obtain r js' where pub: "publish (io_js io) (event_msg (tk_agent c) b) = (r, js')" by fastforce
  with Publishing assms(2) have "c' = c\<lparr>tk_pc := Await_ack r b\<rparr>" and "io' = io\<lparr>io_js := js'\<rparr>"
    by (simp_all add: save_move_def event_msg_def)
  with Publishing assms(3) js_durable_Acked [OF assms(1)] pub show ?thesis by (auto simp: call_ok_def)
next
  case (Await_ack r b)
  with assms(2,3) show ?thesis
    by (auto simp: save_move_def call_ok_def published_def pending_of_def split: pub_result.splits)
next
  case (Sending ev)
  obtain out io2 where enq: "enqueue ev io = (out, io2)" by fastforce
  from enq show ?thesis
    by (cases rule: enqueue_cases) (use Sending enq assms(2,3) in \<open>auto simp: save_move_def call_ok_def\<close>)
next
  case (Finished r)
  with assms(2,3) show ?thesis by (auto simp: save_move_def)
qed

definition fleet_ok :: "('v, 'js) world \<Rightarrow> ('v, 'js) fleet \<Rightarrow> bool" where
  "fleet_ok wd f \<longleftrightarrow> list_all (call_ok (wd_api wd) (wd_log wd (io_js (fl_io f)))) (fl_calls f)"

lemma fleet_ok_step:
  assumes "durable wd" and "fleet_ok wd f" and "fleet_step wd f f'"
  shows "fleet_ok wd f'"
proof -
  from assms(1) have js: "js_durable (wd_publish wd) (wd_log wd)" by (simp add: durable_def)
  from assms(3) show ?thesis
  proof (cases rule: fleet_step.cases)
    case (arrive agent_id event_id payload)
    with assms(2) show ?thesis by (simp add: fleet_ok_def call_ok_def new_call_def after_wait_def)
  next
    case (move before c after t c' io')
    from save_move_log [OF js move(3)] assms(2) have
      "list_all (call_ok (wd_api wd) (wd_log wd (io_js io'))) (before @ after)"
      by (auto simp: fleet_ok_def move(2) list_all_iff intro: call_ok_mono)
    moreover have "call_ok (wd_api wd) (wd_log wd (io_js io')) c'"
      using assms(2) by (intro save_move_ok [OF js move(3)]) (simp add: fleet_ok_def move(2))
    ultimately show ?thesis by (simp add: fleet_ok_def move(1))
  qed (use assms(2) in \<open>auto simp: fleet_ok_def\<close>)
qed

interpretation fleet: inductive_invariant "\<lambda>f. durable wd \<and> fleet_init events f"
    "\<lambda>f g. durable wd \<and> fleet_step wd f g" "fleet_ok wd"
  for wd :: "('v, 'js) world" and events
proof unfold_locales
  show "fleet_ok wd f" if "durable wd \<and> fleet_init events f" for f
    using that by (simp add: fleet_init_def fleet_ok_def)
qed (auto intro: fleet_ok_step)

text \<open>
  C5.  However the calls interleave, and wherever they are dropped, the log comes first: a call that
  has returned \<open>Ok\<close> has its envelope in the log, and so has every event that is queued, batched, in a
  dead letter or reported as lost; every row is old or a logged event's, and the rows only grow, under
  distinct keys if they had them.
\<close>

theorem interleaved_saves_behind_log:
  assumes "js_durable (wd_publish wd) (wd_log wd)" and "reach (fleet_init events) (fleet_step wd) f"
  shows "(c \<in> set (fl_calls f) \<and> tk_pc c = Finished (Inr ()) \<longrightarrow>
        (\<exists>b. to_vec (wd_api wd) (envelope (wd_api wd) (tk_agent c) (tk_event c) (tk_payload c)) = Some b
          \<and> event_msg (tk_agent c) b \<in> set (wd_log wd (io_js (fl_io f)))))
    \<and> msg_of ` (set (q_items (io_queue (fl_io f))) \<union> held (fl_writer f)) \<subseteq> set (wd_log wd (io_js (fl_io f)))
    \<and> set (w_events (fl_writer f)) \<subseteq> set events
        \<union> row_of_event (wd_lossy wd) ` {ev. msg_of ev \<in> set (wd_log wd (io_js (fl_io f)))}
    \<and> prefix events (w_events (fl_writer f))
    \<and> (events_unique (wd_coll wd) events \<longrightarrow> events_unique (wd_coll wd) (w_events (fl_writer f)))"
proof -
  from assms(1) have "durable wd" by (simp add: durable_def)
  note r = durable_fleet_reach [OF this assms(2)]
  have spec: "pipeline_inv (wd_coll wd) (wd_lossy wd) events (fleet_pipeline wd f)"
    using r by (rule fleet_spec.reach_inv)
  have "fleet_ok wd f" using r by (rule fleet.reach_inv)
  then have "c \<in> set (fl_calls f) \<and> tk_pc c = Finished (Inr ()) \<longrightarrow>
        (\<exists>b. to_vec (wd_api wd) (envelope (wd_api wd) (tk_agent c) (tk_event c) (tk_payload c)) = Some b
          \<and> event_msg (tk_agent c) b \<in> set (wd_log wd (io_js (fl_io f))))"
    by (auto simp: fleet_ok_def list_all_iff call_ok_def Let_def)
  moreover have "msg_of ` (set (q_items (io_queue (fl_io f))) \<union> held (fl_writer f)) \<subseteq> set (wd_log wd (io_js (fl_io f)))"
    using spec by (auto simp: pipeline_inv_def pipeline_logged_def fleet_pipeline_def gone_def held_def)
  ultimately show ?thesis using spec by (simp add: pipeline_inv_def pipeline_logged_def fleet_pipeline_def)
qed

section \<open>What becomes of the events\<close>

text \<open>The event of a call that has returned \<open>Ok\<close>.\<close>

definition returned_ok :: "'v json_api \<Rightarrow> 'v save_task \<Rightarrow> pending_event list" where
  "returned_ok api c = (case tk_pc c of
      Finished (Inr _) \<Rightarrow>
        (case to_vec api (envelope api (tk_agent c) (tk_event c) (tk_payload c)) of
           None \<Rightarrow> [] | Some b \<Rightarrow> [pending_of (tk_agent c) (tk_event c) b])
    | _ \<Rightarrow> [])"

lemma returned_ok_length:
  "list_all (call_ok api log) cs \<Longrightarrow>
     length (concat (map (returned_ok api) cs)) = length (filter (\<lambda>c. tk_pc c = Finished (Inr ())) cs)"
  by (induction cs) (auto simp: returned_ok_def call_ok_def Let_def split: save_pc.splits sum.splits option.splits)

definition fleet_saved :: "'v json_api \<Rightarrow> ('v, 'js) fleet \<Rightarrow> pending_event list" where
  "fleet_saved api f = concat (map (returned_ok api) (fl_calls f))"

definition fleet_accounted :: "('v, 'js) world \<Rightarrow> ('v, 'js) fleet \<Rightarrow> bool" where
  "fleet_accounted wd f \<longleftrightarrow>
     mset (push_values (wd_lossy wd) (fleet_saved (wd_api wd) f))
       \<subseteq># booked (wd_lossy wd) (fl_writer f) + mset (push_values (wd_lossy wd) (q_items (io_queue (fl_io f))))"

lemma save_move_returned:
  assumes "call_ok api (log (io_js io)) c" and "save_move api publish limit t (c, io) = (c', io')"
  obtains (same) "returned_ok api c' = returned_ok api c" "q_items (io_queue io') = q_items (io_queue io)"
  | (saved) ev where "returned_ok api c = []" "returned_ok api c' = [ev]"
      "q_items (io_queue io') = q_items (io_queue io) @ [ev]"
proof (cases "tk_pc c")
  case (Sending ev)
  obtain out io2 where enq: "enqueue ev io = (out, io2)" by fastforce
  from enq show ?thesis
  proof (cases rule: enqueue_cases)
    case accepted
    with Sending enq assms show ?thesis
      by (intro saved [of ev]) (auto simp: save_move_def returned_ok_def call_ok_def)
  qed (use Sending enq assms(2) in \<open>auto simp: save_move_def returned_ok_def intro: same\<close>)
next
  case (Waiting pc)
  with assms(2) show ?thesis by (intro same) (auto simp: save_move_Waiting returned_ok_def after_wait_def)
next
  case Serializing
  with assms(2) show ?thesis by (intro same) (auto simp: save_move_def returned_ok_def split: option.splits)
next
  case (Publishing b)
  with assms(2) show ?thesis by (intro same) (auto simp: save_move_def returned_ok_def split: prod.splits)
next
  case (Await_ack r b)
  with assms(2) show ?thesis by (intro same) (auto simp: save_move_def returned_ok_def split: sum.splits)
next
  case (Finished r)
  with assms(2) show ?thesis by (intro same) (auto simp: save_move_def)
qed

lemma fleet_accounted_step:
  assumes "fleet_ok wd f" and old: "fleet_accounted wd f" and "fleet_step wd f f'"
  shows "fleet_accounted wd f'"
  using assms(3)
proof (cases rule: fleet_step.cases)
  case (arrive agent_id event_id payload)
  have "returned_ok (wd_api wd) (new_call (wd_limit wd) agent_id event_id payload) = []"
    by (simp add: returned_ok_def new_call_def after_wait_def)
  with old arrive show ?thesis by (simp add: fleet_accounted_def fleet_saved_def)
next
  case (move before c after t c' io')
  have "call_ok (wd_api wd) (wd_log wd (io_js (fl_io f))) c"
    using assms(1) by (simp add: fleet_ok_def move(2))
  then show ?thesis using move(3)
  proof (cases rule: save_move_returned)
    case same
    with old move show ?thesis by (simp add: fleet_accounted_def fleet_saved_def)
  next
    case (saved ev)
    with old move show ?thesis by (simp add: fleet_accounted_def fleet_saved_def)
  qed
next
  case (drop before c after)
  then have "mset (push_values (wd_lossy wd) (fleet_saved (wd_api wd) f'))
      \<subseteq># mset (push_values (wd_lossy wd) (fleet_saved (wd_api wd) f))"
    by (simp add: fleet_saved_def)
  with old drop show ?thesis by (auto simp: fleet_accounted_def intro: subset_mset.order_trans)
next
  case (receive ev items fw)
  let ?row = "{#row_of_event (wd_lossy wd) ev#}"
  have "booked (wd_lossy wd) (fl_writer f) + ?row \<subseteq># booked (wd_lossy wd) (fl_writer f')"
    using select_world_books [of wd "fl_writer f" "Recv ev fw"] by (simp add: receive(1))
  then have "booked (wd_lossy wd) (fl_writer f) + ?row + mset (push_values (wd_lossy wd) items)
      \<subseteq># booked (wd_lossy wd) (fl_writer f') + mset (push_values (wd_lossy wd) items)"
    by (rule subset_mset.add_right_mono)
  with old receive show ?thesis
    by (auto simp: fleet_accounted_def fleet_saved_def intro: subset_mset.order_trans)
next
  case (tick fw)
  have "booked (wd_lossy wd) (fl_writer f) \<subseteq># booked (wd_lossy wd) (fl_writer f')"
    using select_world_books [of wd "fl_writer f" "Tick fw"] by (simp add: tick)
  with old tick show ?thesis
    by (auto simp: fleet_accounted_def fleet_saved_def intro: subset_mset.order_trans subset_mset.add_right_mono)
next
  case crash
  then show ?thesis by (simp add: fleet_accounted_def fleet_saved_def)
qed

interpretation fleet_ledger: inductive_invariant "\<lambda>f. durable wd \<and> fleet_init events f"
    "\<lambda>f g. durable wd \<and> fleet_step wd f g" "\<lambda>f. fleet_ok wd f \<and> fleet_accounted wd f"
  for wd :: "('v, 'js) world" and events
proof unfold_locales
  show "fleet_ok wd f \<and> fleet_accounted wd f" if "durable wd \<and> fleet_init events f" for f
    using that by (simp add: fleet_init_def fleet_ok_def fleet_accounted_def fleet_saved_def)
qed (auto intro: fleet_ok_step fleet_accounted_step)

text \<open>
  C6.  Under any interleaving, and whichever calls are dropped, each call that has returned \<open>Ok\<close> in the
  present life of the process has an entry of its own: the events of these calls, counted with
  multiplicity, are in the table, in a dead letter, reported as lost, in the batch or in the queue.
\<close>

theorem interleaved_saves_accounted:
  assumes "js_durable (wd_publish wd) (wd_log wd)" and "reach (fleet_init events) (fleet_step wd) f"
  shows "mset (push_values (wd_lossy wd) (fleet_saved (wd_api wd) f)) \<subseteq># mset (w_events (fl_writer f))
      + mset (push_values (wd_lossy wd) (concat (w_dead (fl_writer f)) @ w_lost (fl_writer f)
          @ w_batch (fl_writer f) @ q_items (io_queue (fl_io f))))
    \<and> length (fleet_saved (wd_api wd) f) = length (filter (\<lambda>c. tk_pc c = Finished (Inr ())) (fl_calls f))"
proof -
  from assms(1) have "durable wd" by (simp add: durable_def)
  from durable_fleet_reach [OF this assms(2)] have inv: "fleet_ok wd f \<and> fleet_accounted wd f"
    by (rule fleet_ledger.reach_inv)
  with inv show ?thesis
    by (auto simp: fleet_accounted_def booked_def fleet_saved_def fleet_ok_def returned_ok_length ac_simps)
qed

section \<open>A run\<close>

text \<open>A schedule names, step by step, the call that moves.\<close>

definition fleet_move :: "('v, 'js) world \<Rightarrow> nat \<Rightarrow> ('v, 'js) fleet \<Rightarrow> ('v, 'js) fleet" where
  "fleet_move wd i f =
     (let (c', io') = save_move (wd_api wd) (wd_publish wd) (wd_limit wd) 0 (fl_calls f ! i, fl_io f)
      in f\<lparr>fl_io := io', fl_calls := (fl_calls f)[i := c']\<rparr>)"

lemma fleet_move_step:
  assumes "i < length (fl_calls f)"
  shows "fleet_step wd f (fleet_move wd i f)"
proof -
  obtain c' io' where run: "save_move (wd_api wd) (wd_publish wd) (wd_limit wd) 0 (fl_calls f ! i, fl_io f) = (c', io')"
    by fastforce
  from fleet_step.move [OF id_take_nth_drop [OF assms] run] show ?thesis
    by (simp add: fleet_move_def run upd_conv_take_nth_drop [OF assms])
qed

lemma fleet_move_length [simp]: "length (fl_calls (fleet_move wd i f)) = length (fl_calls f)"
  by (simp add: fleet_move_def split: prod.splits)

lemma fleet_moves_steps:
  "list_all (\<lambda>i. i < length (fl_calls f)) sched \<Longrightarrow> (fleet_step wd)\<^sup>*\<^sup>* f (fold (fleet_move wd) sched f)"
proof (induction sched arbitrary: f)
  case (Cons i sched)
  then have "fleet_step wd f (fleet_move wd i f)" by (intro fleet_move_step) simp
  with Cons.IH [of "fleet_move wd i f"] Cons.prems show ?case
    by (simp add: converse_rtranclp_into_rtranclp)
qed simp

definition demo_fleet :: "(string, wal_msg list) fleet" where
  "demo_fleet = \<lparr>fl_io = (demo_io True)\<lparr>io_queue := \<lparr>q_items = [], q_capacity = 9, q_open = True\<rparr>\<rparr>,
     fl_calls = [new_call u32_MAX ''a'' ''1'' ''p'', new_call u32_MAX ''a'' ''2'' ''p''],
     fl_writer = writer_init []\<rparr>"

lemma demo_fleet_reach: "reach (fleet_init []) (fleet_step demo_world) demo_fleet"
proof -
  let ?f = "demo_fleet\<lparr>fl_calls := []\<rparr>"
  have "reach (fleet_init []) (fleet_step demo_world) ?f"
    by (rule reach_init) (simp add: fleet_init_def demo_fleet_def demo_io_def)
  then have "reach (fleet_init []) (fleet_step demo_world)
      (?f\<lparr>fl_calls := fl_calls ?f @ [new_call (wd_limit demo_world) ''a'' ''1'' ''p'']\<rparr>)" (is "reach _ _ ?g")
    by (rule reach_step) (rule fleet_step.arrive)
  then have "reach (fleet_init []) (fleet_step demo_world)
      (?g\<lparr>fl_calls := fl_calls ?g @ [new_call (wd_limit demo_world) ''a'' ''2'' ''p'']\<rparr>)"
    by (rule reach_step) (rule fleet_step.arrive)
  then show ?thesis by (simp add: demo_fleet_def demo_world_def)
qed

text \<open>The first call publishes; the second overtakes it on the way to the queue.\<close>

definition overtaken :: "(string, wal_msg list) fleet" where
  "overtaken = fold (fleet_move demo_world) [0, 0, 0, 1, 1, 1, 1, 0] demo_fleet"

definition demo_nth :: "string \<Rightarrow> pending_event" where
  "demo_nth e = pending_of ''a'' e (envelope demo_json ''a'' e ''p'')"

lemma overtaken_reach: "reach (fleet_init []) (fleet_step demo_world) overtaken"
proof -
  have "list_all (\<lambda>i. i < length (fl_calls demo_fleet)) [0, 0, 0, 1, 1, 1, 1, 0]" by (simp add: demo_fleet_def)
  from reach_steps [OF demo_fleet_reach fleet_moves_steps [OF this]] show ?thesis by (simp add: overtaken_def)
qed

lemma overtaken_eval:
  "io_js (fl_io overtaken) = [msg_of (demo_nth ''1''), msg_of (demo_nth ''2'')]"
  "q_items (io_queue (fl_io overtaken)) = [demo_nth ''2'', demo_nth ''1'']"
  "map tk_pc (fl_calls overtaken) = [Finished (Inr ()), Finished (Inr ())]"
  "fl_writer overtaken = writer_init []"
  by (simp_all add: overtaken_def demo_fleet_def fleet_move_def save_move_def new_call_def after_wait_def
      wait_enter_def demo_world_def demo_publish_def published_def trace_subject_def enqueue_def demo_io_def
      demo_nth_def msg_of_def pending_of_def event_msg_def Let_def)

theorem interleaved_saves_behind_log_witness:
  "\<exists>c \<in> set (fl_calls overtaken). \<exists>b. event_msg (tk_agent c) b \<in> set (io_js (fl_io overtaken))"
proof -
  from overtaken_eval(3) obtain c c' where "fl_calls overtaken = [c, c']" and "tk_pc c = Finished (Inr ())"
    by auto
  with interleaved_saves_behind_log [OF demo_world_durable overtaken_reach, of c] show ?thesis
    by (auto simp: demo_world_def)
qed

theorem interleaved_saves_accounted_witness:
  "mset (push_values id [demo_nth ''1'', demo_nth ''2'']) \<subseteq># mset (push_values id (q_items (io_queue (fl_io overtaken))))"
proof -
  have "map (returned_ok demo_json) (fl_calls overtaken) = [[demo_nth ''1''], [demo_nth ''2'']]"
    by (simp add: overtaken_def demo_fleet_def fleet_move_def save_move_def new_call_def after_wait_def
        wait_enter_def demo_world_def demo_publish_def published_def trace_subject_def enqueue_def demo_io_def
        demo_nth_def returned_ok_def Let_def)
  then have "fleet_saved (wd_api demo_world) overtaken = [demo_nth ''1'', demo_nth ''2'']"
    by (simp add: fleet_saved_def demo_world_def)
  with interleaved_saves_accounted [OF demo_world_durable overtaken_reach] overtaken_eval(2,4) show ?thesis
    by (simp add: writer_init_def demo_world_def)
qed

text \<open>
  The table need not have the order of the log: two calls that have both returned \<open>Ok\<close> may stand
  in the queue, and after one flush in the table, in the other order than in the log, since nothing
  holds a call back between its acknowledgement and its send.
\<close>

theorem queue_order_differs:
  "\<exists>(f :: (string, wal_msg list) fleet) g ev1 ev2.
     reach (fleet_init []) (fleet_step demo_world) f \<and> (fleet_step demo_world)\<^sup>*\<^sup>* f g
     \<and> list_all (\<lambda>c. tk_pc c = Finished (Inr ())) (fl_calls f) \<and> ev1 \<noteq> ev2
     \<and> wd_log demo_world (io_js (fl_io f)) = [msg_of ev1, msg_of ev2]
     \<and> q_items (io_queue (fl_io f)) = [ev2, ev1]
     \<and> w_events (fl_writer g) = push_values (wd_lossy demo_world) [ev2, ev1]"
proof -
  let ?q = "\<lambda>f. q_items (io_queue (fl_io f))"
  obtain g1 where g1: "fleet_step demo_world overtaken g1" "?q g1 = [demo_nth ''1'']"
      "fl_writer g1 = select_world demo_world (Recv (demo_nth ''2'') quiet) (writer_init [])"
    using fleet_step.receive [OF overtaken_eval(2), of demo_world quiet] overtaken_eval(4) by auto
  obtain g2 where g2: "fleet_step demo_world g1 g2"
      "fl_writer g2 = select_world demo_world (Recv (demo_nth ''1'') quiet) (fl_writer g1)"
    using fleet_step.receive [OF g1(2), of demo_world quiet] by auto
  obtain g3 where g3: "fleet_step demo_world g2 g3" "fl_writer g3 = select_world demo_world (Tick quiet) (fl_writer g2)"
    using fleet_step.tick [of demo_world g2 quiet] by auto
  have steps: "(fleet_step demo_world)\<^sup>*\<^sup>* overtaken g3" using g1(1) g2(1) g3(1) by auto
  have neq: "demo_nth ''1'' \<noteq> demo_nth ''2''" by (simp add: demo_nth_def pending_of_def)
  have "w_events (fl_writer g3) = push_values (wd_lossy demo_world) [demo_nth ''2'', demo_nth ''1'']"
    using drain_flush [of "writer_init []" "[demo_nth ''2'', demo_nth ''1'']" demo_world quiet]
      flush_quiet [of "(writer_init [])\<lparr>w_batch := [demo_nth ''2'', demo_nth ''1'']\<rparr>" "wd_coll demo_world" "wd_lossy demo_world"]
    by (simp add: g1(3) g2(2) g3(2) drain_def writer_init_def demo_world_def events_unique_def
        uq_agent_event_def row_of_event_def demo_nth_def pending_of_def)
  moreover have "list_all (\<lambda>c. tk_pc c = Finished (Inr ())) (fl_calls overtaken)"
    using overtaken_eval(3) by (auto simp: list_all_iff)
  ultimately show ?thesis
    using overtaken_reach steps neq overtaken_eval(1,2)
    by (intro exI [of _ overtaken] exI [of _ g3] exI [of _ "demo_nth ''1''"] exI [of _ "demo_nth ''2''"])
       (simp add: demo_world_def)
qed

text \<open>
  A call is not safe to drop: dropped between the acknowledgement of JetStream and its send, as when the
  client has gone, it leaves its event in the log and nowhere else, with no crash and no error.
\<close>

definition abandoned :: "(string, wal_msg list) fleet" where
  "abandoned = fold (fleet_move demo_world) [0, 0, 0] demo_fleet"

lemma abandoned_eval:
  "io_js (fl_io abandoned) = [msg_of (demo_nth ''1'')]"
  "q_items (io_queue (fl_io abandoned)) = []"
  "map tk_pc (fl_calls abandoned) = [Sending (demo_nth ''1''), Serializing]"
  "fl_writer abandoned = writer_init []"
  by (simp_all add: abandoned_def demo_fleet_def fleet_move_def save_move_def new_call_def after_wait_def
      wait_enter_def demo_world_def demo_publish_def published_def trace_subject_def enqueue_def demo_io_def
      demo_nth_def msg_of_def pending_of_def event_msg_def Let_def)

theorem dropped_call_leaves_log_only:
  "\<exists>(f :: (string, wal_msg list) fleet) g c cs ev.
     reach (fleet_init []) (fleet_step demo_world) f \<and> fl_calls f = c # cs
     \<and> g = f\<lparr>fl_calls := cs\<rparr> \<and> fleet_step demo_world f g
     \<and> wd_log demo_world (io_js (fl_io g)) = [msg_of ev]
     \<and> q_items (io_queue (fl_io g)) = [] \<and> concat (map in_hand (fl_calls g)) = []
     \<and> fl_writer g = writer_init []"
proof -
  have "list_all (\<lambda>i. i < length (fl_calls demo_fleet)) [0, 0, 0]" by (simp add: demo_fleet_def)
  from reach_steps [OF demo_fleet_reach fleet_moves_steps [OF this]]
  have reached: "reach (fleet_init []) (fleet_step demo_world) abandoned" by (simp add: abandoned_def)
  obtain c d where calls: "fl_calls abandoned = [c, d]" and "tk_pc d = Serializing"
    using abandoned_eval(3) by auto
  with fleet_step.drop [of abandoned "[]" c "[d]" demo_world] reached abandoned_eval(1,2,4) show ?thesis
    by (intro exI [of _ abandoned] exI [of _ "abandoned\<lparr>fl_calls := [d]\<rparr>"] exI [of _ c] exI [of _ "[d]"]
        exI [of _ "demo_nth ''1''"]) (simp add: in_hand_def demo_world_def)
qed

end
