(* ===== verification/Bench_Data.thy ===== *)
theory Bench_Data
  imports Concurrent
begin

text \<open>
  The data of \<open>src/bin/benchmark.rs\<close>: its profiles, its statistics, the events that its scenarios save,
  and its clean-up.
\<close>

section \<open>Profiles\<close>

definition community_config :: skialith_config where
  "community_config = \<lparr>max_batch_size = 64, max_batch_linger = 100, channel_capacity = 10000\<rparr>"

definition managed_config :: skialith_config where
  "managed_config = \<lparr>max_batch_size = 256, max_batch_linger = 10, channel_capacity = 10000\<rparr>"

lemma profiles_clamped:
  "clamp_config False managed_config = community_config"
  "clamp_config False community_config = community_config"
  "clamp_config True managed_config = managed_config"
  by (simp_all add: clamp_config_def managed_config_def community_config_def edition_limits)

section \<open>Statistics\<close>

text \<open>
  Latencies are in microseconds.  The index is computed in the code with an \<open>f64\<close>, whose rounding
  cannot reach the next integer for fewer than \<open>2 ^ 46\<close> latencies and an integral \<open>p\<close>.
\<close>

definition percentile :: "nat list \<Rightarrow> nat \<Rightarrow> nat" where
  "percentile xs p =
     (if xs = [] then 0
      else (let idx = length xs * p div 100 in xs ! min idx (length xs - 1)))"

definition print_latencies :: "nat list \<Rightarrow> nat \<times> nat \<times> nat \<times> nat" where
  "print_latencies latencies =
     (let s = sort latencies
      in (percentile s 50, percentile s 95, percentile s 99, if s = [] then 0 else last s))"

lemma percentile_mono:
  assumes "sorted xs" and "p \<le> q"
  shows "percentile xs p \<le> percentile xs q"
proof (cases "xs = []")
  case False
  have "length xs * p div 100 \<le> length xs * q div 100" using assms(2) by (intro div_le_mono) simp
  with False assms(1) show ?thesis by (auto simp: percentile_def Let_def intro!: sorted_nth_mono min.strict_coboundedI2)
qed (simp add: percentile_def)

lemma percentile_index:
  assumes "xs \<noteq> []" and "p < 100"
  shows "percentile xs p = xs ! (length xs * p div 100)" and "length xs * p div 100 < length xs"
proof -
  have "length xs * p < length xs * 100" using assms by simp
  then show below: "length xs * p div 100 < length xs" by (simp add: less_mult_imp_div_less)
  then show "percentile xs p = xs ! (length xs * p div 100)"
    using assms(1) by (simp add: percentile_def Let_def min_def)
qed

lemma filter_less_sorted:
  assumes "sorted xs" and "k < length xs"
  shows "length (filter (\<lambda>x. x < xs ! k) xs) \<le> k" and "k < length (filter (\<lambda>x. x \<le> xs ! k) xs)"
proof -
  let ?hi = "drop k xs" and ?lo = "take (Suc k) xs"
  have "filter (\<lambda>x. x < xs ! k) ?hi = []"
    using assms by (auto simp: filter_empty_conv in_set_conv_nth sorted_nth_mono not_less)
  then have "filter (\<lambda>x. x < xs ! k) xs = filter (\<lambda>x. x < xs ! k) (take k xs)"
    by (metis append.right_neutral append_take_drop_id filter_append)
  also have "length \<dots> \<le> length (take k xs)" by (rule length_filter_le)
  finally show "length (filter (\<lambda>x. x < xs ! k) xs) \<le> k" using assms(2) by simp
  have "filter (\<lambda>x. x \<le> xs ! k) ?lo = ?lo"
    using assms by (auto simp: filter_id_conv in_set_conv_nth sorted_nth_mono)
  moreover have "length (filter (\<lambda>x. x \<le> xs ! k) ?lo) \<le> length (filter (\<lambda>x. x \<le> xs ! k) xs)"
    by (metis append_take_drop_id filter_append le_add1 length_append)
  ultimately show "k < length (filter (\<lambda>x. x \<le> xs ! k) xs)" using assms(2) by simp
qed

lemma filter_sort_length: "length (filter P (sort xs)) = length (filter P xs)"
  by (metis mset_filter mset_sort size_mset)

text \<open>
  C30.  The printed statistics are what they are called: each percentile is a measured latency, at most
  \<open>p\<close> percent of the latencies are below it and more than that are not above it; they are ordered, and
  the last is the largest latency.
\<close>

theorem latency_statistics:
  assumes "latencies \<noteq> []" and "print_latencies latencies = (p50, p95, p99, mx)"
  shows "p50 \<le> p95 \<and> p95 \<le> p99 \<and> p99 \<le> mx \<and> mx = Max (set latencies)
    \<and> list_all (\<lambda>(p, v). v \<in> set latencies
         \<and> length (filter (\<lambda>x. x < v) latencies) \<le> length latencies * p div 100
         \<and> length latencies * p div 100 < length (filter (\<lambda>x. x \<le> v) latencies))
       [(50, p50), (95, p95), (99, p99)]"
proof -
  let ?s = "sort latencies"
  have ne: "?s \<noteq> []" using assms(1) by (metis set_empty set_sort)
  have rank: "percentile ?s p \<in> set latencies
      \<and> length (filter (\<lambda>x. x < percentile ?s p) latencies) \<le> length latencies * p div 100
      \<and> length latencies * p div 100 < length (filter (\<lambda>x. x \<le> percentile ?s p) latencies)"
    if "p < 100" for p
  proof -
    note at = percentile_index [OF ne that]
    have "percentile ?s p \<in> set ?s" unfolding at(1) by (rule nth_mem [OF at(2)])
    moreover note filter_less_sorted [OF sorted_sort at(2)]
    ultimately show ?thesis by (simp add: at(1) filter_sort_length)
  qed
  have mx: "mx = last ?s" and ps: "p50 = percentile ?s 50" "p95 = percentile ?s 95" "p99 = percentile ?s 99"
    using assms(2) ne by (simp_all add: print_latencies_def Let_def)
  have upper: "x \<le> last ?s" if "x \<in> set latencies" for x
  proof -
    from that obtain i where "i < length ?s" "x = ?s ! i" by (metis in_set_conv_nth set_sort)
    with ne show ?thesis by (auto simp: last_conv_nth intro!: sorted_nth_mono)
  qed
  have "last ?s \<in> set latencies" using last_in_set [OF ne] by simp
  with upper have "mx = Max (set latencies)" unfolding mx by (intro Max_eqI [symmetric]) auto
  moreover have "p99 \<le> mx" using rank [of 99] upper by (simp add: ps mx)
  moreover have "p50 \<le> p95" "p95 \<le> p99" by (simp_all add: ps percentile_mono)
  ultimately show ?thesis using rank [of 50] rank [of 95] rank [of 99] by (simp add: ps)
qed

theorem latency_statistics_witness:
  "print_latencies [30, 10, 20, 40] = (30, 40, 40, 40) \<and> Max (set [30, 10, 20, 40 :: nat]) = 40"
proof -
  have run: "print_latencies [30, 10, 20, 40] = (30, 40, 40, 40)"
    by (simp add: print_latencies_def percentile_def Let_def)
  from latency_statistics [OF _ this] run show ?thesis by simp
qed

section \<open>The events of a run\<close>

text \<open>
  The agent, the identifier and the payload of each event of a scenario; \<open>run_id\<close> is the time in
  nanoseconds.
\<close>

definition evt :: "nat \<Rightarrow> string" where
  "evt i = ''evt-'' @ decimal i"

definition step_payload :: "'v json_api \<Rightarrow> nat \<Rightarrow> 'v" where
  "step_payload api i = jv_object api [(''step'', jv_int api (of_nat i))]"

definition task_payload :: "'v json_api \<Rightarrow> nat \<Rightarrow> nat \<Rightarrow> 'v" where
  "task_payload api task_id i = jv_object api [(''task'', jv_int api (of_nat task_id)), (''step'', jv_int api (of_nat i))]"

type_synonym 'v bench_event = "string \<times> string \<times> 'v"

definition latency_events :: "'v json_api \<Rightarrow> nat \<Rightarrow> 'v bench_event list" where
  "latency_events api iterations = map (\<lambda>i. (''bench-latency'', evt i, step_payload api i)) [0..<iterations]"

definition batch_events :: "'v json_api \<Rightarrow> nat \<Rightarrow> nat \<Rightarrow> 'v bench_event list" where
  "batch_events api run_id event_count =
     map (\<lambda>i. (''bench-batch'', ''evt-'' @ decimal run_id @ ''-'' @ decimal i, step_payload api i)) [0..<event_count]"

definition task_event :: "'v json_api \<Rightarrow> string \<Rightarrow> nat \<Rightarrow> nat \<Rightarrow> 'v bench_event" where
  "task_event api pre task_id i = (pre @ decimal task_id, evt i, task_payload api task_id i)"

definition task_events :: "'v json_api \<Rightarrow> string \<Rightarrow> nat \<Rightarrow> nat \<Rightarrow> 'v bench_event list" where
  "task_events api pre concurrency events_per_task =
     concat (map (\<lambda>t. map (task_event api pre t) [0..<events_per_task]) [0..<concurrency])"

definition baseline_events :: "'v json_api \<Rightarrow> nat \<Rightarrow> 'v bench_event list" where
  "baseline_events api iterations = map (\<lambda>i. (''bench-baseline'', evt i, step_payload api i)) [0..<iterations]"

definition keys :: "'v bench_event list \<Rightarrow> (string \<times> string) list" where
  "keys evs = map (\<lambda>(a, e, p). (a, e)) evs"

definition benchmark_events :: "'v json_api \<Rightarrow> nat \<Rightarrow> 'v bench_event list" where
  "benchmark_events api run_id = latency_events api 500 @ batch_events api run_id 1000
     @ task_events api ''bench-backpressure-'' 10 2000 @ task_events api ''bench-concurrent-'' 500 20
     @ baseline_events api 500"

lemma decimal_small: "n < 10 \<Longrightarrow> decimal n = [char_of (48 + n)]"
  by (subst decimal.simps) (rule if_P)

lemma decimal_large: "\<not> n < 10 \<Longrightarrow> decimal n = decimal (n div 10) @ [char_of (48 + n mod 10)]"
  by (subst decimal.simps) (rule if_not_P)

lemma digit_char_inj:
  fixes a b :: nat
  assumes "a < 10" and "b < 10"
  shows "(char_of (48 + a) :: char) = char_of (48 + b) \<longleftrightarrow> a = b"
proof
  assume same: "(char_of (48 + a) :: char) = char_of (48 + b)"
  have "Some a = digit_val (char_of (48 + b))"
    using digit_val_char_of [OF assms(1)] unfolding same by (rule sym)
  then show "a = b" unfolding digit_val_char_of [OF assms(2)] by (rule option.inject [THEN iffD1])
next
  assume "a = b"
  then show "(char_of (48 + a) :: char) = char_of (48 + b)" by (rule arg_cong [of _ _ "\<lambda>n. char_of (48 + n)"])
qed

lemma decimal_inj: "decimal m = decimal n \<longleftrightarrow> m = n"
proof (induction m arbitrary: n rule: decimal.induct)
  case (1 m)
  show ?case
  proof (cases "m < 10 \<or> n < 10")
    case True
    then show ?thesis
      using decimal_not_Nil [of "m div 10"] decimal_not_Nil [of "n div 10"]
      by (cases "m < 10"; cases "n < 10") (auto simp: decimal_small decimal_large digit_char_inj)
  next
    case False
    then have "decimal m = decimal n \<longleftrightarrow> m div 10 = n div 10 \<and> m mod 10 = n mod 10"
      using 1 [of "n div 10"] by (simp add: decimal_large digit_char_inj)
    also have "\<dots> \<longleftrightarrow> m = n" by (metis div_mod_decomp)
    finally show ?thesis .
  qed
qed

lemma keys_simps:
  "keys (latency_events api n) = map (\<lambda>i. (''bench-latency'', evt i)) [0..<n]"
  "keys (batch_events api r n) = map (\<lambda>i. (''bench-batch'', ''evt-'' @ decimal r @ ''-'' @ decimal i)) [0..<n]"
  "keys (task_events api pre c e) = concat (map (\<lambda>t. map (\<lambda>i. (pre @ decimal t, evt i)) [0..<e]) [0..<c])"
  "keys (baseline_events api n) = map (\<lambda>i. (''bench-baseline'', evt i)) [0..<n]"
  "keys (evs @ evs') = keys evs @ keys evs'"
  by (simp_all add: keys_def latency_events_def batch_events_def task_events_def task_event_def
      baseline_events_def map_concat comp_def)

lemma distinct_keys:
  "distinct (keys (latency_events api n))" "distinct (keys (batch_events api r n))"
  "distinct (keys (baseline_events api n))"
  by (auto simp: keys_simps evt_def distinct_map inj_on_def decimal_inj)

lemma distinct_task_keys: "distinct (keys (task_events api pre c e))"
proof -
  have "inj_on (\<lambda>i. (pre @ decimal t, evt i)) A" for t A
    by (auto simp: inj_on_def evt_def decimal_inj)
  then show ?thesis
    by (induction c) (auto simp: keys_simps distinct_map decimal_inj)
qed

text \<open>
  A benchmark run does not trip over its own events: all the keys it saves, over all scenarios, are
  distinct, and every one of them is of an agent that the clean-up's pattern \<open>bench-%\<close> covers.
\<close>

theorem benchmark_keys_distinct:
  "distinct (keys (benchmark_events api run_id))
   \<and> list_all (\<lambda>(a, e). take 6 a = ''bench-'') (keys (benchmark_events api run_id))"
proof -
  have "take 6 a = ''bench-''" if "(a, e) \<in> set (keys (benchmark_events api run_id))" for a e
    using that by (auto simp: benchmark_events_def keys_simps)
  moreover have "distinct (keys (benchmark_events api run_id))"
    unfolding benchmark_events_def keys_simps(5)
    by (auto simp: distinct_keys distinct_task_keys) (auto simp: keys_simps)
  ultimately show ?thesis by (auto simp: list_all_iff)
qed

section \<open>Clean-up\<close>

text \<open>
  Two statements whose errors are ignored by \<open>.ok()\<close>; \<open>like\<close> is the database's pattern matching, and a
  statement that fails may have been carried out all the same.
\<close>

definition delete_where :: "fault \<Rightarrow> ('r \<Rightarrow> bool) \<Rightarrow> 'r list \<Rightarrow> 'r list" where
  "delete_where fault P tbl =
     (case fault of
        Some (_, False) \<Rightarrow> tbl
      | _ \<Rightarrow> filter (\<lambda>r. \<not> P r) tbl)"

definition clear_bench_data ::
  "(string \<Rightarrow> string \<Rightarrow> bool) \<Rightarrow> fault \<Rightarrow> fault \<Rightarrow> event_row list \<times> 'v trace_row list
     \<Rightarrow> event_row list \<times> 'v trace_row list" where
  "clear_bench_data like f1 f2 db =
     (delete_where f1 (\<lambda>r. like ''bench-%'' (er_agent_id r)) (fst db),
      delete_where f2 (\<lambda>r. like ''bench-%'' (row_agent_id r)) (snd db))"

lemma clear_bench_data_idem:
  "clear_bench_data like None None (clear_bench_data like f1 f2 db) = clear_bench_data like None None db"
  by (auto simp: clear_bench_data_def delete_where_def conj_commute split: option.splits prod.splits bool.splits)

text \<open>Agents whose name does not fit the pattern keep their state, whatever fails.\<close>

lemma clear_bench_data_spares:
  assumes "\<And>a. coll a = coll agent_id \<Longrightarrow> \<not> like ''bench-%'' a"
  shows "resume_agent coll api f (snd (clear_bench_data like f1 f2 db)) agent_id
    = resume_agent coll api f (snd db) agent_id"
proof (rule resume_agent_cong)
  have "thought_rows coll agent_id (filter (\<lambda>r. \<not> like ''bench-%'' (row_agent_id r)) tbl)
      = thought_rows coll agent_id tbl" for tbl :: "'v trace_row list"
    using assms by (auto simp: thought_rows_def intro: filter_cong)
  then show "thought_rows coll agent_id (snd (clear_bench_data like f1 f2 db)) = thought_rows coll agent_id (snd db)"
    by (auto simp: clear_bench_data_def delete_where_def split: option.splits prod.splits bool.splits)
qed

end
