(* ===== verification/Bench_Tasks.thy ===== *)
theory Bench_Tasks
  imports Bench_Data
begin

text \<open>
  The third and fourth scenario of \<open>src/bin/benchmark.rs\<close>: tasks that meet at a barrier, then save their
  events one after the other, all tasks at the same time and at the grain of \<open>Concurrent\<close>; and the
  report that is printed when all have been joined.
\<close>

section \<open>The tasks\<close>

text \<open>
  A task has been spawned, waits at the barrier, is in the call for its \<open>n\<close>-th event, has saved all its
  events, or has panicked in \<open>expect\<close>.
\<close>

datatype 'v bench_task = Spawned | At_barrier | Calling nat "'v save_task" | Task_done | Task_panicked

definition next_event :: "'v json_api \<Rightarrow> u32 \<Rightarrow> string \<Rightarrow> nat \<Rightarrow> nat \<Rightarrow> nat \<Rightarrow> 'v bench_task" where
  "next_event api limit pre events_per_task task_id n =
     (if n < events_per_task
      then (let (a, e, p) = task_event api pre task_id n in Calling n (new_call limit a e p))
      else Task_done)"

definition task_turn ::
  "'v json_api \<Rightarrow> 'js publish \<Rightarrow> u32 \<Rightarrow> string \<Rightarrow> nat \<Rightarrow> nat \<Rightarrow> int \<Rightarrow> bool \<Rightarrow> 'v bench_task \<Rightarrow> 'js store_io
     \<Rightarrow> 'v bench_task \<times> 'js store_io" where
  "task_turn api publish limit pre events_per_task task_id t all_arrived task io =
     (case task of
        Spawned \<Rightarrow> (At_barrier, io)
      | At_barrier \<Rightarrow>
          (if all_arrived then next_event api limit pre events_per_task task_id 0 else At_barrier, io)
      | Calling n c \<Rightarrow>
          (let (c', io') = save_move api publish limit t (c, io)
           in (case tk_pc c' of
                 Finished (Inr _) \<Rightarrow> (next_event api limit pre events_per_task task_id (Suc n), io')
               | Finished (Inl _) \<Rightarrow> (Task_panicked, io')
               | _ \<Rightarrow> (Calling n c', io')))
      | _ \<Rightarrow> (task, io))"

text \<open>What comes next: a turn of a task, with the clock it would read, or the writer takes an event.\<close>

datatype bench_turn = Turn nat int | Writer_takes

fun tasks_move ::
  "'v json_api \<Rightarrow> 'js publish \<Rightarrow> u32 \<Rightarrow> string \<Rightarrow> nat \<Rightarrow> bench_turn \<Rightarrow> 'v bench_task list \<times> 'js store_io
     \<Rightarrow> 'v bench_task list \<times> 'js store_io" where
  "tasks_move api publish limit pre events_per_task (Turn i t) (tasks, io) =
     (if i < length tasks
      then (let (task', io') = task_turn api publish limit pre events_per_task i t (Spawned \<notin> set tasks) (tasks ! i) io
            in (tasks[i := task'], io'))
      else (tasks, io))"
| "tasks_move api publish limit pre events_per_task Writer_takes (tasks, io) =
     (tasks, io\<lparr>io_queue := (io_queue io)\<lparr>q_items := tl (q_items (io_queue io))\<rparr>\<rparr>)"

definition tasks_run ::
  "'v json_api \<Rightarrow> 'js publish \<Rightarrow> u32 \<Rightarrow> string \<Rightarrow> nat \<Rightarrow> bench_turn list \<Rightarrow> 'v bench_task list \<times> 'js store_io
     \<Rightarrow> 'v bench_task list \<times> 'js store_io" where
  "tasks_run api publish limit pre events_per_task sched = fold (tasks_move api publish limit pre events_per_task) sched"

text \<open>\<open>join_all\<close> waits for every task and drops what each of them returns, a panic included.\<close>

definition joined :: "'v bench_task list \<Rightarrow> bool" where
  "joined tasks \<longleftrightarrow> list_all (\<lambda>task. task = Task_done \<or> task = Task_panicked) tasks"

text \<open>The printed numbers of accepted and of all events, once the tasks have been joined.\<close>

definition bench_tasks ::
  "'v json_api \<Rightarrow> 'js publish \<Rightarrow> u32 \<Rightarrow> string \<Rightarrow> nat \<Rightarrow> nat \<Rightarrow> bench_turn list \<Rightarrow> 'js store_io
     \<Rightarrow> (nat \<times> nat) option \<times> 'js store_io" where
  "bench_tasks api publish limit pre concurrency events_per_task sched io =
     (let total = concurrency * events_per_task;
          (tasks, io') = tasks_run api publish limit pre events_per_task sched (replicate concurrency Spawned, io)
      in (if joined tasks then Some (total, total) else None, io'))"

definition bench_backpressure ::
  "'v json_api \<Rightarrow> 'js publish \<Rightarrow> u32 \<Rightarrow> nat \<Rightarrow> nat \<Rightarrow> bench_turn list \<Rightarrow> 'js store_io
     \<Rightarrow> (nat \<times> nat) option \<times> 'js store_io" where
  "bench_backpressure api publish limit = bench_tasks api publish limit ''bench-backpressure-''"

definition bench_concurrent_throughput ::
  "'v json_api \<Rightarrow> 'js publish \<Rightarrow> u32 \<Rightarrow> nat \<Rightarrow> nat \<Rightarrow> bench_turn list \<Rightarrow> 'js store_io
     \<Rightarrow> (nat \<times> nat) option \<times> 'js store_io" where
  "bench_concurrent_throughput api publish limit = bench_tasks api publish limit ''bench-concurrent-''"

section \<open>What the tasks have logged\<close>

definition entry_of :: "'v json_api \<Rightarrow> 'v bench_event \<Rightarrow> wal_msg" where
  "entry_of api ev = (case ev of (a, e, p) \<Rightarrow> event_msg a (the (to_vec api (envelope api a e p))))"

definition call_of :: "'v bench_event \<Rightarrow> 'v save_task \<Rightarrow> bool" where
  "call_of ev c \<longleftrightarrow> (tk_agent c, tk_event c, tk_payload c) = ev"

fun task_entries :: "'v json_api \<Rightarrow> string \<Rightarrow> nat \<Rightarrow> nat \<Rightarrow> 'v bench_task \<Rightarrow> wal_msg list" where
  "task_entries api pre e i (Calling n c) =
     map (\<lambda>j. entry_of api (task_event api pre i j)) [0..<n]
     @ (if in_hand c = [] then [] else [entry_of api (task_event api pre i n)])"
| "task_entries api pre e i Task_done = map (\<lambda>j. entry_of api (task_event api pre i j)) [0..<e]"
| "task_entries api pre e i _ = []"

fun task_ok :: "'v json_api \<Rightarrow> string \<Rightarrow> nat \<Rightarrow> nat \<Rightarrow> wal_msg list \<Rightarrow> 'v bench_task \<Rightarrow> bool" where
  "task_ok api pre e i log (Calling n c) \<longleftrightarrow>
     n < e \<and> call_of (task_event api pre i n) c \<and> call_ok api log c \<and> (\<forall>r. tk_pc c \<noteq> Finished r)"
| "task_ok api pre e i log _ \<longleftrightarrow> True"

lemma new_call_start: "(\<exists>pc. tk_pc (new_call limit a e p) = Waiting pc) \<or> tk_pc (new_call limit a e p) = Serializing"
  by (simp add: new_call_def after_wait_def)

lemma next_event_ok:
  "task_ok api pre e i log (next_event api limit pre e i n)"
  "n \<le> e \<Longrightarrow> task_entries api pre e i (next_event api limit pre e i n)
     = map (\<lambda>j. entry_of api (task_event api pre i j)) [0..<n]"
  using new_call_start [of limit "fst (task_event api pre i n)" "fst (snd (task_event api pre i n))"
      "snd (snd (task_event api pre i n))"]
  by (auto simp: next_event_def call_of_def new_call_def call_ok_def in_hand_def split: prod.splits)

lemma save_move_same: "save_move api publish limit t (c, io) = (c', io') \<Longrightarrow> call_of ev c' = call_of ev c"
  by (auto simp: save_move_def call_of_def split: save_pc.splits prod.splits save_call.splits)

lemma save_move_returns:
  "save_move api publish limit t (c, io) = (c', io') \<Longrightarrow> tk_pc c' = Finished (Inr u) \<Longrightarrow>
     (\<forall>r. tk_pc c \<noteq> Finished r) \<Longrightarrow> \<exists>ev. tk_pc c = Sending ev"
  by (auto simp: save_move_def after_wait_def split: save_pc.splits prod.splits save_call.splits
      option.splits sum.splits if_splits)

lemma in_hand_entry:
  "call_ok api log c \<Longrightarrow> call_of ev c \<Longrightarrow> in_hand c = [x] \<Longrightarrow> msg_of x = entry_of api ev"
  by (auto simp: call_ok_def call_of_def in_hand_def entry_of_def msg_of_def pending_of_def
      split: save_pc.splits pub_result.splits)

lemma task_ok_mono: "task_ok api pre e i log task \<Longrightarrow> set log \<subseteq> set log' \<Longrightarrow> task_ok api pre e i log' task"
  by (cases task) (auto intro: call_ok_mono)

text \<open>A turn appends to the log what it adds to the entries of the task.\<close>

lemma call_entries:
  assumes "js_durable publish log" and "save_move api publish limit t (c, io) = (c', io')"
    and "call_ok api (log (io_js io)) c" and "call_of (task_event api pre i n) c"
  shows "\<exists>ms. log (io_js io') = log (io_js io) @ ms
    \<and> mset (task_entries api pre e i (Calling n c')) \<subseteq># mset (task_entries api pre e i (Calling n c)) + mset ms"
  using assms(1,2)
proof (cases rule: save_move_effect)
  case (accepted ev)
  have "call_ok api (log (io_js io')) c'" using assms(1-3) by (rule save_move_ok)
  moreover have "call_of (task_event api pre i n) c'" using assms(4) save_move_same [OF assms(2)] by simp
  ultimately have "msg_of ev = entry_of api (task_event api pre i n)" using accepted(2) by (rule in_hand_entry)
  with accepted show ?thesis by (intro exI [of _ "[msg_of ev]"]) simp
qed auto

lemma call_returned:
  assumes "js_durable publish log" and "save_move api publish limit t (c, io) = (c', io')"
    and "tk_pc c = Sending ev" and "tk_pc c' = Finished (Inr u)"
  shows "log (io_js io') = log (io_js io)"
proof -
  have "in_hand c \<noteq> []" "in_hand c' = []" using assms(3,4) by (simp_all add: in_hand_def)
  with assms(1,2) show ?thesis by (cases rule: save_move_effect) auto
qed

lemma task_turn_effect:
  assumes "js_durable publish log" and "task_ok api pre e i (log (io_js io)) task"
    and "task_turn api publish limit pre e i t arrived task io = (task', io')"
  shows "task_ok api pre e i (log (io_js io')) task'
    \<and> (\<exists>ms. log (io_js io') = log (io_js io) @ ms
        \<and> mset (task_entries api pre e i task') \<subseteq># mset (task_entries api pre e i task) + mset ms)"
proof (cases task)
  case (Calling n c)
  obtain c' io2 where run: "save_move api publish limit t (c, io) = (c', io2)" by fastforce
  have ok: "n < e" "call_of (task_event api pre i n) c" "call_ok api (log (io_js io)) c"
      "\<forall>r. tk_pc c \<noteq> Finished r"
    using assms(2) by (simp_all add: Calling)
  note ok' = save_move_ok [OF assms(1) run ok(3)] save_move_same [OF run]
  from call_entries [OF assms(1) run ok(3,2)] obtain ms where ms: "log (io_js io2) = log (io_js io) @ ms"
    "mset (task_entries api pre e i (Calling n c')) \<subseteq># mset (task_entries api pre e i (Calling n c)) + mset ms"
    by blast
  consider (returned) u where "tk_pc c' = Finished (Inr u)" | (panicked) x where "tk_pc c' = Finished (Inl x)"
    | (running) "\<forall>r. tk_pc c' \<noteq> Finished r"
    by (metis sum.exhaust)
  then show ?thesis
  proof cases
    case returned
    with assms(3) run have task': "task' = next_event api limit pre e i (Suc n)" and io': "io' = io2"
      by (simp_all add: task_turn_def Calling)
    from save_move_returns [OF run returned ok(4)] obtain ev where sending: "tk_pc c = Sending ev" by blast
    have "log (io_js io2) = log (io_js io)" using assms(1) run sending returned by (rule call_returned)
    moreover have "task_entries api pre e i task' = task_entries api pre e i task"
      using ok(1) sending by (simp add: task' Calling next_event_ok(2) in_hand_def)
    ultimately show ?thesis by (simp add: io' task' next_event_ok(1))
  next
    case panicked
    with assms(3) run ms(1) show ?thesis by (auto simp: task_turn_def Calling)
  next
    case running
    then have "task' = Calling n c'" and "io' = io2"
      using assms(3) run by (auto simp: task_turn_def Calling split: save_pc.splits sum.splits)
    with ok ok' running ms show ?thesis by (auto simp: Calling)
  qed
next
  case At_barrier
  with assms(3) next_event_ok(1) [of api pre e i "log (io_js io)" limit 0] next_event_ok(2) [of 0 e api pre i limit]
  show ?thesis by (auto simp: task_turn_def)
qed (use assms(3) in \<open>auto simp: task_turn_def\<close>)

text \<open>All the tasks: their entries, together, have been added to the log.\<close>

definition entries_sum :: "'v json_api \<Rightarrow> string \<Rightarrow> nat \<Rightarrow> 'v bench_task list \<Rightarrow> wal_msg multiset" where
  "entries_sum api pre e tasks = (\<Sum>i<length tasks. mset (task_entries api pre e i (tasks ! i)))"

lemma entries_sum_update:
  assumes "k < length tasks"
  shows "entries_sum api pre e (tasks[k := task]) + mset (task_entries api pre e k (tasks ! k))
    = entries_sum api pre e tasks + mset (task_entries api pre e k task)"
proof -
  have "(\<Sum>i\<in>{..<length tasks} - {k}. mset (task_entries api pre e i (tasks[k := task] ! i)))
      = (\<Sum>i\<in>{..<length tasks} - {k}. mset (task_entries api pre e i (tasks ! i)))"
    by (rule sum.cong) auto
  with assms show ?thesis by (simp add: entries_sum_def sum.remove [of "{..<length tasks}" k] ac_simps)
qed

definition tasks_ok :: "'v json_api \<Rightarrow> string \<Rightarrow> nat \<Rightarrow> wal_msg list \<Rightarrow> wal_msg list \<Rightarrow> 'v bench_task list \<Rightarrow> bool" where
  "tasks_ok api pre e log0 log tasks \<longleftrightarrow>
     (\<forall>i < length tasks. task_ok api pre e i log (tasks ! i))
     \<and> mset log0 + entries_sum api pre e tasks \<subseteq># mset log"

lemma tasks_move_ok:
  assumes js: "js_durable publish log" and inv: "tasks_ok api pre e log0 (log (io_js io)) tasks"
    and run: "tasks_move api publish limit pre e turn (tasks, io) = (tasks', io')"
  shows "tasks_ok api pre e log0 (log (io_js io')) tasks'"
proof (cases "\<exists>k t. turn = Turn k t \<and> k < length tasks")
  case True
  then obtain k t where turn: "turn = Turn k t" and k: "k < length tasks" by blast
  obtain task' io2 where one: "task_turn api publish limit pre e k t (Spawned \<notin> set tasks) (tasks ! k) io = (task', io2)"
    by fastforce
  with run k have tasks': "tasks' = tasks[k := task']" and io': "io' = io2" by (simp_all add: turn)
  have "task_ok api pre e k (log (io_js io)) (tasks ! k)" using inv k by (simp add: tasks_ok_def)
  from task_turn_effect [OF js this one] obtain ms where ok: "task_ok api pre e k (log (io_js io2)) task'"
    and grow: "log (io_js io2) = log (io_js io) @ ms"
    and more: "mset (task_entries api pre e k task') \<subseteq># mset (task_entries api pre e k (tasks ! k)) + mset ms"
    by blast
  have "\<forall>i < length tasks'. task_ok api pre e i (log (io_js io')) (tasks' ! i)"
    using inv ok k by (auto simp: tasks' io' grow tasks_ok_def nth_list_update intro: task_ok_mono)
  moreover have "mset log0 + entries_sum api pre e tasks' \<subseteq># mset (log (io_js io'))"
  proof -
    let ?old = "mset (task_entries api pre e k (tasks ! k))"
    have "entries_sum api pre e tasks' + ?old \<subseteq># entries_sum api pre e tasks + (?old + mset ms)"
      unfolding tasks' entries_sum_update [OF k] using more by (rule subset_mset.add_left_mono)
    then have "entries_sum api pre e tasks' \<subseteq># entries_sum api pre e tasks + mset ms"
      by (metis add.commute add.left_commute subset_mset.add_le_cancel_left)
    then have "mset log0 + entries_sum api pre e tasks' \<subseteq># mset log0 + (entries_sum api pre e tasks + mset ms)"
      by (rule subset_mset.add_left_mono)
    also have "\<dots> \<subseteq># mset (log (io_js io')) "
      using inv by (simp add: tasks_ok_def io' grow add.assoc [symmetric])
    finally show ?thesis .
  qed
  ultimately show ?thesis by (simp add: tasks_ok_def)
next
  case False
  with run have "tasks' = tasks" "io_js io' = io_js io"
    by (cases turn; force)+
  with inv show ?thesis by simp
qed

lemma tasks_run_ok:
  assumes "js_durable publish log" and "tasks_ok api pre e log0 (log (io_js io)) tasks"
    and "tasks_run api publish limit pre e sched (tasks, io) = (tasks', io')"
  shows "tasks_ok api pre e log0 (log (io_js io')) tasks'"
  using assms(2,3)
proof (induction sched arbitrary: tasks io)
  case (Cons turn sched)
  obtain tasks1 io1 where one: "tasks_move api publish limit pre e turn (tasks, io) = (tasks1, io1)" by fastforce
  from Cons.prems(2) have "tasks_run api publish limit pre e sched (tasks1, io1) = (tasks', io')"
    by (simp add: tasks_run_def one)
  with Cons.IH tasks_move_ok [OF assms(1) Cons.prems(1) one] show ?case by blast
qed (simp add: tasks_run_def)

lemma tasks_move_length: "length (fst (tasks_move api publish limit pre e turn ts)) = length (fst ts)"
  by (cases turn; cases ts) (simp_all split: prod.splits)

lemma tasks_run_length:
  "tasks_run api publish limit pre e sched (tasks, io) = (tasks', io') \<Longrightarrow> length tasks' = length tasks"
proof (induction sched arbitrary: tasks io)
  case (Cons turn sched)
  then show ?case
    using tasks_move_length [of api publish limit pre e turn "(tasks, io)"]
    by (cases "tasks_move api publish limit pre e turn (tasks, io)") (simp add: tasks_run_def)
qed (simp add: tasks_run_def)

text \<open>
  C36.  If no task panics, the report is true: whatever the interleaving of the tasks and the writer, once
  all have been joined and none of them has panicked, the log holds an entry of its own for every event
  of every task, besides what it held before, and their number is the number that is printed.
\<close>

theorem tasks_accept_all:
  assumes "js_durable publish log"
    and "tasks_run api publish limit pre e sched (replicate c Spawned, io) = (tasks, io')"
    and "joined tasks" and "Task_panicked \<notin> set tasks"
  shows "mset (log (io_js io)) + mset (map (entry_of api) (task_events api pre c e)) \<subseteq># mset (log (io_js io'))
    \<and> bench_tasks api publish limit pre c e sched io = (Some (length (task_events api pre c e), c * e), io')"
proof -
  from tasks_run_length [OF assms(2)] have len: "length tasks = c" by simp
  have "entries_sum api pre e (replicate c Spawned) = {#}" by (simp add: entries_sum_def)
  then have "tasks_ok api pre e (log (io_js io)) (log (io_js io)) (replicate c Spawned)"
    by (simp add: tasks_ok_def)
  from tasks_run_ok [OF assms(1) this assms(2)]
  have "mset (log (io_js io)) + entries_sum api pre e tasks \<subseteq># mset (log (io_js io'))"
    by (simp add: tasks_ok_def)
  moreover have "entries_sum api pre e tasks = mset (map (entry_of api) (task_events api pre c e))"
  proof -
    have "tasks ! i = Task_done" if "i < c" for i
    proof -
      have "tasks ! i \<in> set tasks" using len that by simp
      moreover have "tasks ! i = Task_done \<or> tasks ! i = Task_panicked"
        using assms(3) len that by (simp add: joined_def list_all_length)
      ultimately show ?thesis using assms(4) by auto
    qed
    then have "entries_sum api pre e tasks
        = (\<Sum>i<c. mset (map (\<lambda>j. entry_of api (task_event api pre i j)) [0..<e]))"
      using len by (simp add: entries_sum_def)
    also have "\<dots> = mset (map (entry_of api) (task_events api pre c e))"
      by (induction c) (simp_all add: task_events_def comp_def)
    finally show ?thesis .
  qed
  moreover have "length (task_events api pre c e) = c * e"
    by (simp add: task_events_def length_concat comp_def sum_list_triv)
  ultimately show ?thesis using assms(2,3) by (simp add: bench_tasks_def Let_def)
qed

text \<open>One task with two events, and a queue that is never full.\<close>

definition demo_turns :: "bench_turn list" where
  "demo_turns = replicate 10 (Turn 0 0)"

lemma demo_tasks_run:
  "joined (fst (tasks_run demo_json demo_publish u32_MAX ''b-'' 2 demo_turns (replicate 1 Spawned,
     (demo_io True)\<lparr>io_queue := \<lparr>q_items = [], q_capacity = 9, q_open = True\<rparr>\<rparr>)))"
  "Task_panicked \<notin> set (fst (tasks_run demo_json demo_publish u32_MAX ''b-'' 2 demo_turns (replicate 1 Spawned,
     (demo_io True)\<lparr>io_queue := \<lparr>q_items = [], q_capacity = 9, q_open = True\<rparr>\<rparr>)))"
  by (simp_all add: demo_turns_def tasks_run_def eval_nat_numeral task_turn_def next_event_def task_event_def
      new_call_def after_wait_def wait_enter_def save_move_def demo_publish_def published_def trace_subject_def
      enqueue_def demo_io_def joined_def Let_def)

theorem tasks_accept_all_witness:
  "\<exists>io'. bench_tasks demo_json demo_publish u32_MAX ''b-'' 1 2 demo_turns
      ((demo_io True)\<lparr>io_queue := \<lparr>q_items = [], q_capacity = 9, q_open = True\<rparr>\<rparr>) = (Some (2, 2), io')
    \<and> mset (map (entry_of demo_json) (task_events demo_json ''b-'' 1 2)) \<subseteq># mset (io_js io')"
  using tasks_accept_all [OF demo_publish_durable prod.collapse [symmetric] demo_tasks_run]
  by (auto simp: demo_io_def task_events_def)

text \<open>
  But the report is printed in any case: with a JetStream that refuses every message, all tasks panic
  over their first event, and as soon as they have, all events are reported as accepted with zero loss,
  while the log and the queue are empty.
\<close>

theorem zero_loss_reported_anyway:
  "\<exists>publish (log :: unit \<Rightarrow> wal_msg list) sched (io :: unit store_io) io'. js_durable publish log
     \<and> bench_backpressure demo_json publish u32_MAX 2 2000 sched io = (Some (4000, 4000), io')
     \<and> log (io_js io') = [] \<and> q_items (io_queue io') = []"
proof -
  let ?publish = "\<lambda>js m. (Send_failed ''no responders'', js)" and ?log = "\<lambda>js :: unit. [] :: wal_msg list"
  let ?io = "\<lparr>io_limiter = rate_limiter_default, io_js = (),
    io_queue = \<lparr>q_items = [], q_capacity = 9, q_open = True\<rparr>\<rparr>"
  let ?sched = "[Turn 0 0, Turn 1 0, Turn 0 0, Turn 1 0, Turn 0 0, Turn 0 0, Turn 0 0, Turn 1 0, Turn 1 0, Turn 1 0]"
  let ?run = "bench_backpressure demo_json ?publish u32_MAX 2 2000 ?sched ?io"
  have "fst ?run = Some (4000, 4000)" and "q_items (io_queue (snd ?run)) = []"
    by (simp_all add: bench_backpressure_def bench_tasks_def tasks_run_def numeral_2_eq_2 task_turn_def next_event_def
        task_event_def new_call_def after_wait_def wait_enter_def save_move_def published_def joined_def Let_def)
  moreover have "js_durable ?publish ?log" by (simp add: js_durable_def)
  ultimately show ?thesis
    by (intro exI [of _ ?publish] exI [of _ ?log] exI [of _ ?sched] exI [of _ ?io] exI [of _ "snd ?run"])
       (simp add: prod_eq_iff)
qed

end
