(* ===== verification/Example.thy ===== *)
theory Example
  imports System
begin

text \<open>
  \<open>src/main.rs\<close>: the example that connects a store, runs the migrations and saves one event.
\<close>

text \<open>\<open>main.rs\<close>: connect, run the migrations, save one event; an error ends it, a panic is \<open>None\<close>.\<close>

definition example_main ::
  "bool \<Rightarrow> 'k license_crates \<Rightarrow> 'kv kv_api \<Rightarrow> string option \<Rightarrow> connect_env \<Rightarrow> string option
     \<Rightarrow> 'v json_api \<Rightarrow> 'js publish \<Rightarrow> nat \<Rightarrow> (nat \<Rightarrow> int) \<Rightarrow> 'kv \<Rightarrow> 'js \<Rightarrow> (string + save_call) option \<times> 'kv \<times> 'js"
where
  "example_main managed crates kvapi tidb_url env migrate japi publish fuel clock kv js =
     (case tidb_url of
        None \<Rightarrow> (Some (Inl ''environment variable not found''), kv, js)
      | Some _ \<Rightarrow>
     (case connect managed crates kvapi env config_default kv of
        (None, kv') \<Rightarrow> (None, kv', js)
      | (Some (Inl e), kv') \<Rightarrow> (Some (Inl (skialith_error_to_string e)), kv', js)
      | (Some (Inr st), kv') \<Rightarrow>
     (case migrate of
        Some e \<Rightarrow> (Some (Inl e), kv', js)
      | None \<Rightarrow>
          (let (out, io) = save_event japi publish (st_rate_limit st) fuel clock ''agent-123'' ''event-001''
                (jv_object japi [(''message'', jv_str japi ''hello from skialith_store'')])
                (store_io_start st js)
           in (Some (Inr out), kv', io_js io)))))"

lemma example_main_logs:
  assumes "js_durable publish log"
    and "example_main managed crates kvapi tidb_url env migrate japi publish fuel clock kv js
      = (Some (Inr (Done (Inr ()))), kv', js')"
  shows "\<exists>b. log js' = log js @ [event_msg ''agent-123'' b]"
proof -
  obtain st io where save: "save_event japi publish (st_rate_limit st) fuel clock ''agent-123'' ''event-001''
      (jv_object japi [(''message'', jv_str japi ''hello from skialith_store'')]) (store_io_start st js)
      = (Done (Inr ()), io)" and "js' = io_js io"
    using assms(2) by (auto simp: example_main_def Let_def split: option.splits prod.splits sum.splits)
  from assms(1) save show ?thesis
  proof (cases rule: save_event_cases)
    case (published b io2)
    from published(4) have "io_js io = io_js io2" by (cases rule: enqueue_cases) simp_all
    with published(2) \<open>js' = io_js io\<close> show ?thesis by (auto simp: store_io_start_def)
  qed simp_all
qed

end
