(* ===== verification/Recovery.thy ===== *)
theory Recovery
  imports Pipeline
begin

text \<open>
  The way back: the sidecar and the ingest loop run beside each other on one log, either of them may
  fail and be restarted at any time, and an agent resumes from the table that the loop fills.  This is
  the recovery that the parts of the program add up to.
\<close>

section \<open>What the log contains\<close>

text \<open>
  The matching of NATS subjects, token by token: \<open>*\<close> stands for any one token, and \<open>>\<close> at the end for
  one or more.  A message is for the ingest loop if its consumer's filter selects it.
\<close>

fun token_match :: "string list \<Rightarrow> string list \<Rightarrow> bool" where
  "token_match [] [] \<longleftrightarrow> True"
| "token_match (f # fs) (t # ts) \<longleftrightarrow>
     f = ''>'' \<and> fs = [] \<or> (f = ''*'' \<or> f = t) \<and> token_match fs ts"
| "token_match _ _ \<longleftrightarrow> False"

definition selected :: "wal_msg \<Rightarrow> bool" where
  "selected m \<longleftrightarrow> token_match (split_on (CHR ''.'') filter_subject) (split_on (CHR ''.'') (msg_subject m))"

lemma token_match_simps:
  "token_match [] ts \<longleftrightarrow> ts = []"
  "token_match (f # fs) [] \<longleftrightarrow> False"
  by (cases ts) simp_all

lemma filter_tokens: "split_on (CHR ''.'') filter_subject = [''agent'', ''trace'', ''*'']"
  by (simp add: filter_subject_def)

lemma selected_iff: "selected m \<longleftrightarrow> (\<exists>a. split_on (CHR ''.'') (msg_subject m) = [''agent'', ''trace'', a])"
proof -
  have "token_match [''agent'', ''trace'', ''*''] ts \<longleftrightarrow> (\<exists>a. ts = [''agent'', ''trace'', a])" for ts
    by (cases ts; cases "tl ts"; cases "tl (tl ts)") (auto simp: token_match_simps)
  then show ?thesis by (simp add: selected_def filter_tokens)
qed

definition saved_msg :: "'v json_api \<Rightarrow> wal_msg \<Rightarrow> bool" where
  "saved_msg api m \<longleftrightarrow> (\<exists>a e p b. m = event_msg a b \<and> to_vec api (envelope api a e p) = Some b)"

definition log_wf :: "'v json_api \<Rightarrow> wal_msg list \<Rightarrow> bool" where
  "log_wf api log \<longleftrightarrow> list_all (\<lambda>m. selected m \<longrightarrow> saved_msg api m) log"

lemma event_msg_selected: "selected (event_msg a b) \<longleftrightarrow> CHR ''.'' \<notin> set a"
proof
  assume "selected (event_msg a b)"
  then obtain x where x: "split_on (CHR ''.'') a = [x]"
    by (auto simp: selected_iff event_msg_def split_trace_subject)
  show "CHR ''.'' \<notin> set a"
  proof
    assume "CHR ''.'' \<in> set a"
    then obtain u v where "a = u @ CHR ''.'' # v" and "CHR ''.'' \<notin> set u" by (metis split_list_first)
    with x show False by (simp add: split_on_append)
  qed
next
  assume "CHR ''.'' \<notin> set a"
  then show "selected (event_msg a b)"
    by (auto simp: selected_iff event_msg_def split_trace_subject split_on_fresh)
qed

lemma subject_agent_event: "CHR ''.'' \<notin> set a \<Longrightarrow> subject_agent (msg_subject (event_msg a b)) = a"
  by (simp add: event_msg_def subject_agent_trace_subject takeWhile_eq_self_iff) metis

lemma checkpoint_msg_not_selected: "\<not> selected (checkpoint_msg a p)"
  using checkpoint_subject_token [of a]
  by (auto simp: selected_iff checkpoint_msg_def nth_opt_def)

lemma save_event_log_wf:
  assumes "js_durable publish log" and "save_event api publish limit fuel clock a e p io = (out, io')"
    and "log_wf api (log (io_js io))"
  shows "log_wf api (log (io_js io'))"
proof -
  have saved: "saved_msg api (event_msg a b)" if "to_vec api (envelope api a e p) = Some b" for b
    using that by (auto simp: saved_msg_def)
  from assms(1,2) show ?thesis
  proof (cases rule: save_event_cases)
    case (published b io2)
    from published(4) have "io_js io' = io_js io2" by (cases rule: enqueue_cases) simp_all
    with published(1,2) saved assms(3) show ?thesis by (simp add: log_wf_def)
  qed (use assms(3) saved in \<open>auto simp: log_wf_def\<close>)
qed

lemma sidecar_log_wf:
  assumes "js_durable (wd_publish wd) (wd_log wd)" and "sidecar_step wd s s'"
    and "log_wf (wd_api wd) (wd_log wd (io_js (sc_io s)))"
  shows "log_wf (wd_api wd) (wd_log wd (io_js (sc_io s')))"
  using assms(2)
proof (cases rule: sidecar_step.cases)
  case (save fuel clock agent_id event_id payload out io')
  with save_event_log_wf [OF assms(1) save(2) assms(3)] show ?thesis by simp
next
  case (room ev out io')
  from room(3) have "io_js io' = io_js (sc_io s)" by (cases rule: enqueue_cases) simp_all
  with room(1) assms(3) show ?thesis by simp
next
  case (checkpoint agent_id body response js')
  then obtain r where "checkpoint_state (wd_api wd) (wd_publish wd) agent_id
      (checkpoint_payload (wd_api wd) body) (io_js (sc_io s)) = (r, js')"
    by (auto simp: handle_checkpoint_def split: prod.splits)
  from checkpoint_state_log [OF assms(1) this] assms(3) checkpoint(1) show ?thesis
    by (auto simp: log_wf_def checkpoint_msg_not_selected)
qed (use assms(3) in simp_all)

interpretation log_content: inductive_invariant
    "\<lambda>s. durable wd \<and> sidecar_init events traces s \<and> wd_log wd (io_js (sc_io s)) = []"
    "\<lambda>s t. durable wd \<and> sidecar_step wd s t" "\<lambda>s. log_wf (wd_api wd) (wd_log wd (io_js (sc_io s)))"
  for wd :: "('v, 'js) world" and events and traces :: "'v trace_row list"
proof unfold_locales
  show "log_wf (wd_api wd) (wd_log wd (io_js (sc_io s)))"
    if "durable wd \<and> sidecar_init events traces s \<and> wd_log wd (io_js (sc_io s)) = []" for s
    using that by (simp add: log_wf_def)
qed (auto simp: durable_def intro: sidecar_log_wf)

text \<open>The log only grows.\<close>

lemma sidecar_log_grows:
  assumes "js_durable (wd_publish wd) (wd_log wd)" and "sidecar_step wd s s'"
  obtains ms where "wd_log wd (io_js (sc_io s')) = wd_log wd (io_js (sc_io s)) @ ms"
proof -
  from assms(2) have "prefix (wd_log wd (io_js (sc_io s))) (wd_log wd (io_js (sc_io s')))"
  proof (cases rule: sidecar_step.cases)
    case (save fuel clock agent_id event_id payload out io')
    from assms(1) save(2) show ?thesis by (cases rule: save_event_effect) (simp_all add: save(1))
  next
    case (room ev out io')
    from room(3) show ?thesis by (cases rule: enqueue_cases) (simp_all add: room(1))
  next
    case (checkpoint agent_id body response js')
    then obtain r where "checkpoint_state (wd_api wd) (wd_publish wd) agent_id
        (checkpoint_payload (wd_api wd) body) (io_js (sc_io s)) = (r, js')"
      by (auto simp: handle_checkpoint_def split: prod.splits)
    from checkpoint_state_log [OF assms(1) this] show ?thesis by (auto simp: checkpoint(1))
  qed simp_all
  with that show ?thesis by (auto simp: prefix_def)
qed

section \<open>What the stream delivers\<close>

text \<open>
  The stream numbers the messages that its subjects capture, and delivers those that the consumer's
  filter selects; a message is known by its position in the log.
\<close>

definition positions :: "wal_msg list \<Rightarrow> nat list" where
  "positions log = filter (\<lambda>k. selected (log ! k)) [0..<length log]"

definition captures :: "(wal_msg \<Rightarrow> bool) \<Rightarrow> bool" where
  "captures captured \<longleftrightarrow> (\<forall>m. selected m \<longrightarrow> captured m)"

definition stream_sequence :: "(wal_msg \<Rightarrow> bool) \<Rightarrow> wal_msg list \<Rightarrow> nat \<Rightarrow> nat" where
  "stream_sequence captured log k = length (filter captured (take (Suc k) log))"

definition delivered :: "(wal_msg \<Rightarrow> bool) \<Rightarrow> wal_msg list \<Rightarrow> nat \<Rightarrow> js_msg" where
  "delivered captured log k = \<lparr>jm_subject = msg_subject (log ! k), jm_payload = msg_payload (log ! k),
     jm_info = Some (of_nat (stream_sequence captured log k))\<rparr>"

definition row_at :: "'v json_api \<Rightarrow> (wal_msg \<Rightarrow> bool) \<Rightarrow> wal_msg list \<Rightarrow> nat \<Rightarrow> 'v trace_row" where
  "row_at api captured log k = \<lparr>row_agent_id = subject_agent (msg_subject (log ! k)),
     row_step_index = of_nat (stream_sequence captured log k), row_event_type = ''thought'',
     row_payload = from_slice api (msg_payload (log ! k))\<rparr>"

lemma positions_iff: "k \<in> set (positions log) \<longleftrightarrow> k < length log \<and> selected (log ! k)"
  by (auto simp: positions_def)

lemma delivered_append [simp]:
  "k < length log \<Longrightarrow> stream_sequence captured (log @ ms) k = stream_sequence captured log k"
  "k < length log \<Longrightarrow> delivered captured (log @ ms) k = delivered captured log k"
  "k < length log \<Longrightarrow> row_at api captured (log @ ms) k = row_at api captured log k"
  by (simp_all add: stream_sequence_def delivered_def row_at_def nth_append)

lemma positions_append: "k \<in> set (positions log) \<Longrightarrow> k \<in> set (positions (log @ ms))"
  by (simp add: positions_iff nth_append)

lemma stream_sequence_le: "k < length log \<Longrightarrow> stream_sequence captured log k \<le> Suc k"
  unfolding stream_sequence_def by (rule le_trans [OF length_filter_le]) simp

text \<open>Later captured messages have higher numbers.\<close>

lemma stream_sequence_less:
  assumes "j < k" and "k < length log" and "captured (log ! k)"
  shows "stream_sequence captured log j < stream_sequence captured log k"
proof -
  have "take (Suc j) (take k log) = take (Suc j) log" using assms(1) by simp
  then have "take k log = take (Suc j) log @ drop (Suc j) (take k log)"
    by (metis append_take_drop_id)
  then have "take (Suc k) log = (take (Suc j) log @ drop (Suc j) (take k log)) @ [log ! k]"
    using assms(2) by (simp only: take_Suc_conv_app_nth)
  with assms(3) show ?thesis by (simp add: stream_sequence_def)
qed

lemma stream_sequence_le_iff:
  assumes "j \<in> set (positions log)" and "k \<in> set (positions log)" and "captures captured"
  shows "stream_sequence captured log j \<le> stream_sequence captured log k \<longleftrightarrow> j \<le> k"
  using assms stream_sequence_less [of j k log captured] stream_sequence_less [of k j log captured]
  by (cases j k rule: linorder_cases) (auto simp: positions_iff captures_def)

lemma as_i32_of_nat: "n < 2 ^ 31 \<Longrightarrow> as_i32 (of_nat n) = of_nat n"
  by (simp add: as_i32_def word_unat_eq_iff unsigned_ucast_eq take_bit_eq_mod unat_of_nat)

lemma sint_of_small_nat: "n < 2 ^ 31 \<Longrightarrow> sint (of_nat n :: i32) = int n"
  by (simp add: signed_of_nat signed_take_bit_int_eq_self)

lemma row_at_step:
  assumes "length log < 2 ^ 31" and "k \<in> set (positions log)"
  shows "sint (row_step_index (row_at api captured log k)) = int (stream_sequence captured log k)"
  using assms stream_sequence_le [of k log captured]
  by (intro trans [OF _ sint_of_small_nat]) (auto simp: row_at_def positions_iff)

text \<open>A delivered message is decoded to its row, whose payload names the agent and the event.\<close>

lemma delivered_decodes:
  assumes "json_laws api" and "log_wf api log" and "length log < 2 ^ 31" and "k \<in> set (positions log)"
  obtains t a e p b v where "decode_message api (delivered captured log k) = Inr t"
    and "row_of_trace t = row_at api captured log k"
    and "log ! k = event_msg a b" and "to_vec api (envelope api a e p) = Some b"
    and "from_slice api b = Some v" and "names_event api v a e"
proof -
  from assms(4) have k: "k < length log" and sel: "selected (log ! k)" by (simp_all add: positions_iff)
  with assms(2) obtain a e p b where m: "log ! k = event_msg a b" and b: "to_vec api (envelope api a e p) = Some b"
    unfolding log_wf_def list_all_length saved_msg_def by blast
  from sel m have dot: "CHR ''.'' \<notin> set a" by (simp add: event_msg_selected)
  let ?m = "delivered captured log k"
  have "jm_subject ?m = msg_subject (event_msg a b)" "jm_payload ?m = msg_payload (event_msg a b)"
    by (simp_all add: delivered_def m)
  from saved_event_decoded [OF assms(1) b dot this] obtain v where v: "from_slice api b = Some v"
    and names: "names_event api v a e"
    and dec: "decode_message api ?m = Inr \<lparr>tr_agent_id = a, tr_step_index = as_i32 (js_sequence ?m),
      tr_event_type = Thought, tr_payload = v\<rparr>" by blast
  have "as_i32 (js_sequence ?m) = of_nat (stream_sequence captured log k)"
    using as_i32_of_nat [of "stream_sequence captured log k"] stream_sequence_le [OF k, of captured] k assms(3)
    by (simp add: js_sequence_def delivered_def)
  moreover have "subject_agent (msg_subject (log ! k)) = a"
    using subject_agent_event [OF dot] by (simp add: m)
  moreover have "msg_payload (log ! k) = b" by (simp add: m event_msg_def)
  ultimately have "row_of_trace \<lparr>tr_agent_id = a, tr_step_index = as_i32 (js_sequence ?m),
      tr_event_type = Thought, tr_payload = v\<rparr> = row_at api captured log k"
    using v by (simp add: row_of_trace_def row_at_def)
  with dec m b v names show ?thesis by (intro that)
qed

section \<open>The sidecar and the ingest loop\<close>

text \<open>
  The table \<open>agent_traces\<close> is the sidecar's; \<open>dp_acked\<close> is what the consumer has been told.  The loop
  may be given any selected message of the log at any time, and any number of times, and each delivery
  may end in any error: that the loop then ends and is started again leaves no trace of its own.
\<close>

record ('v, 'js) deployment =
  dp_sidecar :: "('v, 'js) sidecar"
  dp_acked :: "js_msg list"

definition dp_log :: "('v, 'js) world \<Rightarrow> ('v, 'js) deployment \<Rightarrow> wal_msg list" where
  "dp_log wd d = wd_log wd (io_js (sc_io (dp_sidecar d)))"

definition dp_ingest :: "('v, 'js) deployment \<Rightarrow> 'v ingest_state" where
  "dp_ingest d = \<lparr>in_traces = sc_traces (dp_sidecar d), in_acked = dp_acked d\<rparr>"

definition dp_with :: "'v ingest_state \<Rightarrow> ('v, 'js) deployment \<Rightarrow> ('v, 'js) deployment" where
  "dp_with st d = d\<lparr>dp_sidecar := (dp_sidecar d)\<lparr>sc_traces := in_traces st\<rparr>, dp_acked := in_acked st\<rparr>"

definition delivers :: "(wal_msg \<Rightarrow> bool) \<Rightarrow> wal_msg list \<Rightarrow> delivery \<Rightarrow> bool" where
  "delivers captured log dv \<longleftrightarrow>
     dl_msg dv \<in> delivered captured log ` set (positions log) \<and> honest_fault (dl_fault dv)"

inductive deploy_step ::
  "('v, 'js) world \<Rightarrow> (wal_msg \<Rightarrow> bool) \<Rightarrow> ('v, 'js) deployment \<Rightarrow> ('v, 'js) deployment \<Rightarrow> bool"
  for wd :: "('v, 'js) world" and captured :: "wal_msg \<Rightarrow> bool" where
  serve: "sidecar_step wd (dp_sidecar d) s' \<Longrightarrow> deploy_step wd captured d (d\<lparr>dp_sidecar := s'\<rparr>)"
| ingest: "delivers captured (dp_log wd d) dv \<Longrightarrow>
    process_message (wd_coll wd) (wd_api wd) dv (dp_ingest d) = (res, st) \<Longrightarrow>
    deploy_step wd captured d (dp_with st d)"

definition deploy_init :: "('v, 'js) world \<Rightarrow> event_row list \<Rightarrow> ('v, 'js) deployment \<Rightarrow> bool" where
  "deploy_init wd events d \<longleftrightarrow>
     sidecar_init events [] (dp_sidecar d) \<and> dp_log wd d = [] \<and> dp_acked d = []"

lemma dp_with_simps [simp]:
  "dp_log wd (dp_with st d) = dp_log wd d"
  "dp_ingest (dp_with st d) = st"
  "sc_saved (dp_sidecar (dp_with st d)) = sc_saved (dp_sidecar d)"
  "sc_traces (dp_sidecar (dp_with st d)) = in_traces st"
  "dp_acked (dp_with st d) = in_acked st"
  "dp_with st' (dp_with st d) = dp_with st' d"
  "dp_with (dp_ingest d) d = d"
  by (simp_all add: dp_with_def dp_log_def dp_ingest_def)

text \<open>The sidecar never looks at what the ingest loop does, so a deployment simulates a sidecar without traces.\<close>

definition sidecar_of :: "('v, 'js) deployment \<Rightarrow> ('v, 'js) sidecar" where
  "sidecar_of d = (dp_sidecar d)\<lparr>sc_traces := []\<rparr>"

lemma traces_last:
  "s\<lparr>sc_traces := t, sc_io := x\<rparr> = s\<lparr>sc_io := x, sc_traces := t\<rparr>"
  "s\<lparr>sc_traces := t, sc_waiting := y\<rparr> = s\<lparr>sc_waiting := y, sc_traces := t\<rparr>"
  "s\<lparr>sc_traces := t, sc_writer := w\<rparr> = s\<lparr>sc_writer := w, sc_traces := t\<rparr>"
  "s\<lparr>sc_traces := t, sc_crashed := b\<rparr> = s\<lparr>sc_crashed := b, sc_traces := t\<rparr>"
  by simp_all

lemma after_save_traces: "(after_save out ev s)\<lparr>sc_traces := t\<rparr> = after_save out ev (s\<lparr>sc_traces := t\<rparr>)"
  by (simp add: after_save_def split: save_call.splits sum.splits)

lemma sidecar_step_traces:
  assumes "sidecar_step wd s s'"
  shows "sidecar_step wd (s\<lparr>sc_traces := t\<rparr>) (s'\<lparr>sc_traces := t\<rparr>)"
  using assms
proof (cases rule: sidecar_step.cases)
  case (save fuel clock agent_id event_id payload out io')
  with sidecar_step.save [of wd fuel clock agent_id event_id payload "s\<lparr>sc_traces := t\<rparr>" out io']
  show ?thesis by (simp add: after_save_traces traces_last)
next
  case (room ev out io')
  with sidecar_step.room [of ev "s\<lparr>sc_traces := t\<rparr>" out io' wd] show ?thesis by (simp add: after_save_traces traces_last)
next
  case (checkpoint agent_id body response js')
  with sidecar_step.checkpoint [of wd agent_id body "s\<lparr>sc_traces := t\<rparr>" response js'] show ?thesis by (simp add: traces_last)
next
  case (receive ev items fw)
  with sidecar_step.receive [of "s\<lparr>sc_traces := t\<rparr>" ev items wd fw] show ?thesis by (simp add: traces_last)
next
  case (tick fw)
  with sidecar_step.tick [of wd "s\<lparr>sc_traces := t\<rparr>" fw] show ?thesis by (simp add: traces_last)
next
  case crash
  with sidecar_step.crash [of wd "s\<lparr>sc_traces := t\<rparr>"] show ?thesis by (simp add: traces_last)
qed

interpretation deployed: simulation "deploy_init wd events" "deploy_step wd captured"
    "\<lambda>s. sidecar_init events [] s \<and> wd_log wd (io_js (sc_io s)) = []" "sidecar_step wd" sidecar_of
  for wd :: "('v, 'js) world" and captured events
proof unfold_locales
  show "sidecar_init events [] (sidecar_of d) \<and> wd_log wd (io_js (sc_io (sidecar_of d))) = []"
    if "deploy_init wd events d" for d :: "('v, 'js) deployment"
    using that by (simp add: deploy_init_def sidecar_init_def sidecar_of_def dp_log_def)
next
  fix d d' :: "('v, 'js) deployment"
  assume "deploy_step wd captured d d'"
  then show "(sidecar_step wd)\<^sup>=\<^sup>= (sidecar_of d) (sidecar_of d')"
  proof (cases rule: deploy_step.cases)
    case (serve s')
    from sidecar_step_traces [OF serve(2), of "[]"] show ?thesis by (simp add: serve(1) sidecar_of_def)
  next
    case (ingest dv res st)
    then show ?thesis by (simp add: sidecar_of_def dp_with_def)
  qed
qed

text \<open>The log of a reachable deployment, and that what was saved is in it.\<close>

lemma deployed_log:
  assumes "js_durable (wd_publish wd) (wd_log wd)" and "reach (deploy_init wd events) (deploy_step wd captured) d"
  shows "log_wf (wd_api wd) (dp_log wd d)"
    and "ev \<in> set (sc_saved (dp_sidecar d)) \<Longrightarrow> msg_of ev \<in> set (dp_log wd d)"
proof -
  have durable: "durable wd" using assms(1) by (simp add: durable_def)
  note run = deployed.reach_abstraction [OF assms(2)]
  then have "reach (\<lambda>s. durable wd \<and> sidecar_init events [] s \<and> wd_log wd (io_js (sc_io s)) = [])
      (\<lambda>s t. durable wd \<and> sidecar_step wd s t) (sidecar_of d)"
    by (rule reach_mono) (simp_all add: durable)
  then show "log_wf (wd_api wd) (dp_log wd d)"
    using log_content.reach_inv by (fastforce simp: sidecar_of_def dp_log_def)
  from run have "reach (sidecar_init events []) (sidecar_step wd) (sidecar_of d)"
    by (rule reach_mono) simp_all
  from reach_sidecar_inv [OF assms(1) this] show "msg_of ev \<in> set (dp_log wd d)" if "ev \<in> set (sc_saved (dp_sidecar d))"
    using that by (auto simp: sidecar_inv_def behind_log_def logged_def sidecar_of_def dp_log_def)
qed

section \<open>The table is a part of the log\<close>

text \<open>
  While the log is shorter than \<open>2 ^ 31\<close> messages, the rows of \<open>agent_traces\<close> are the rows of messages in
  the log, each at most once, they fit the table, and what has been acknowledged has its row.
\<close>

definition ingest_ok :: "collation \<Rightarrow> 'v json_api \<Rightarrow> (wal_msg \<Rightarrow> bool) \<Rightarrow> wal_msg list \<Rightarrow> 'v ingest_state \<Rightarrow> bool" where
  "ingest_ok coll api captured log st \<longleftrightarrow>
     traces_unique coll (in_traces st)
     \<and> set (in_traces st) \<subseteq> row_at api captured log ` set (positions log)
     \<and> list_all (\<lambda>r. fits_column (row_agent_id r)) (in_traces st)
     \<and> (\<forall>m \<in> set (in_acked st). \<exists>k \<in> set (positions log).
          m = delivered captured log k \<and> row_at api captured log k \<in> set (in_traces st))"

lemma row_at_key:
  assumes "captures captured" and "length log < 2 ^ 31"
    and "j \<in> set (positions log)" and "k \<in> set (positions log)"
    and "uq_agent_step coll (row_at api captured log j) = uq_agent_step coll (row_at api captured log k)"
  shows "j = k"
proof -
  have "int (stream_sequence captured log j) = int (stream_sequence captured log k)"
    using assms(5) row_at_step [OF assms(2,3), of api captured] row_at_step [OF assms(2,4), of api captured]
    by (simp add: uq_agent_step_def)
  then show ?thesis
    using stream_sequence_le_iff [OF assms(3,4,1)] stream_sequence_le_iff [OF assms(4,3,1)] by simp
qed

lemma trace_put_row_at:
  assumes "captures captured" and "length log < 2 ^ 31" and "k \<in> set (positions log)"
    and "set tbl \<subseteq> row_at api captured log ` set (positions log)"
  shows "set (trace_put coll (row_at api captured log k) tbl) = insert (row_at api captured log k) (set tbl)"
proof (cases "trace_lookup coll tbl (uq_agent_step coll (row_at api captured log k))")
  case None
  then show ?thesis by (simp add: trace_put_def)
next
  case (Some r)
  then have "r \<in> set tbl" and key: "uq_agent_step coll r = uq_agent_step coll (row_at api captured log k)"
    by (auto simp: trace_lookup_def find_Some_iff)
  with assms(4) obtain j where j: "j \<in> set (positions log)" "r = row_at api captured log j" by blast
  with key have "j = k" by (intro row_at_key [OF assms(1,2) j(1) assms(3)]) simp_all
  with \<open>r \<in> set tbl\<close> j(2) Some show ?thesis by (auto simp: trace_put_def)
qed

lemma ingest_ok_put:
  assumes "captures captured" and "length log < 2 ^ 31" and "k \<in> set (positions log)"
    and "ingest_ok coll api captured log st"
    and "in_traces st' = trace_put coll (row_at api captured log k) (in_traces st)"
    and "in_acked st' \<in> {in_acked st, in_acked st @ [delivered captured log k]}"
    and "fits_column (row_agent_id (row_at api captured log k))"
  shows "ingest_ok coll api captured log st'"
proof -
  from assms(4) have rows: "set (in_traces st) \<subseteq> row_at api captured log ` set (positions log)"
    by (simp add: ingest_ok_def)
  from trace_put_row_at [OF assms(1-3) rows]
  have "set (in_traces st') = insert (row_at api captured log k) (set (in_traces st))" by (simp add: assms(5))
  moreover have "traces_unique coll (in_traces st')"
    using assms(4) by (simp add: assms(5) ingest_ok_def trace_put_unique)
  moreover have "\<exists>j \<in> set (positions log). m = delivered captured log j
      \<and> row_at api captured log j \<in> insert (row_at api captured log k) (set (in_traces st))"
    if "m \<in> set (in_acked st')" for m
  proof (cases "m \<in> set (in_acked st)")
    case True
    with assms(4) show ?thesis unfolding ingest_ok_def by blast
  next
    case False
    with that assms(6) have "m = delivered captured log k" by auto
    with assms(3) show ?thesis by blast
  qed
  moreover have "list_all (\<lambda>r. fits_column (row_agent_id r)) (in_traces st')"
    using assms(4,7) by (simp add: assms(5) ingest_ok_def trace_put_def)
  ultimately show ?thesis using assms(3) rows by (simp add: ingest_ok_def)
qed

lemma process_message_ingest_ok:
  assumes "json_laws api" and "log_wf api log" and "length log < 2 ^ 31"
    and "captures captured" and "delivers captured log dv"
    and "process_message coll api dv st = (res, st')" and "ingest_ok coll api captured log st"
  shows "ingest_ok coll api captured log st'"
proof -
  from assms(5) obtain k where k: "k \<in> set (positions log)" and msg: "dl_msg dv = delivered captured log k"
    and honest: "honest_fault (dl_fault dv)" by (auto simp: delivers_def)
  obtain t where t: "decode_message api (dl_msg dv) = Inr t" "row_of_trace t = row_at api captured log k"
    unfolding msg by (rule delivered_decodes [OF assms(1-3) k])
  have fits: "fits_column (row_agent_id (row_at api captured log k))" if "ingestible api (dl_msg dv)"
    using that t(1) by (simp add: ingestible_def trace_fits_def flip: t(2))
  from assms(6) honest show ?thesis
  proof (cases rule: process_message_cases)
    case (malformed e)
    with t show ?thesis by simp
  next
    case (failed t')
    with t have same: "in_traces st' = in_traces st \<and> in_acked st' = in_acked st
        \<or> ingestible api (dl_msg dv) \<and> in_traces st' = trace_put coll (row_at api captured log k) (in_traces st)
          \<and> in_acked st' = in_acked st"
      by auto
    then show ?thesis
    proof
      assume "in_traces st' = in_traces st \<and> in_acked st' = in_acked st"
      with assms(7) show ?thesis by (simp add: ingest_ok_def)
    qed (intro ingest_ok_put [OF assms(4,3) k assms(7)]; simp add: fits)
  next
    case (acked t')
    with t msg show ?thesis by (intro ingest_ok_put [OF assms(4,3) k assms(7)]) (simp_all add: fits)
  qed
qed

lemma ingest_ok_grows:
  assumes "ingest_ok coll api captured log st"
  shows "ingest_ok coll api captured (log @ ms) st"
proof -
  have kept: "k \<in> set (positions (log @ ms))" "row_at api captured (log @ ms) k = row_at api captured log k"
    "delivered captured (log @ ms) k = delivered captured log k" if "k \<in> set (positions log)" for k
    using that by (simp_all add: positions_append) (simp_all add: positions_iff)
  have "row_at api captured log ` set (positions log) \<subseteq> row_at api captured (log @ ms) ` set (positions (log @ ms))"
  proof
    fix r
    assume "r \<in> row_at api captured log ` set (positions log)"
    then obtain k where "k \<in> set (positions log)" "r = row_at api captured log k" by blast
    with kept [of k] show "r \<in> row_at api captured (log @ ms) ` set (positions (log @ ms))" by (intro image_eqI) simp_all
  qed
  moreover have "\<exists>k \<in> set (positions (log @ ms)). m = delivered captured (log @ ms) k
      \<and> row_at api captured (log @ ms) k \<in> set (in_traces st)" if m: "m \<in> set (in_acked st)" for m
  proof -
    from assms m obtain k where "k \<in> set (positions log)" "m = delivered captured log k"
      "row_at api captured log k \<in> set (in_traces st)" unfolding ingest_ok_def by blast
    with kept [of k] show ?thesis by (intro bexI [of _ k]) simp_all
  qed
  ultimately show ?thesis using assms unfolding ingest_ok_def by (meson subset_trans)
qed

text \<open>The assumptions on the surroundings of a deployment.\<close>

definition sound_world :: "('v, 'js) world \<Rightarrow> (wal_msg \<Rightarrow> bool) \<Rightarrow> bool" where
  "sound_world wd captured \<longleftrightarrow> json_laws (wd_api wd) \<and> js_durable (wd_publish wd) (wd_log wd)
     \<and> captures captured"

definition deploy_inv :: "('v, 'js) world \<Rightarrow> (wal_msg \<Rightarrow> bool) \<Rightarrow> event_row list \<Rightarrow> ('v, 'js) deployment \<Rightarrow> bool" where
  "deploy_inv wd captured events d \<longleftrightarrow>
     sound_world wd captured \<and> reach (deploy_init wd events) (deploy_step wd captured) d
     \<and> (length (dp_log wd d) < 2 ^ 31 \<longrightarrow> ingest_ok (wd_coll wd) (wd_api wd) captured (dp_log wd d) (dp_ingest d))"

interpretation deployment: inductive_invariant "\<lambda>d. sound_world wd captured \<and> deploy_init wd events d"
    "deploy_step wd captured" "deploy_inv wd captured events"
  for wd :: "('v, 'js) world" and captured events
proof unfold_locales
  fix d :: "('v, 'js) deployment"
  assume "sound_world wd captured \<and> deploy_init wd events d"
  then show "deploy_inv wd captured events d"
    by (auto simp: deploy_inv_def deploy_init_def dp_ingest_def ingest_ok_def traces_unique_def sidecar_init_def
        intro: reach_init)
next
  fix d d' :: "('v, 'js) deployment"
  assume inv: "deploy_inv wd captured events d" and step: "deploy_step wd captured d d'"
  then have world: "json_laws (wd_api wd)" "js_durable (wd_publish wd) (wd_log wd)" "captures captured"
    and run: "reach (deploy_init wd events) (deploy_step wd captured) d"
    by (simp_all add: deploy_inv_def sound_world_def)
  have "ingest_ok (wd_coll wd) (wd_api wd) captured (dp_log wd d') (dp_ingest d')" if short: "length (dp_log wd d') < 2 ^ 31"
    using step
  proof (cases rule: deploy_step.cases)
    case (serve s')
    obtain ms where log: "dp_log wd d' = dp_log wd d @ ms"
      using sidecar_log_grows [OF world(2) serve(2)] by (auto simp: serve(1) dp_log_def)
    have "dp_ingest d' = dp_ingest d" using traces_inv [OF serve(2)] by (simp add: serve(1) dp_ingest_def)
    with inv short log show ?thesis by (simp add: deploy_inv_def ingest_ok_grows)
  next
    case (ingest dv res st)
    with inv short show ?thesis
      by (simp add: deploy_inv_def process_message_ingest_ok [OF world(1) deployed_log(1) [OF world(2) run] _ world(3) ingest(2,3)])
  qed
  with inv step run show "deploy_inv wd captured events d'"
    by (simp add: deploy_inv_def reach_step)
qed

lemma deployed_ingest_ok:
  assumes "json_laws (wd_api wd)" and "js_durable (wd_publish wd) (wd_log wd)" and "captures captured"
    and "reach (deploy_init wd events) (deploy_step wd captured) d" and "length (dp_log wd d) < 2 ^ 31"
  shows "ingest_ok (wd_coll wd) (wd_api wd) captured (dp_log wd d) (dp_ingest d)"
proof -
  have "sound_world wd captured" using assms(1-3) by (simp add: sound_world_def)
  then have "reach (\<lambda>d. sound_world wd captured \<and> deploy_init wd events d) (deploy_step wd captured) d"
    using assms(4) by (intro reach_mono [OF assms(4)]) simp_all
  then have "deploy_inv wd captured events d" by (rule deployment.reach_inv)
  with assms(5) show ?thesis by (simp add: deploy_inv_def)
qed

section \<open>Runs of the loop\<close>

text \<open>A run of \<open>ingest_agent_trace_stream\<close>, however it ends, is a sequence of steps of the deployment.\<close>

definition delivers_items :: "(wal_msg \<Rightarrow> bool) \<Rightarrow> wal_msg list \<Rightarrow> (string + delivery) list \<Rightarrow> bool" where
  "delivers_items captured log items \<longleftrightarrow>
     list_all (\<lambda>i. case i of Inl _ \<Rightarrow> True | Inr dv \<Rightarrow> delivers captured log dv) items"

definition delivers_fetches :: "(wal_msg \<Rightarrow> bool) \<Rightarrow> wal_msg list \<Rightarrow> (string + (string + delivery) list) list \<Rightarrow> bool" where
  "delivers_fetches captured log fetches \<longleftrightarrow>
     list_all (\<lambda>f. case f of Inl _ \<Rightarrow> True | Inr items \<Rightarrow> delivers_items captured log items) fetches"

lemma ingest_batch_steps:
  assumes "delivers_items captured (dp_log wd d) items"
    and "ingest_batch (wd_coll wd) (wd_api wd) items (dp_ingest d) = (res, st)"
  shows "(deploy_step wd captured)\<^sup>*\<^sup>* d (dp_with st d)"
  using assms
proof (induction items arbitrary: d)
  case Nil
  then show ?case by auto
next
  case (Cons item items)
  show ?case
  proof (cases item)
    case (Inl e)
    with Cons.prems show ?thesis by auto
  next
    case (Inr dv)
    obtain r st1 where pm: "process_message (wd_coll wd) (wd_api wd) dv (dp_ingest d) = (r, st1)" by fastforce
    from Cons.prems(1) Inr have "delivers captured (dp_log wd d) dv" by (simp add: delivers_items_def)
    then have step: "deploy_step wd captured d (dp_with st1 d)" using pm by (rule deploy_step.ingest)
    show ?thesis
    proof (cases r)
      case (Inl e)
      with Cons.prems(2) \<open>item = Inr dv\<close> pm step show ?thesis by simp
    next
      case (Inr u)
      with Cons.prems \<open>item = Inr dv\<close> pm Cons.IH [of "dp_with st1 d"]
      have "(deploy_step wd captured)\<^sup>*\<^sup>* (dp_with st1 d) (dp_with st d)" by (simp add: delivers_items_def)
      with step show ?thesis by (rule converse_rtranclp_into_rtranclp)
    qed
  qed
qed

lemma ingest_loop_steps:
  assumes "delivers_fetches captured (dp_log wd d) fetches"
    and "ingest_loop (wd_coll wd) (wd_api wd) fetches (dp_ingest d) = (res, st)"
  shows "(deploy_step wd captured)\<^sup>*\<^sup>* d (dp_with st d)"
  using assms
proof (induction fetches arbitrary: d)
  case Nil
  then show ?case by auto
next
  case (Cons f fetches)
  show ?case
  proof (cases f)
    case (Inl e)
    with Cons.prems show ?thesis by auto
  next
    case (Inr items)
    obtain r st1 where run: "ingest_batch (wd_coll wd) (wd_api wd) items (dp_ingest d) = (r, st1)" by fastforce
    from Cons.prems(1) Inr have "delivers_items captured (dp_log wd d) items" by (simp add: delivers_fetches_def)
    note steps = ingest_batch_steps [OF this run]
    show ?thesis
    proof (cases r)
      case (Inl e)
      with Cons.prems(2) \<open>f = Inr items\<close> run steps show ?thesis by simp
    next
      case (Inr u)
      with Cons.prems \<open>f = Inr items\<close> run Cons.IH [of "dp_with st1 d"]
      have "(deploy_step wd captured)\<^sup>*\<^sup>* (dp_with st1 d) (dp_with st d)" by (simp add: delivers_fetches_def)
      with steps show ?thesis by (rule rtranclp_trans)
    qed
  qed
qed

lemma ingest_stream_steps:
  "delivers_fetches captured (dp_log wd d) fetches \<Longrightarrow>
     ingest_agent_trace_stream (wd_coll wd) (wd_api wd) gs cc fetches (dp_ingest d) = (res, st) \<Longrightarrow>
     (deploy_step wd captured)\<^sup>*\<^sup>* d (dp_with st d)"
  by (auto simp: ingest_agent_trace_stream_def intro: ingest_loop_steps split: option.splits)

section \<open>What is resumed\<close>

definition of_agent :: "collation \<Rightarrow> string \<Rightarrow> wal_msg \<Rightarrow> bool" where
  "of_agent coll a m \<longleftrightarrow> selected m \<and> coll (subject_agent (msg_subject m)) = coll a"

text \<open>
  \<open>GET state\<close> answers with the \<open>n\<close>-th message of the log, a saved event's: its place in the stream is the
  step and its envelope, which names the agent and the event, the state.
\<close>

definition resumes_at :: "('v, 'js) world \<Rightarrow> (wal_msg \<Rightarrow> bool) \<Rightarrow> ('v, 'js) deployment \<Rightarrow> string \<Rightarrow> nat \<Rightarrow> bool" where
  "resumes_at wd captured d agent_id n \<longleftrightarrow> (\<exists>a e p b v. dp_log wd d ! n = event_msg a b
     \<and> to_vec (wd_api wd) (envelope (wd_api wd) a e p) = Some b
     \<and> from_slice (wd_api wd) b = Some v \<and> names_event (wd_api wd) v a e
     \<and> handle_get_state (wd_coll wd) (wd_api wd) None (sc_traces (dp_sidecar d)) agent_id
       = Inr \<lparr>rs_agent_id = agent_id,
              rs_step_index = i32_to_i64 (of_nat (stream_sequence captured (dp_log wd d) n)), rs_state = v\<rparr>)"

lemma delivered_inj:
  assumes "captures captured" and "length log < 2 ^ 31"
    and "j \<in> set (positions log)" and "k \<in> set (positions log)"
    and "delivered captured log j = delivered captured log k"
  shows "j = k"
proof -
  have "stream_sequence captured log i < 2 ^ 64" if "i \<in> set (positions log)" for i
    using that assms(2) stream_sequence_le [of i log captured] by (simp add: positions_iff)
  then have "unat (of_nat (stream_sequence captured log i) :: u64) = stream_sequence captured log i"
    if "i \<in> set (positions log)" for i
    using that by (simp add: unat_of_nat)
  moreover have "(of_nat (stream_sequence captured log j) :: u64) = of_nat (stream_sequence captured log k)"
    using assms(5) by (simp add: delivered_def)
  ultimately have "stream_sequence captured log j = stream_sequence captured log k"
    using assms(3,4) by metis
  then show ?thesis
    using stream_sequence_le_iff [OF assms(3,4,1)] stream_sequence_le_iff [OF assms(4,3,1)] by simp
qed

lemma acked_row:
  assumes "captures captured" and "length log < 2 ^ 31" and "ingest_ok coll api captured log st"
    and "k \<in> set (positions log)" and "delivered captured log k \<in> set (in_acked st)"
  shows "row_at api captured log k \<in> set (in_traces st)"
proof -
  from assms(3,5) obtain j where j: "j \<in> set (positions log)" "delivered captured log k = delivered captured log j"
    and row: "row_at api captured log j \<in> set (in_traces st)" unfolding ingest_ok_def by blast
  from delivered_inj [OF assms(1,2,4) j] row show ?thesis by simp
qed

lemma resume_from_rows:
  assumes "ingest_ok coll api captured log st" and "captures captured" and "length log < 2 ^ 31"
    and "j \<in> set (positions log)" and "of_agent coll a (log ! j)" and "row_at api captured log j \<in> set (in_traces st)"
  obtains n where "j \<le> n" "n \<in> set (positions log)" "of_agent coll a (log ! n)"
    and "\<And>k. k \<in> set (positions log) \<Longrightarrow> of_agent coll a (log ! k)
      \<Longrightarrow> row_at api captured log k \<in> set (in_traces st) \<Longrightarrow> k \<le> n"
    and "select_latest_thought coll a (in_traces st) = Some
      (i32_to_i64 (of_nat (stream_sequence captured log n)), from_slice api (msg_payload (log ! n)))"
proof -
  define K where "K = {k \<in> set (positions log). of_agent coll a (log ! k) \<and> row_at api captured log k \<in> set (in_traces st)}"
  have K: "finite K" "j \<in> K" using assms(4-6) by (simp_all add: K_def)
  define n where "n = Max K"
  from K have "n \<in> K" and "j \<le> n" unfolding n_def by (auto intro: Max_in Max_ge)
  then have n: "n \<in> set (positions log)" "of_agent coll a (log ! n)" "row_at api captured log n \<in> set (in_traces st)"
    by (simp_all add: K_def)
  have top: "k \<le> n" if "k \<in> K" for k unfolding n_def using K(1) that by (rule Max_ge)
  have thought: "row_at api captured log k \<in> set (thought_rows coll a (in_traces st)) \<longleftrightarrow> k \<in> K"
    if "k \<in> set (positions log)" for k
    using that by (auto simp: thought_rows_def row_at_def of_agent_def K_def positions_iff)
  have "traces_unique coll (in_traces st)" using assms(1) by (simp add: ingest_ok_def)
  moreover have "row_at api captured log n \<in> set (thought_rows coll a (in_traces st))"
    using thought [OF n(1)] \<open>n \<in> K\<close> by simp
  moreover have "sint (row_step_index r') \<le> sint (row_step_index (row_at api captured log n))"
    if r': "r' \<in> set (thought_rows coll a (in_traces st))" for r'
  proof -
    from r' have "r' \<in> set (in_traces st)" by (simp add: thought_rows_def)
    with assms(1) obtain k where k: "k \<in> set (positions log)" "r' = row_at api captured log k"
      unfolding ingest_ok_def by blast
    with thought r' have "k \<le> n" by (intro top) simp
    with stream_sequence_le_iff [OF k(1) n(1) assms(2)] show ?thesis
      by (simp add: k(2) row_at_step [OF assms(3) k(1)] row_at_step [OF assms(3) n(1)])
  qed
  ultimately have "select_latest_thought coll a (in_traces st) = Some
      (i32_to_i64 (row_step_index (row_at api captured log n)), row_payload (row_at api captured log n))"
    by (rule select_latest_thought_Some)
  with that [OF \<open>j \<le> n\<close> n(1,2)] top show ?thesis by (simp add: K_def row_at_def)
qed

text \<open>The agent of a message that has its row resumes there or later.\<close>

lemma resume_of_row:
  assumes "json_laws (wd_api wd)" and "js_durable (wd_publish wd) (wd_log wd)" and "captures captured"
    and "reach (deploy_init wd events) (deploy_step wd captured) d" and "length (dp_log wd d) < 2 ^ 31"
    and "j \<in> set (positions (dp_log wd d))" and "of_agent (wd_coll wd) a (dp_log wd d ! j)"
    and "row_at (wd_api wd) captured (dp_log wd d) j \<in> set (sc_traces (dp_sidecar d))"
  obtains n where "j \<le> n" "n \<in> set (positions (dp_log wd d))" "of_agent (wd_coll wd) a (dp_log wd d ! n)"
    and "\<And>k. k \<in> set (positions (dp_log wd d)) \<Longrightarrow> of_agent (wd_coll wd) a (dp_log wd d ! k)
      \<Longrightarrow> row_at (wd_api wd) captured (dp_log wd d) k \<in> set (sc_traces (dp_sidecar d)) \<Longrightarrow> k \<le> n"
    and "resumes_at wd captured d a n"
proof -
  let ?log = "dp_log wd d" and ?tbl = "sc_traces (dp_sidecar d)"
  note ok = deployed_ingest_ok [OF assms(1-5)] and wf = deployed_log(1) [OF assms(2,4)]
  have "in_traces (dp_ingest d) = ?tbl" by (simp add: dp_ingest_def)
  note rows = resume_from_rows [OF ok assms(3,5,6,7), unfolded this, OF assms(8)]
  obtain n where
    n: "j \<le> n" "n \<in> set (positions ?log)" "of_agent (wd_coll wd) a (?log ! n)"
    and top: "\<And>k. k \<in> set (positions ?log) \<Longrightarrow> of_agent (wd_coll wd) a (?log ! k)
      \<Longrightarrow> row_at (wd_api wd) captured ?log k \<in> set ?tbl \<Longrightarrow> k \<le> n"
    and latest: "select_latest_thought (wd_coll wd) a ?tbl = Some
      (i32_to_i64 (of_nat (stream_sequence captured ?log n)), from_slice (wd_api wd) (msg_payload (?log ! n)))"
    using rows by blast
  from delivered_decodes [OF assms(1) wf assms(5) n(2)] obtain a' e p b v where msg: "?log ! n = event_msg a' b"
    and "to_vec (wd_api wd) (envelope (wd_api wd) a' e p) = Some b"
    and v: "from_slice (wd_api wd) b = Some v" and "names_event (wd_api wd) v a' e" by metis
  moreover have "handle_get_state (wd_coll wd) (wd_api wd) None ?tbl a
      = Inr \<lparr>rs_agent_id = a, rs_step_index = i32_to_i64 (of_nat (stream_sequence captured ?log n)), rs_state = v\<rparr>"
    using latest msg v by (simp add: handle_get_state_def resume_agent_def event_msg_def)
  ultimately have "resumes_at wd captured d a n" unfolding resumes_at_def by blast
  with n top show ?thesis by (intro that [of n]) simp_all
qed

lemma resume_of_acked:
  assumes "json_laws (wd_api wd)" and "js_durable (wd_publish wd) (wd_log wd)" and "captures captured"
    and "reach (deploy_init wd events) (deploy_step wd captured) d" and "length (dp_log wd d) < 2 ^ 31"
    and "j < length (dp_log wd d)" and "of_agent (wd_coll wd) a (dp_log wd d ! j)"
    and "delivered captured (dp_log wd d) j \<in> set (dp_acked d)"
  obtains n where "j \<le> n" "n < length (dp_log wd d)" "of_agent (wd_coll wd) a (dp_log wd d ! n)"
    and "\<And>k. k < length (dp_log wd d) \<Longrightarrow> of_agent (wd_coll wd) a (dp_log wd d ! k)
      \<Longrightarrow> delivered captured (dp_log wd d) k \<in> set (dp_acked d) \<Longrightarrow> k \<le> n"
    and "resumes_at wd captured d a n"
proof -
  let ?log = "dp_log wd d"
  have acked: "row_at (wd_api wd) captured ?log k \<in> set (sc_traces (dp_sidecar d))"
    if "k \<in> set (positions ?log)" "delivered captured ?log k \<in> set (dp_acked d)" for k
    using acked_row [OF assms(3,5) deployed_ingest_ok [OF assms(1-5)] that(1)] that(2) by (simp add: dp_ingest_def)
  have j: "j \<in> set (positions ?log)" using assms(6,7) by (simp add: positions_iff of_agent_def)
  obtain n where n: "j \<le> n" "n \<in> set (positions ?log)" "of_agent (wd_coll wd) a (?log ! n)"
    and top: "\<And>k. k \<in> set (positions ?log) \<Longrightarrow> of_agent (wd_coll wd) a (?log ! k)
      \<Longrightarrow> row_at (wd_api wd) captured ?log k \<in> set (sc_traces (dp_sidecar d)) \<Longrightarrow> k \<le> n"
    and resumes: "resumes_at wd captured d a n"
    using resume_of_row [OF assms(1-5) j assms(7) acked [OF j assms(8)]] by blast
  with acked show ?thesis by (intro that [of n]) (simp_all add: positions_iff of_agent_def)
qed

text \<open>
  C4.  What has been acknowledged is resumed, for ever: in every run of the sidecar and of ingest loops
  beside it, whatever fails in either and however often messages are delivered again, an agent one of
  whose messages has been acknowledged is answered by \<open>GET state\<close> with that message or a later one of
  its own, with the envelope that names it; and no acknowledged message of the agent is later still.
\<close>

theorem acked_message_resumes:
  assumes "json_laws (wd_api wd)" and "js_durable (wd_publish wd) (wd_log wd)" and "captures captured"
    and "reach (deploy_init wd events) (deploy_step wd captured) d" and "length (dp_log wd d) < 2 ^ 31"
    and "j < length (dp_log wd d)" and "of_agent (wd_coll wd) a (dp_log wd d ! j)"
    and "delivered captured (dp_log wd d) j \<in> set (dp_acked d)"
  shows "\<exists>n. j \<le> n \<and> n < length (dp_log wd d) \<and> of_agent (wd_coll wd) a (dp_log wd d ! n)
    \<and> resumes_at wd captured d a n
    \<and> (\<forall>k < length (dp_log wd d). of_agent (wd_coll wd) a (dp_log wd d ! k)
        \<and> delivered captured (dp_log wd d) k \<in> set (dp_acked d) \<longrightarrow> k \<le> n)"
  by (rule resume_of_acked [OF assms]) blast

section \<open>Checkpoints\<close>

lemma deploy_log_grows:
  assumes "js_durable (wd_publish wd) (wd_log wd)" and "(deploy_step wd captured)\<^sup>*\<^sup>* d d'"
  obtains ms where "dp_log wd d' = dp_log wd d @ ms"
proof -
  have "prefix (dp_log wd d) (dp_log wd d')" using assms(2)
  proof (induction rule: rtranclp_induct)
    case (step d1 d2)
    from step.hyps(2) have "prefix (dp_log wd d1) (dp_log wd d2)"
    proof (cases rule: deploy_step.cases)
      case (serve s')
      from sidecar_log_grows [OF assms(1) serve(2)] show ?thesis by (metis dp_log_def prefixI serve(1) deployment.select_convs(1) deployment.surjective deployment.update_convs(1))
    qed simp
    with step.IH show ?case by (rule prefix_order.trans)
  qed simp
  with that show ?thesis by (auto simp: prefix_def)
qed

text \<open>The deployment after a checkpoint has been published, with the stream as it then is.\<close>

definition dp_published :: "'js \<Rightarrow> ('v, 'js) deployment \<Rightarrow> ('v, 'js) deployment" where
  "dp_published js d = d\<lparr>dp_sidecar := (dp_sidecar d)\<lparr>sc_io := (sc_io (dp_sidecar d))\<lparr>io_js := js\<rparr>\<rparr>\<rparr>"

lemma checkpoint_204_logged:
  assumes "js_durable publish log" and "handle_checkpoint api publish agent_id body js = (Inr 204, js')"
  obtains p where "to_vec api (checkpoint_payload api body) = Some p"
    and "log js' = log js @ [checkpoint_msg agent_id p]"
proof -
  obtain r where run: "checkpoint_state api publish agent_id (checkpoint_payload api body) js = (r, js')"
    and "r = Inr ()"
    using assms(2)
    by (cases "fst (checkpoint_state api publish agent_id (checkpoint_payload api body) js)")
      (auto simp: handle_checkpoint_def split: prod.splits)
  then have "checkpoint_state api publish agent_id (checkpoint_payload api body) js = (Inr (), js')" by simp
  from checkpoint_state_Ok [OF assms(1) this] that show ?thesis by blast
qed

text \<open>Without a row of its own an agent is new.\<close>

lemma resume_without_rows:
  "thought_rows coll a tbl = [] \<Longrightarrow> handle_get_state coll api None tbl a
     = Inr \<lparr>rs_agent_id = a, rs_step_index = 0, rs_state = as_state (new_agent api a)\<rparr>"
  by (simp add: handle_get_state_def resume_agent_def select_latest_thought_None new_agent_def)

text \<open>
  C35.  A checkpoint is never resumed from.  After one is answered with 204, it is in the log; and in
  every run of the sidecar and of ingest loops from there on, the consumer is never given it, since the
  filter of \<open>ingest_agent_trace_stream\<close> does not select its subject, so that at every moment
  \<open>GET state\<close> answers any agent either with a saved event of its own at another place in the log or with
  a new agent at step zero.
\<close>

theorem checkpoint_never_resumed:
  assumes "json_laws (wd_api wd)" and "js_durable (wd_publish wd) (wd_log wd)" and "captures captured"
    and "reach (deploy_init wd events) (deploy_step wd captured) d"
    and "handle_checkpoint (wd_api wd) (wd_publish wd) agent_id body (io_js (sc_io (dp_sidecar d))) = (Inr 204, js')"
    and "(deploy_step wd captured)\<^sup>*\<^sup>* (dp_published js' d) d'" and "length (dp_log wd d') < 2 ^ 31"
  shows "(\<exists>p ms. to_vec (wd_api wd) (checkpoint_payload (wd_api wd) body) = Some p
      \<and> dp_log wd d' = dp_log wd d @ checkpoint_msg agent_id p # ms)
    \<and> length (dp_log wd d) \<notin> set (positions (dp_log wd d'))
    \<and> (handle_get_state (wd_coll wd) (wd_api wd) None (sc_traces (dp_sidecar d')) a
          = Inr \<lparr>rs_agent_id = a, rs_step_index = 0, rs_state = as_state (new_agent (wd_api wd) a)\<rparr>
       \<or> (\<exists>n < length (dp_log wd d'). n \<noteq> length (dp_log wd d)
            \<and> of_agent (wd_coll wd) a (dp_log wd d' ! n) \<and> resumes_at wd captured d' a n))"
proof -
  let ?k = "length (dp_log wd d)" and ?log = "dp_log wd d'" and ?tbl = "sc_traces (dp_sidecar d')"
  obtain p where p: "to_vec (wd_api wd) (checkpoint_payload (wd_api wd) body) = Some p"
    and logged: "dp_log wd (dp_published js' d) = dp_log wd d @ [checkpoint_msg agent_id p]"
    using checkpoint_204_logged [OF assms(2,5)] by (auto simp: dp_log_def dp_published_def)
  obtain ms where log: "?log = dp_log wd d @ checkpoint_msg agent_id p # ms"
    using deploy_log_grows [OF assms(2,6)] by (auto simp: logged)
  then have never: "?k \<notin> set (positions ?log)"
    by (simp add: positions_iff checkpoint_msg_not_selected)
  have "deploy_step wd captured d (dp_published js' d)"
    unfolding dp_published_def by (rule deploy_step.serve, rule sidecar_step.checkpoint, rule assms(5))
  then have run: "reach (deploy_init wd events) (deploy_step wd captured) d'"
    by (rule reach_steps [OF reach_step [OF assms(4)] assms(6)])
  note ok = deployed_ingest_ok [OF assms(1-3) run assms(7)]
  have "thought_rows (wd_coll wd) a ?tbl = []
    \<or> (\<exists>n < length ?log. n \<noteq> ?k \<and> of_agent (wd_coll wd) a (?log ! n) \<and> resumes_at wd captured d' a n)"
  proof (cases "thought_rows (wd_coll wd) a ?tbl")
    case (Cons r rs)
    then have "r \<in> set (thought_rows (wd_coll wd) a ?tbl)" by simp
    then have r: "r \<in> set ?tbl" "wd_coll wd (row_agent_id r) = wd_coll wd a" by (simp_all add: thought_rows_def)
    with ok obtain j where j: "j \<in> set (positions ?log)" "r = row_at (wd_api wd) captured ?log j"
      unfolding ingest_ok_def dp_ingest_def by auto
    then have "of_agent (wd_coll wd) a (?log ! j)" using r(2) by (simp add: of_agent_def positions_iff row_at_def)
    with resume_of_row [OF assms(1-3) run assms(7) j(1)] r(1) j(2) obtain n
      where "n \<in> set (positions ?log)" "of_agent (wd_coll wd) a (?log ! n)" "resumes_at wd captured d' a n" by metis
    moreover from this(1) never have "n < length ?log" "n \<noteq> ?k" by (auto simp: positions_iff)
    ultimately show ?thesis by blast
  qed simp
  then show ?thesis using p log never resume_without_rows by blast
qed

section \<open>Catching up\<close>

text \<open>
  What the consumer still has to be told of, by its place in the log, and its deliveries to one run of
  the loop; \<open>trouble\<close> is what happens to the insert and to the ack of each.
\<close>

definition pending_at :: "(wal_msg \<Rightarrow> bool) \<Rightarrow> wal_msg list \<Rightarrow> js_msg list \<Rightarrow> nat list" where
  "pending_at captured log acked = filter (\<lambda>k. delivered captured log k \<notin> set acked) (positions log)"

type_synonym trouble = "nat \<Rightarrow> fault \<times> string option"

definition backlog :: "(wal_msg \<Rightarrow> bool) \<Rightarrow> trouble \<Rightarrow> wal_msg list \<Rightarrow> js_msg list \<Rightarrow> delivery list" where
  "backlog captured trouble log acked =
     map (\<lambda>k. \<lparr>dl_msg = delivered captured log k, dl_fault = fst (trouble k), dl_ack = snd (trouble k)\<rparr>)
       (pending_at captured log acked)"

definition honest_trouble :: "trouble \<Rightarrow> bool" where
  "honest_trouble trouble \<longleftrightarrow> (\<forall>k. honest_fault (fst (trouble k)))"

definition fits_at :: "wal_msg list \<Rightarrow> nat \<Rightarrow> bool" where
  "fits_at log k \<longleftrightarrow> length (subject_agent (msg_subject (log ! k))) \<le> 255"

definition goes_in :: "trouble \<Rightarrow> wal_msg list \<Rightarrow> nat \<Rightarrow> bool" where
  "goes_in trouble log k \<longleftrightarrow> fits_at log k \<and> trouble k = (None, None)"

lemma positions_sorted: "sorted (positions log)" "distinct (positions log)"
  by (simp_all add: positions_def sorted_wrt_filter)

lemma pending_sorted: "sorted (pending_at captured log acked)" "distinct (pending_at captured log acked)"
  using positions_sorted [of log] by (simp_all add: pending_at_def sorted_wrt_filter)

lemma pending_positions: "k \<in> set (pending_at captured log acked) \<Longrightarrow> k \<in> set (positions log)"
  by (simp add: pending_at_def)

lemma takeWhile_sorted_less:
  assumes "sorted xs" and "y \<in> set xs" and "\<not> P y" and "x \<in> set (takeWhile P xs)"
  shows "x < (y :: nat)"
  using assms by (induction xs) (auto split: if_splits simp: order.order_iff_strict)

lemma delivered_passes:
  assumes "json_laws api" and "log_wf api log" and "length log < 2 ^ 31" and "k \<in> set (positions log)"
  shows "passes api \<lparr>dl_msg = delivered captured log k, dl_fault = fst (trouble k), dl_ack = snd (trouble k)\<rparr>
    \<longleftrightarrow> goes_in trouble log k"
proof -
  obtain t where t: "decode_message api (delivered captured log k) = Inr t"
    and row: "row_of_trace t = row_at api captured log k"
    by (rule delivered_decodes [OF assms])
  have "tr_agent_id t = subject_agent (msg_subject (log ! k))"
    using arg_cong [OF row, of row_agent_id] by (simp add: row_at_def)
  with t show ?thesis
    by (cases "trouble k") (auto simp: passes_def clean_def ingestible_def trace_fits_def fits_column_def
      agent_id_width_def goes_in_def fits_at_def)
qed

text \<open>A run acknowledges what is pending up to the first message that does not go in.\<close>

lemma backlog_run:
  assumes "json_laws api" and "log_wf api log" and "length log < 2 ^ 31" and "honest_trouble trouble"
    and "concat fetches = backlog captured trouble log (in_acked st)"
    and "ingest_agent_trace_stream coll api None None (map (\<lambda>ds. Inr (map Inr ds)) fetches) st = (res, st')"
  shows "in_acked st' = in_acked st
      @ map (delivered captured log) (takeWhile (goes_in trouble log) (pending_at captured log (in_acked st)))"
    and "res = None \<longleftrightarrow> list_all (goes_in trouble log) (pending_at captured log (in_acked st))"
proof -
  let ?ks = "pending_at captured log (in_acked st)"
  let ?dv = "\<lambda>k. \<lparr>dl_msg = delivered captured log k, dl_fault = fst (trouble k), dl_ack = snd (trouble k)\<rparr>"
  have passes: "passes api (?dv k) \<longleftrightarrow> goes_in trouble log k" if "k \<in> set ?ks" for k
    using that by (intro delivered_passes [OF assms(1-3)]) (rule pending_positions)
  obtain r where batch: "ingest_batch coll api (map Inr (map ?dv ?ks)) st = (r, st')" and "res = None \<longleftrightarrow> is_ok r"
    using assms(5,6)
    by (auto simp: ingest_agent_trace_stream_def ingest_fetches backlog_def is_ok_def split: prod.splits sum.splits)
  moreover have "list_all (\<lambda>d. honest_fault (dl_fault d)) (map ?dv ?ks)"
    using assms(4) by (simp add: list_all_iff honest_trouble_def)
  note run = ingest_batch_acks [OF this batch]
  moreover have "takeWhile (passes api) (map ?dv ?ks) = map ?dv (takeWhile (goes_in trouble log) ?ks)"
    using passes by (simp add: takeWhile_map comp_def cong: takeWhile_cong)
  moreover have "list_all (passes api) (map ?dv ?ks) \<longleftrightarrow> list_all (goes_in trouble log) ?ks"
    using passes by (simp add: list_all_iff)
  ultimately show "in_acked st' = in_acked st @ map (delivered captured log) (takeWhile (goes_in trouble log) ?ks)"
    and "res = None \<longleftrightarrow> list_all (goes_in trouble log) ?ks" by (simp_all add: comp_def)
qed

lemma pending_after:
  assumes "captures captured" and "length log < 2 ^ 31"
  shows "pending_at captured log (acked @ map (delivered captured log) (takeWhile P (pending_at captured log acked)))
    = dropWhile P (pending_at captured log acked)"
proof -
  let ?ks = "pending_at captured log acked"
  have "pending_at captured log (acked @ map (delivered captured log) (takeWhile P ?ks))
      = filter (\<lambda>k. delivered captured log k \<notin> delivered captured log ` set (takeWhile P ?ks)) ?ks"
    by (auto simp: pending_at_def intro: filter_cong)
  also have "\<dots> = filter (\<lambda>k. k \<notin> set (takeWhile P ?ks)) ?ks"
  proof (rule filter_cong [OF refl])
    fix k assume k: "k \<in> set ?ks"
    have "k = j" if "j \<in> set (takeWhile P ?ks)" "delivered captured log k = delivered captured log j" for j
    proof -
      from that(1) have "j \<in> set ?ks" by (rule set_takeWhileD [THEN conjunct1])
      with k that(2) show ?thesis by (intro delivered_inj [OF assms]) (auto dest: pending_positions)
    qed
    then show "delivered captured log k \<notin> delivered captured log ` set (takeWhile P ?ks) \<longleftrightarrow> k \<notin> set (takeWhile P ?ks)"
      by blast
  qed
  also have "\<dots> = dropWhile P ?ks"
  proof -
    have "distinct (takeWhile P ?ks @ dropWhile P ?ks)" using pending_sorted(2) by simp
    then have "filter (\<lambda>k. k \<notin> set (takeWhile P ?ks)) (takeWhile P ?ks @ dropWhile P ?ks) = dropWhile P ?ks"
      by (auto simp: filter_empty_conv filter_id_conv simp del: takeWhile_dropWhile_id)
    then show ?thesis by simp
  qed
  finally show ?thesis .
qed

text \<open>
  The loop is run again and again on what is then pending, in fetches of any size; each run may fail
  anywhere but at the first of its deliveries, and is then over.
\<close>

definition first_untroubled :: "trouble \<Rightarrow> nat list \<Rightarrow> bool" where
  "first_untroubled trouble ks \<longleftrightarrow> (case ks of [] \<Rightarrow> True | k # _ \<Rightarrow> trouble k = (None, None))"

inductive restarts ::
  "('v, 'js) world \<Rightarrow> (wal_msg \<Rightarrow> bool) \<Rightarrow> nat \<Rightarrow> ('v, 'js) deployment \<Rightarrow> ('v, 'js) deployment \<Rightarrow> bool"
  for wd :: "('v, 'js) world" and captured :: "wal_msg \<Rightarrow> bool" where
  stay: "restarts wd captured 0 d d"
| again: "honest_trouble trouble \<Longrightarrow> first_untroubled trouble (pending_at captured (dp_log wd d) (dp_acked d)) \<Longrightarrow>
    concat fetches = backlog captured trouble (dp_log wd d) (dp_acked d) \<Longrightarrow>
    ingest_agent_trace_stream (wd_coll wd) (wd_api wd) None None (map (\<lambda>ds. Inr (map Inr ds)) fetches) (dp_ingest d)
      = (res, st) \<Longrightarrow>
    restarts wd captured n (dp_with st d) d' \<Longrightarrow> restarts wd captured (Suc n) d d'"

lemma backlog_delivers:
  assumes "honest_trouble trouble" and all: "concat fetches = backlog captured trouble log acked"
  shows "delivers_fetches captured log (map (\<lambda>ds. Inr (map Inr ds)) fetches)"
proof -
  have "delivers captured log dv" if "ds \<in> set fetches" and "dv \<in> set ds" for ds dv
  proof -
    have "dv \<in> set (concat fetches)" using that by auto
    with assms(1) show ?thesis by (auto simp: all backlog_def delivers_def honest_trouble_def pending_at_def)
  qed
  then show ?thesis by (auto simp: delivers_fetches_def delivers_items_def list_all_iff)
qed

lemma restarts_progress:
  assumes "restarts wd captured n d d'"
    and "json_laws (wd_api wd)" and "captures captured" and "length (dp_log wd d) < 2 ^ 31"
    and "log_wf (wd_api wd) (dp_log wd d)" and "list_all (fits_at (dp_log wd d)) (positions (dp_log wd d))"
    and "length (pending_at captured (dp_log wd d) (dp_acked d)) \<le> n"
  shows "(deploy_step wd captured)\<^sup>*\<^sup>* d d' \<and> dp_log wd d' = dp_log wd d
    \<and> pending_at captured (dp_log wd d') (dp_acked d') = []"
  using assms
proof (induction rule: restarts.induct)
  case (stay d)
  then show ?case by simp
next
  case (again trouble d fetches res st n d')
  let ?log = "dp_log wd d"
  let ?ks = "pending_at captured ?log (dp_acked d)"
  have "concat fetches = backlog captured trouble ?log (in_acked (dp_ingest d))"
    using again.hyps(3) by (simp add: dp_ingest_def)
  from backlog_run(1) [OF again.prems(1,4,3) again.hyps(1) this again.hyps(4)]
  have "pending_at captured ?log (in_acked st) = dropWhile (goes_in trouble ?log) ?ks"
    using pending_after [OF again.prems(2,3)] by (simp add: dp_ingest_def)
  moreover have "length (dropWhile (goes_in trouble ?log) ?ks) \<le> length ?ks - 1"
  proof (cases ?ks)
    case (Cons k ks)
    then have "k \<in> set ?ks" by simp
    then have "fits_at ?log k" using again.prems(5) pending_positions by (auto simp: list_all_iff)
    with again.hyps(2) Cons show ?thesis
      by (simp add: goes_in_def first_untroubled_def length_dropWhile_le)
  qed simp
  ultimately have "length (pending_at captured ?log (in_acked st)) \<le> n"
    using again.prems(6) by simp
  with again.IH again.prems have rest: "(deploy_step wd captured)\<^sup>*\<^sup>* (dp_with st d) d'
    \<and> dp_log wd d' = ?log \<and> pending_at captured (dp_log wd d') (dp_acked d') = []" by auto
  have "(deploy_step wd captured)\<^sup>*\<^sup>* d (dp_with st d)"
    by (rule ingest_stream_steps [OF backlog_delivers [OF again.hyps(1,3)] again.hyps(4)])
  with rest show ?case by auto
qed

text \<open>
  C3.  Nothing that was acknowledged to a caller is lost to a restarted agent, if the ingest loop is
  restarted often enough: from any state that the sidecar and the loop have come to, crashes included,
  with a log of fewer than \<open>2 ^ 31\<close> messages of which those for the loop are of agents that fit the
  column, let the loop be run as often as there are messages to acknowledge, each run failing where it
  may but not at its first message.  Then all of them are acknowledged, and for every saved event of an
  agent without a full stop in its identifier, \<open>GET state\<close> answers with the last message in the log that
  is the agent's own, which is no earlier than the event's.
\<close>

theorem saved_agent_recovers:
  assumes "json_laws (wd_api wd)" and "js_durable (wd_publish wd) (wd_log wd)" and "captures captured"
    and "reach (deploy_init wd events) (deploy_step wd captured) d" and "length (dp_log wd d) < 2 ^ 31"
    and "list_all (fits_at (dp_log wd d)) (positions (dp_log wd d))"
    and "restarts wd captured n d d'" and "length (pending_at captured (dp_log wd d) (dp_acked d)) \<le> n"
    and "ev \<in> set (sc_saved (dp_sidecar d))" and "CHR ''.'' \<notin> set (pe_agent_id ev)"
  shows "(deploy_step wd captured)\<^sup>*\<^sup>* d d' \<and> dp_log wd d' = dp_log wd d
    \<and> pending_at captured (dp_log wd d') (dp_acked d') = []
    \<and> (\<exists>n < length (dp_log wd d). of_agent (wd_coll wd) (pe_agent_id ev) (dp_log wd d ! n)
        \<and> list_all (\<lambda>m. \<not> of_agent (wd_coll wd) (pe_agent_id ev) m) (drop (Suc n) (dp_log wd d))
        \<and> msg_of ev \<in> set (take (Suc n) (dp_log wd d))
        \<and> resumes_at wd captured d' (pe_agent_id ev) n)"
proof -
  let ?log = "dp_log wd d" and ?mine = "of_agent (wd_coll wd) (pe_agent_id ev)"
  note over = restarts_progress [OF assms(7,1,3,5) deployed_log(1) [OF assms(2,4)] assms(6,8)]
  then have log: "dp_log wd d' = ?log" by simp
  from assms(4) over have run: "reach (deploy_init wd events) (deploy_step wd captured) d'"
    by (blast intro: reach_steps)
  have caught_up: "delivered captured ?log k \<in> set (dp_acked d')" if "k \<in> set (positions ?log)" for k
  proof -
    have "k \<notin> set (pending_at captured ?log (dp_acked d'))" using over log by simp
    with that show ?thesis by (simp add: pending_at_def)
  qed
  have "?mine (msg_of ev)"
    using assms(10) by (simp add: of_agent_def msg_of_def event_msg_selected subject_agent_event)
  moreover obtain j where j: "j < length ?log" "?log ! j = msg_of ev"
    using deployed_log(2) [OF assms(2,4,9)] by (metis in_set_conv_nth)
  ultimately have own: "?mine (?log ! j)" by simp
  then have "delivered captured ?log j \<in> set (dp_acked d')"
    using j(1) by (intro caught_up) (simp add: positions_iff of_agent_def)
  with j(1) own obtain n where n: "j \<le> n" "n < length ?log" "?mine (?log ! n)"
    and top: "\<And>k. k < length ?log \<Longrightarrow> ?mine (?log ! k) \<Longrightarrow> delivered captured ?log k \<in> set (dp_acked d') \<Longrightarrow> k \<le> n"
    and resumes: "resumes_at wd captured d' (pe_agent_id ev) n"
    using resume_of_acked [OF assms(1-3) run, of j "pe_agent_id ev"] assms(5) by (auto simp: log)
  have "\<not> ?mine (?log ! k)" if "n < k" "k < length ?log" for k
    using top [of k] caught_up [of k] that by (auto simp: positions_iff of_agent_def)
  then have "list_all (\<lambda>m. \<not> ?mine m) (drop (Suc n) ?log)" by (auto simp: list_all_length)
  moreover have "msg_of ev \<in> set (take (Suc n) ?log)"
    using j n(1,2) by (auto simp: in_set_conv_nth intro!: exI [of _ j])
  ultimately show ?thesis using over n(2,3) resumes by blast
qed

text \<open>
  C10.  One long name stops the loop for every agent.  An event is saved under any identifier, but a row
  of \<open>agent_traces\<close> holds at most 255 characters of it.  Once one of a longer identifier (without a full
  stop) is in the log, every run of the loop on what is pending, whatever else fails, ends with an error,
  the message has not been acknowledged and is not, and nothing from its place on is newly acknowledged,
  whoever's it is: so it is in every reachable state, and a restart does not help.
\<close>

theorem long_agent_stops_ingest:
  assumes "json_laws (wd_api wd)" and "js_durable (wd_publish wd) (wd_log wd)" and "captures captured"
    and "reach (deploy_init wd events) (deploy_step wd captured) d" and "length (dp_log wd d) < 2 ^ 31"
    and "ev \<in> set (sc_saved (dp_sidecar d))" and "CHR ''.'' \<notin> set (pe_agent_id ev)" and "length (pe_agent_id ev) > 255"
    and "honest_trouble trouble" and "concat fetches = backlog captured trouble (dp_log wd d) (dp_acked d)"
    and "ingest_agent_trace_stream (wd_coll wd) (wd_api wd) None None (map (\<lambda>ds. Inr (map Inr ds)) fetches) (dp_ingest d)
      = (res, st)"
  shows "res \<noteq> None \<and> (\<exists>j < length (dp_log wd d). dp_log wd d ! j = msg_of ev
    \<and> delivered captured (dp_log wd d) j \<notin> set (in_acked st)
    \<and> (\<forall>k \<in> set (positions (dp_log wd d)). j \<le> k \<and> delivered captured (dp_log wd d) k \<in> set (in_acked st)
        \<longrightarrow> delivered captured (dp_log wd d) k \<in> set (dp_acked d)))"
proof -
  let ?log = "dp_log wd d" and ?ks = "pending_at captured (dp_log wd d) (dp_acked d)"
  note ok = deployed_ingest_ok [OF assms(1-5)]
  have all: "concat fetches = backlog captured trouble ?log (in_acked (dp_ingest d))"
    using assms(10) by (simp add: dp_ingest_def)
  note run = backlog_run [OF assms(1) deployed_log(1) [OF assms(2,4)] assms(5,9) all assms(11)]
  obtain j where j: "j < length ?log" "?log ! j = msg_of ev"
    using deployed_log(2) [OF assms(2,4,6)] by (metis in_set_conv_nth)
  have pos: "j \<in> set (positions ?log)" and long: "\<not> fits_at ?log j"
    using j assms(7,8) by (simp_all add: positions_iff fits_at_def msg_of_def event_msg_selected subject_agent_event)
  have "row_at (wd_api wd) captured ?log j \<notin> set (sc_traces (dp_sidecar d))"
  proof
    assume "row_at (wd_api wd) captured ?log j \<in> set (sc_traces (dp_sidecar d))"
    with ok have "fits_column (row_agent_id (row_at (wd_api wd) captured ?log j))"
      by (auto simp: ingest_ok_def dp_ingest_def list_all_iff)
    with long show False by (simp add: row_at_def fits_at_def fits_column_def agent_id_width_def)
  qed
  then have "delivered captured ?log j \<notin> set (dp_acked d)"
    using acked_row [OF assms(3,5) ok pos] by (auto simp: dp_ingest_def)
  with pos have pending: "j \<in> set ?ks" by (simp add: pending_at_def)
  have stuck: "\<not> goes_in trouble ?log j" using long by (simp add: goes_in_def)
  have ended: "res \<noteq> None"
    using run(2) pending stuck by (auto simp: dp_ingest_def list_all_iff)
  have new: "delivered captured ?log k \<in> set (dp_acked d)"
    if "k \<in> set (positions ?log)" "j \<le> k" "delivered captured ?log k \<in> set (in_acked st)" for k
  proof (rule ccontr)
    assume "delivered captured ?log k \<notin> set (dp_acked d)"
    with that(3) run(1) obtain i where i: "i \<in> set (takeWhile (goes_in trouble ?log) ?ks)"
      and same: "delivered captured ?log k = delivered captured ?log i" by (auto simp: dp_ingest_def)
    from i have "i \<in> set (positions ?log)" by (auto dest: set_takeWhileD pending_positions)
    with same that(1) have "k = i" by (intro delivered_inj [OF assms(3,5)])
    moreover have "i < j" by (rule takeWhile_sorted_less [OF pending_sorted(1) pending stuck i])
    ultimately show False using that(2) by simp
  qed
  from new [OF pos order.refl] \<open>delivered captured ?log j \<notin> set (dp_acked d)\<close>
  have "delivered captured ?log j \<notin> set (in_acked st)" by blast
  with ended j new show ?thesis by blast
qed

section \<open>A run\<close>

lemma sidecar_run_deploys:
  assumes "reach (\<lambda>s. sidecar_init events [] s \<and> wd_log wd (io_js (sc_io s)) = []) (sidecar_step wd) s"
  shows "reach (deploy_init wd events) (deploy_step wd captured) \<lparr>dp_sidecar = s, dp_acked = []\<rparr>"
  using assms
proof (induction rule: reach.induct)
  case (reach_init s)
  then show ?case by (intro reach.reach_init) (simp add: deploy_init_def dp_log_def)
next
  case (reach_step s t)
  from deploy_step.serve [of wd "\<lparr>dp_sidecar = s, dp_acked = []\<rparr>" t captured] reach_step.hyps(2)
  show ?case by (intro reach.reach_step [OF reach_step.IH]) simp
qed

definition demo_deployment :: "(string, wal_msg list) deployment" where
  "demo_deployment = \<lparr>dp_sidecar = demo_crashed, dp_acked = []\<rparr>"

definition demo_captured :: "wal_msg \<Rightarrow> bool" where
  "demo_captured m = True"

lemma demo_captures: "captures demo_captured"
  by (simp add: captures_def demo_captured_def)

lemma demo_deployment_reach: "reach (deploy_init demo_world []) (deploy_step demo_world demo_captured) demo_deployment"
  unfolding demo_deployment_def
  by (rule sidecar_run_deploys, rule reach_mono [OF demo_run_crashed]) (simp_all add: demo_start_def)

lemma demo_deployment_eval:
  "dp_log demo_world demo_deployment = [msg_of demo_pending]"
  "sc_saved (dp_sidecar demo_deployment) = [demo_pending]" "dp_acked demo_deployment = []"
  "pe_agent_id demo_pending = ''a''" "json_laws (wd_api demo_world)"
  by (simp_all add: demo_deployment_def demo_crashed_def demo_saved_def demo_sidecar_def demo_pending_def
      pending_of_def dp_log_def demo_world_def demo_json_laws)

lemma demo_own: "of_agent (wd_coll demo_world) ''a'' (msg_of demo_pending)"
  by (simp add: of_agent_def msg_of_def event_msg_selected subject_agent_event demo_deployment_eval(4))

definition demo_untroubled :: trouble where
  "demo_untroubled k = (None, None)"

definition demo_backlog :: "delivery list" where
  "demo_backlog = backlog demo_captured demo_untroubled (dp_log demo_world demo_deployment) (dp_acked demo_deployment)"

lemma demo_honest: "honest_trouble demo_untroubled" "first_untroubled demo_untroubled ks"
  by (simp_all add: honest_trouble_def demo_untroubled_def first_untroubled_def split: list.splits)

lemma demo_pending_at: "pending_at demo_captured (dp_log demo_world demo_deployment) (dp_acked demo_deployment) = [0]"
  using demo_own by (simp add: pending_at_def positions_def demo_deployment_eval of_agent_def)

lemma demo_fits: "list_all (fits_at (dp_log demo_world demo_deployment)) (positions (dp_log demo_world demo_deployment))"
  using demo_own by (simp add: list_all_iff positions_iff fits_at_def demo_deployment_eval of_agent_def
      msg_of_def subject_agent_event)

lemma demo_restarts:
  obtains st where "ingest_agent_trace_stream (wd_coll demo_world) (wd_api demo_world) None None
      [Inr (map Inr demo_backlog)] (dp_ingest demo_deployment) = (None, st)"
    and "restarts demo_world demo_captured 1 demo_deployment (dp_with st demo_deployment)"
proof -
  let ?log = "dp_log demo_world demo_deployment"
  obtain res st where run: "ingest_agent_trace_stream (wd_coll demo_world) (wd_api demo_world) None None
      (map (\<lambda>ds. Inr (map Inr ds)) [demo_backlog]) (dp_ingest demo_deployment) = (res, st)" by fastforce
  have all: "concat [demo_backlog] = backlog demo_captured demo_untroubled ?log (dp_acked demo_deployment)"
    by (simp add: demo_backlog_def)
  have "list_all (goes_in demo_untroubled ?log) [0]"
    using demo_fits demo_own
    by (simp add: goes_in_def demo_untroubled_def list_all_iff positions_iff demo_deployment_eval of_agent_def)
  moreover have "log_wf (wd_api demo_world) ?log"
    by (rule deployed_log(1) [OF demo_world_durable demo_deployment_reach])
  ultimately have "res = None"
    using backlog_run(2) [OF demo_deployment_eval(5) _ _ demo_honest(1), of ?log "[demo_backlog]" demo_captured
        "dp_ingest demo_deployment"] run all
    by (simp add: dp_ingest_def demo_pending_at [unfolded demo_deployment_eval] demo_deployment_eval)
  with run that restarts.again [OF demo_honest all run restarts.stay] show ?thesis by simp
qed

theorem saved_agent_recovers_witness:
  "\<exists>d'. restarts demo_world demo_captured 1 demo_deployment d' \<and> resumes_at demo_world demo_captured d' ''a'' 0"
proof -
  obtain st where run: "restarts demo_world demo_captured 1 demo_deployment (dp_with st demo_deployment)"
    by (rule demo_restarts)
  have "length (dp_log demo_world demo_deployment) < 2 ^ 31" "demo_pending \<in> set (sc_saved (dp_sidecar demo_deployment))"
    "CHR ''.'' \<notin> set (pe_agent_id demo_pending)"
    "length (pending_at demo_captured (dp_log demo_world demo_deployment) (dp_acked demo_deployment)) \<le> 1"
    unfolding demo_pending_at by (simp_all add: demo_deployment_eval)
  from saved_agent_recovers [OF demo_deployment_eval(5) demo_world_durable demo_captures demo_deployment_reach
      this(1) demo_fits run this(4,2,3)]
  show ?thesis using run by (auto simp: demo_deployment_eval)
qed

theorem acked_message_resumes_witness:
  "\<exists>d. dp_acked d \<noteq> [] \<and> resumes_at demo_world demo_captured d ''a'' 0"
proof -
  let ?log = "dp_log demo_world demo_deployment"
  obtain st where run: "restarts demo_world demo_captured 1 demo_deployment (dp_with st demo_deployment)"
    by (rule demo_restarts)
  have "length ?log < 2 ^ 31" "length (pending_at demo_captured ?log (dp_acked demo_deployment)) \<le> 1"
    unfolding demo_pending_at by (simp_all add: demo_deployment_eval)
  note over = restarts_progress [OF run demo_deployment_eval(5) demo_captures this(1)
      deployed_log(1) [OF demo_world_durable demo_deployment_reach] demo_fits this(2)]
  have reached: "reach (deploy_init demo_world []) (deploy_step demo_world demo_captured) (dp_with st demo_deployment)"
    by (rule reach_steps [OF demo_deployment_reach conjunct1 [OF over]])
  have acked: "delivered demo_captured ?log 0 \<in> set (dp_acked (dp_with st demo_deployment))"
    using over demo_own by (auto simp: pending_at_def positions_iff filter_empty_conv demo_deployment_eval of_agent_def)
  from acked_message_resumes [OF demo_deployment_eval(5) demo_world_durable demo_captures reached, of 0 "''a''"] acked
  have "resumes_at demo_world demo_captured (dp_with st demo_deployment) ''a'' 0"
    by (auto simp: demo_deployment_eval demo_own)
  with acked show ?thesis by (intro exI [of _ "dp_with st demo_deployment"]) auto
qed

theorem checkpoint_never_resumed_witness:
  "\<exists>js'. handle_checkpoint (wd_api demo_world) (wd_publish demo_world) ''a'' \<lparr>cp_step_index = 3, cp_state = ''s''\<rparr>
      (io_js (sc_io (dp_sidecar demo_deployment))) = (Inr 204, js')
    \<and> length js' = 2 \<and> 1 \<notin> set (positions js')"
proof -
  let ?body = "\<lparr>cp_step_index = 3, cp_state = ''s''\<rparr>"
  obtain response js' where run: "handle_checkpoint (wd_api demo_world) (wd_publish demo_world) ''a'' ?body
      (io_js (sc_io (dp_sidecar demo_deployment))) = (response, js')" by fastforce
  then have made: "response = Inr 204" "length js' = 2"
    using demo_deployment_eval(1)
    by (auto simp: handle_checkpoint_def checkpoint_state_def demo_world_def demo_publish_def published_def
        checkpoint_subject_def response_codes dp_log_def)
  have "dp_log demo_world (dp_published js' demo_deployment) = js'"
    by (simp add: dp_log_def dp_published_def demo_world_def)
  with checkpoint_never_resumed [OF demo_deployment_eval(5) demo_world_durable demo_captures demo_deployment_reach
      run [unfolded made(1)] rtranclp.rtrancl_refl, of "''a''"] run made
  show ?thesis by (auto simp: demo_deployment_eval)
qed

text \<open>An agent whose identifier has 256 characters.\<close>

definition long_agent :: string where
  "long_agent = replicate 256 (CHR ''a'')"

definition long_pending :: pending_event where
  "long_pending = pending_of long_agent ''e'' (envelope demo_json long_agent ''e'' ''p'')"

definition long_deployment :: "(string, wal_msg list) deployment" where
  "long_deployment = \<lparr>dp_sidecar = demo_sidecar
     \<lparr>sc_io := \<lparr>io_limiter = rate_limiter_default, io_js = [msg_of long_pending],
                io_queue = \<lparr>q_items = [long_pending], q_capacity = 1, q_open = True\<rparr>\<rparr>,
      sc_saved := [long_pending]\<rparr>, dp_acked = []\<rparr>"

lemma long_deployment_reach: "reach (deploy_init demo_world []) (deploy_step demo_world demo_captured) long_deployment"
  unfolding long_deployment_def
proof (rule sidecar_run_deploys, rule reach_step)
  show "reach (\<lambda>s. sidecar_init [] [] s \<and> wd_log demo_world (io_js (sc_io s)) = []) (sidecar_step demo_world) demo_sidecar"
    by (rule reach_init) (simp add: sidecar_init_def demo_sidecar_def demo_io_def demo_world_def)
  have "save_event (wd_api demo_world) (wd_publish demo_world) (wd_limit demo_world) 0 (\<lambda>_. 0) long_agent ''e'' ''p''
      (sc_io demo_sidecar) = (Done (Inr ()), sc_io (dp_sidecar long_deployment))"
    by (simp add: demo_world_def demo_sidecar_def long_deployment_def demo_save long_pending_def msg_of_def pending_of_def)
  from sidecar_step.save [OF this] show "sidecar_step demo_world demo_sidecar (demo_sidecar
     \<lparr>sc_io := \<lparr>io_limiter = rate_limiter_default, io_js = [msg_of long_pending],
                io_queue = \<lparr>q_items = [long_pending], q_capacity = 1, q_open = True\<rparr>\<rparr>,
      sc_saved := [long_pending]\<rparr>)"
    by (simp add: after_save_def long_deployment_def demo_sidecar_def)
qed

theorem long_agent_stops_ingest_witness:
  "fst (ingest_agent_trace_stream (wd_coll demo_world) (wd_api demo_world) None None
     [Inr (map Inr (backlog demo_captured demo_untroubled (dp_log demo_world long_deployment) []))]
     (dp_ingest long_deployment)) \<noteq> None"
proof -
  let ?fetches = "[backlog demo_captured demo_untroubled (dp_log demo_world long_deployment) []]"
  have eval: "dp_log demo_world long_deployment = [msg_of long_pending]" "dp_acked long_deployment = []"
    "sc_saved (dp_sidecar long_deployment) = [long_pending]"
    by (simp_all add: dp_log_def demo_world_def long_deployment_def)
  have agent: "pe_agent_id long_pending = long_agent" by (simp add: long_pending_def pending_of_def)
  have "CHR ''.'' \<notin> set long_agent" "length long_agent > 255"
    by (simp_all only: long_agent_def set_replicate_conv_if length_replicate) simp_all
  moreover obtain res st where run: "ingest_agent_trace_stream (wd_coll demo_world) (wd_api demo_world) None None
      (map (\<lambda>ds. Inr (map Inr ds)) ?fetches) (dp_ingest long_deployment) = (res, st)" by fastforce
  ultimately have "res \<noteq> None"
    using long_agent_stops_ingest [OF demo_deployment_eval(5) demo_world_durable demo_captures long_deployment_reach
        _ _ _ _ demo_honest(1) _ run, of long_pending]
    by (simp add: eval agent)
  with run show ?thesis by simp
qed

end
