(* ===== verification/Ticker.thy ===== *)
theory Ticker
  imports System
begin

text \<open>
  The writer's loop with its clock: when \<open>select!\<close> yields, how long a flush holds the loop up, and what
  \<open>tokio::time::interval\<close> does with ticks that come late.  Without the times it is the loop of
  \<open>Batch_Writer\<close>; with them, \<open>max_batch_linger\<close> bounds how long an event stays in the batch and how often
  the database is written to.
\<close>

section \<open>The loop in time\<close>

text \<open>
  \<open>tw_deadline\<close> is the ticker's next tick; \<open>tw_free\<close> the time since which no flush has held up the loop.
  The rest is history: when the events of the batch were received; for each event that has left the
  batch when it was received and when its flush began; when the flushes began; and how many events and
  ticks \<open>select!\<close> has yielded.  \<open>tw_ended\<close> is set when the queue is closed, which ends the loop.
\<close>

record timed_writer =
  tw_writer :: writer
  tw_now :: millis
  tw_deadline :: millis
  tw_free :: millis
  tw_since :: "millis list"
  tw_waits :: "(millis \<times> millis) list"
  tw_flushes :: "millis list"
  tw_received :: nat
  tw_ticks :: nat
  tw_ended :: bool

text \<open>
  The first tick is due at once.  A tick is not yielded before its deadline, and under
  \<open>MissedTickBehavior::Delay\<close> the next deadline is one period after the old one or, for a late tick, up
  to one period after it was yielded.  From the deadline on, or from the end of the flush during which
  it passed, \<open>select!\<close> has a tick to yield, and may yield events in its place for at most \<open>slack\<close>: this
  is the scheduler's latency and the time that the random choice of \<open>select!\<close> can favour the queue.
\<close>

definition due :: "millis \<Rightarrow> timed_writer \<Rightarrow> millis \<Rightarrow> bool" where
  "due slack s t \<longleftrightarrow> \<not> tw_ended s \<and> tw_now s \<le> t \<and> t \<le> max (tw_deadline s) (tw_free s) + slack"

definition held_up :: "writer \<Rightarrow> writer \<Rightarrow> millis" where
  "held_up w w' = w_slept w' - w_slept w"

inductive timed_step :: "('v, 'js) world \<Rightarrow> millis \<Rightarrow> timed_writer \<Rightarrow> timed_writer \<Rightarrow> bool"
  for wd :: "('v, 'js) world" and slack :: millis where
  receive: "due slack s t \<Longrightarrow> Suc (length (w_batch (tw_writer s))) < max_batch_size (wd_cfg wd) \<Longrightarrow>
    timed_step wd slack s (s\<lparr>tw_writer := select_world wd (Recv ev fw) (tw_writer s), tw_now := t,
      tw_since := tw_since s @ [t], tw_received := Suc (tw_received s)\<rparr>)"
| receive_full: "due slack s t \<Longrightarrow> max_batch_size (wd_cfg wd) \<le> Suc (length (w_batch (tw_writer s))) \<Longrightarrow>
    w' = select_world wd (Recv ev fw) (tw_writer s) \<Longrightarrow> t + held_up (tw_writer s) w' \<le> u \<Longrightarrow>
    timed_step wd slack s (s\<lparr>tw_writer := w', tw_now := u, tw_free := u, tw_since := [],
      tw_waits := tw_waits s @ map (\<lambda>a. (a, t)) (tw_since s @ [t]), tw_flushes := tw_flushes s @ [t],
      tw_received := Suc (tw_received s)\<rparr>)"
| tick_idle: "due slack s t \<Longrightarrow> tw_deadline s \<le> t \<Longrightarrow> w_batch (tw_writer s) = [] \<Longrightarrow>
    tw_deadline s + max_batch_linger (wd_cfg wd) \<le> d \<Longrightarrow> d \<le> t + max_batch_linger (wd_cfg wd) \<Longrightarrow>
    timed_step wd slack s (s\<lparr>tw_writer := select_world wd (Tick fw) (tw_writer s), tw_now := t, tw_deadline := d,
      tw_ticks := Suc (tw_ticks s)\<rparr>)"
| tick_flush: "due slack s t \<Longrightarrow> tw_deadline s \<le> t \<Longrightarrow> w_batch (tw_writer s) \<noteq> [] \<Longrightarrow>
    tw_deadline s + max_batch_linger (wd_cfg wd) \<le> d \<Longrightarrow> d \<le> t + max_batch_linger (wd_cfg wd) \<Longrightarrow>
    w' = select_world wd (Tick fw) (tw_writer s) \<Longrightarrow> t + held_up (tw_writer s) w' \<le> u \<Longrightarrow>
    timed_step wd slack s (s\<lparr>tw_writer := w', tw_now := u, tw_deadline := d, tw_free := u, tw_since := [],
      tw_waits := tw_waits s @ map (\<lambda>a. (a, t)) (tw_since s), tw_flushes := tw_flushes s @ [t],
      tw_ticks := Suc (tw_ticks s)\<rparr>)"
| closed_idle: "due slack s t \<Longrightarrow> w_batch (tw_writer s) = [] \<Longrightarrow>
    timed_step wd slack s (s\<lparr>tw_now := t, tw_ended := True\<rparr>)"
| closed_flush: "due slack s t \<Longrightarrow> w_batch (tw_writer s) \<noteq> [] \<Longrightarrow>
    w' = flush_if_pending (wd_coll wd) (wd_lossy wd) (wd_delays wd) (wd_dead_letter wd) fw (tw_writer s) \<Longrightarrow>
    t + held_up (tw_writer s) w' \<le> u \<Longrightarrow>
    timed_step wd slack s (s\<lparr>tw_writer := w', tw_now := u, tw_free := u, tw_since := [],
      tw_waits := tw_waits s @ map (\<lambda>a. (a, t)) (tw_since s), tw_flushes := tw_flushes s @ [t], tw_ended := True\<rparr>)"

definition timed_init :: "event_row list \<Rightarrow> millis \<Rightarrow> timed_writer \<Rightarrow> bool" where
  "timed_init events start s \<longleftrightarrow> s = \<lparr>tw_writer = writer_init events, tw_now = start, tw_deadline = start,
     tw_free = start, tw_since = [], tw_waits = [], tw_flushes = [], tw_received = 0, tw_ticks = 0, tw_ended = False\<rparr>"

section \<open>Without the times\<close>

text \<open>A timed run is a run of the writer's loop, whose last flush does what a tick does.\<close>

lemma last_flush:
  "flush_if_pending (wd_coll wd) (wd_lossy wd) (wd_delays wd) (wd_dead_letter wd) fw w = select_world wd (Tick fw) w"
  by (simp add: select_world_def)

interpretation untimed: simulation "timed_init events start" "timed_step wd slack"
    "\<lambda>w. w = writer_init events" "\<lambda>w w'. \<exists>i. w' = select_world wd i w" tw_writer
  for wd :: "('v, 'js) world" and slack events start
proof unfold_locales
  fix s s' :: timed_writer
  assume "timed_step wd slack s s'"
  then show "(\<lambda>w w'. \<exists>i. w' = select_world wd i w)\<^sup>=\<^sup>= (tw_writer s) (tw_writer s')"
    by (cases rule: timed_step.cases) (auto simp: last_flush)
qed (simp add: timed_init_def)

lemma writer_runs:
  "reach (\<lambda>w. w = writer_init events) (\<lambda>w w'. \<exists>i. w' = select_world wd i w) w \<Longrightarrow>
     \<exists>inputs. w = fold (select_world wd) inputs (writer_init events)"
proof (induction rule: reach.induct)
  case (reach_init w)
  then show ?case by (intro exI [of _ "[]"]) simp
next
  case (reach_step w w')
  then obtain i inputs where "w' = select_world wd i w" "w = fold (select_world wd) inputs (writer_init events)" by blast
  then show ?case by (intro exI [of _ "inputs @ [i]"]) simp
qed

lemma timed_writer_is_loop:
  assumes "reach (timed_init events start) (timed_step wd slack) s"
  shows "\<exists>inputs. tw_writer s = writer_loop (wd_coll wd) (wd_lossy wd) (wd_delays wd) (wd_dead_letter wd) (wd_cfg wd)
    inputs None (writer_init events)"
  using writer_runs [OF untimed.reach_abstraction [OF assms]] by (simp add: writer_loop_def select_world_def)

text \<open>What a turn makes of the batch.\<close>

lemma select_batch:
  "w_batch (select_world wd (Recv ev fw) w)
     = (if max_batch_size (wd_cfg wd) \<le> Suc (length (w_batch w)) then [] else w_batch w @ [ev])"
  "w_batch (select_world wd (Tick fw) w) = []"
proof -
  have "w_batch (flush_batch_with_retry coll lossy delays dl fw v) = []" for coll lossy delays dl and v :: writer
    by (cases rule: flush_settles [of coll lossy delays dl fw v]) (simp_all add: stored_all_def given_up_def)
  then show "w_batch (select_world wd (Recv ev fw) w)
      = (if max_batch_size (wd_cfg wd) \<le> Suc (length (w_batch w)) then [] else w_batch w @ [ev])"
    and "w_batch (select_world wd (Tick fw) w) = []"
    by (simp_all add: select_world_def flush_if_pending_def Let_def)
qed

section \<open>Times and counts\<close>

definition timed_inv :: "('v, 'js) world \<Rightarrow> millis \<Rightarrow> millis \<Rightarrow> timed_writer \<Rightarrow> bool" where
  "timed_inv wd slack start s \<longleftrightarrow>
     (let linger = max_batch_linger (wd_cfg wd); size = max 1 (max_batch_size (wd_cfg wd))
      in length (tw_since s) = length (w_batch (tw_writer s))
         \<and> length (tw_waits s) + length (tw_since s) = tw_received s
         \<and> start \<le> tw_now s \<and> tw_free s \<le> tw_now s
         \<and> start + tw_ticks s * linger \<le> tw_deadline s \<and> tw_deadline s \<le> tw_now s + linger
         \<and> (\<forall>a \<in> set (tw_since s). a \<le> tw_now s \<and> tw_now s \<le> a + linger + slack
              \<and> max (tw_deadline s) (tw_free s) \<le> a + linger)
         \<and> (\<forall>(a, f) \<in> set (tw_waits s). a \<le> f \<and> f \<le> a + linger + slack)
         \<and> (length (tw_flushes s) - (tw_ticks s + of_bool (tw_ended s))) * size + length (tw_since s) \<le> tw_received s)"

lemma flush_count:
  "(Suc F - T) * n \<le> (F - T) * n + n" "(F - Suc T) * n \<le> (F - T) * n" for F T n :: nat
proof -
  have "Suc F - T \<le> Suc (F - T)" by simp
  then have "(Suc F - T) * n \<le> Suc (F - T) * n" by (rule mult_le_mono1)
  then show "(Suc F - T) * n \<le> (F - T) * n + n" by simp
  show "(F - Suc T) * n \<le> (F - T) * n" by (rule mult_le_mono1) simp
qed

lemma due_times:
  assumes "timed_inv wd slack start s" and "due slack s t"
  shows "\<not> tw_ended s" "tw_now s \<le> t" "t \<le> max (tw_deadline s) (tw_free s) + slack"
    and "\<forall>a \<in> set (tw_since s). a \<le> t \<and> t \<le> a + max_batch_linger (wd_cfg wd) + slack"
    and "(length (tw_flushes s) - tw_ticks s) * max 1 (max_batch_size (wd_cfg wd)) + length (tw_since s) \<le> tw_received s"
proof -
  show t: "\<not> tw_ended s" "tw_now s \<le> t" "t \<le> max (tw_deadline s) (tw_free s) + slack"
    using assms(2) by (simp_all add: due_def)
  with assms(1) show "\<forall>a \<in> set (tw_since s). a \<le> t \<and> t \<le> a + max_batch_linger (wd_cfg wd) + slack"
    by (fastforce simp: timed_inv_def Let_def)
  from assms(1) t(1) show "(length (tw_flushes s) - tw_ticks s) * max 1 (max_batch_size (wd_cfg wd))
      + length (tw_since s) \<le> tw_received s"
    by (simp add: timed_inv_def Let_def)
qed

lemma timed_inv_step:
  assumes "timed_inv wd slack start s" and "timed_step wd slack s s'"
  shows "timed_inv wd slack start s'"
  using assms(2)
proof (cases rule: timed_step.cases)
  case (receive t ev fw)
  with assms(1) show ?thesis
    by (auto simp: timed_inv_def Let_def due_def select_batch)
next
  case (receive_full t w' ev fw u)
  let ?size = "max 1 (max_batch_size (wd_cfg wd))"
  note t = due_times [OF assms(1) receive_full(2)]
  have "?size \<le> Suc (length (tw_since s))" using receive_full(3) assms(1) by (simp add: timed_inv_def Let_def)
  with t(5) flush_count(1) [of "length (tw_flushes s)" "tw_ticks s" ?size]
  have count: "(Suc (length (tw_flushes s)) - tw_ticks s) * ?size \<le> Suc (tw_received s)" by linarith
  have "t \<le> u" using receive_full(5) by simp
  with assms(1) t count receive_full(3) show ?thesis
    by (auto simp: timed_inv_def Let_def receive_full(1,4) select_batch)
next
  case (tick_idle t d fw)
  note t = due_times [OF assms(1) tick_idle(2)]
  from tick_idle assms(1) have "tw_since s = []" by (simp add: timed_inv_def Let_def)
  moreover have "(length (tw_flushes s) - Suc (tw_ticks s)) * max 1 (max_batch_size (wd_cfg wd)) \<le> tw_received s"
    using t(5) flush_count(2) [of "length (tw_flushes s)" "tw_ticks s" "max 1 (max_batch_size (wd_cfg wd))"]
    by linarith
  ultimately show ?thesis
    using assms(1) tick_idle t(1) by (auto simp: timed_inv_def Let_def due_def select_batch)
next
  case (tick_flush t d w' fw u)
  have "t \<le> u" using tick_flush(8) by simp
  with assms(1) due_times [OF assms(1) tick_flush(2)] tick_flush(3,5,6) show ?thesis
    by (auto simp: timed_inv_def Let_def tick_flush(1,7) select_batch)
next
  case (closed_idle t)
  note t = due_times [OF assms(1) closed_idle(2)]
  from closed_idle assms(1) have "tw_since s = []" by (simp add: timed_inv_def Let_def)
  moreover have "(length (tw_flushes s) - Suc (tw_ticks s)) * max 1 (max_batch_size (wd_cfg wd)) \<le> tw_received s"
    using t(5) flush_count(2) [of "length (tw_flushes s)" "tw_ticks s" "max 1 (max_batch_size (wd_cfg wd))"]
    by linarith
  ultimately show ?thesis
    using assms(1) closed_idle t(1,2) by (auto simp: timed_inv_def Let_def)
next
  case (closed_flush t w' fw u)
  have "t \<le> u" using closed_flush(5) by simp
  with assms(1) due_times [OF assms(1) closed_flush(2)] show ?thesis
    by (auto simp: timed_inv_def Let_def closed_flush(1,4) last_flush select_batch)
qed

interpretation timed: inductive_invariant "timed_init events start" "timed_step wd slack" "timed_inv wd slack start"
  for events start and wd :: "('v, 'js) world" and slack
proof unfold_locales
  show "timed_inv wd slack start s" if "timed_init events start s" for s
    using that by (simp add: timed_init_def timed_inv_def writer_init_def)
qed (rule timed_inv_step)

text \<open>
  C26.  No event lingers: in every run of the writer, whatever the database does, each event that has
  left the batch did so at a flush that began no later than \<open>max_batch_linger\<close> and the slack after it was
  received, each event in the batch has not been there for longer, and every received event is one
  of these.
\<close>

theorem writer_linger_bounded:
  assumes "reach (timed_init events start) (timed_step wd slack) s"
  shows "list_all (\<lambda>(a, f). a \<le> f \<and> f \<le> a + max_batch_linger (wd_cfg wd) + slack) (tw_waits s)
    \<and> list_all (\<lambda>a. tw_now s \<le> a + max_batch_linger (wd_cfg wd) + slack) (tw_since s)
    \<and> length (tw_since s) = length (w_batch (tw_writer s))
    \<and> length (tw_waits s) + length (tw_since s) = tw_received s"
proof -
  have "timed_inv wd slack start s" using assms by (rule timed.reach_inv)
  then show ?thesis by (auto simp: timed_inv_def Let_def list_all_iff)
qed

text \<open>
  C27.  The database is written to no more often than this: in a run that has taken a time and received
  a number of events, at most one flush began for each full batch among the events, one for each period
  of \<open>max_batch_linger\<close> in that time, one at the first tick and one when the queue was closed.  For a store
  of the Community Edition the period is at least 100 ms.
\<close>

theorem writer_flush_rate:
  assumes "reach (timed_init events start) (timed_step wd slack) s"
    and "store_new False cfg limit lock = Some st" and "wd_cfg wd = wt_cfg (active_writer st)"
  shows "length (tw_flushes s)
    \<le> tw_received s div max 1 (max_batch_size (wd_cfg wd)) + (tw_now s - start) div max_batch_linger (wd_cfg wd)
        + 1 + of_bool (tw_ended s)
    \<and> 100 \<le> max_batch_linger (wd_cfg wd)"
proof -
  let ?size = "max 1 (max_batch_size (wd_cfg wd))" and ?linger = "max_batch_linger (wd_cfg wd)"
  from assms(2,3) have linger: "100 \<le> ?linger"
    by (auto simp: store_new_def Let_def active_writer_def clamp_config_def edition_limits split: if_splits)
  have inv: "timed_inv wd slack start s" using assms(1) by (rule timed.reach_inv)
  then have "(length (tw_flushes s) - (tw_ticks s + of_bool (tw_ended s))) * ?size \<le> tw_received s"
    unfolding timed_inv_def Let_def by linarith
  then have full: "length (tw_flushes s) - (tw_ticks s + of_bool (tw_ended s)) \<le> tw_received s div ?size"
    by (subst less_eq_div_iff_mult_less_eq) simp_all
  have "tw_ticks s * ?linger \<le> (tw_now s - start) + ?linger"
    using inv unfolding timed_inv_def Let_def by linarith
  then have "tw_ticks s \<le> ((tw_now s - start) + ?linger) div ?linger"
    using linger by (subst less_eq_div_iff_mult_less_eq) simp_all
  also have "\<dots> = (tw_now s - start) div ?linger + 1"
    using linger by (subst div_add_self2) simp_all
  finally show ?thesis using full linger by linarith
qed

section \<open>A run\<close>

definition demo_turns :: timed_writer where
  "demo_turns = \<lparr>tw_writer = writer_init [], tw_now = 0, tw_deadline = 0, tw_free = 0, tw_since = [], tw_waits = [],
     tw_flushes = [], tw_received = 0, tw_ticks = 0, tw_ended = False\<rparr>"

text \<open>An event is received at 2 and flushed by the tick that is yielded at 5.\<close>

lemma demo_timed_run:
  obtains s where "reach (timed_init [] 0) (timed_step demo_world 5) s" "tw_waits s = [(2, 5)]" "tw_flushes s = [5]"
    "tw_received s = 1" "tw_now s = 5" "\<not> tw_ended s" "w_events (tw_writer s) = [row_of_event id demo_pending]"
proof -
  have start: "reach (timed_init [] 0) (timed_step demo_world 5) demo_turns"
    by (rule reach_init) (simp add: timed_init_def demo_turns_def)
  obtain s1 where s1: "timed_step demo_world 5 demo_turns s1"
    "s1 = demo_turns\<lparr>tw_writer := select_world demo_world (Recv demo_pending quiet) (writer_init []),
        tw_now := 2, tw_since := [2], tw_received := 1\<rparr>"
    using timed_step.receive [of 5 demo_turns 2 demo_world demo_pending quiet]
    by (simp add: due_def demo_turns_def writer_init_def demo_world_def)
  have w1: "tw_writer s1 = (writer_init [])\<lparr>w_batch := [demo_pending]\<rparr>"
    by (simp add: s1(2) select_world_def writer_init_def demo_world_def)
  let ?w' = "select_world demo_world (Tick quiet) (tw_writer s1)"
  have flushed: "?w' = stored_all id (tw_writer s1) 0"
    by (simp add: w1 select_world_def demo_world_def flush_if_pending_def writer_init_def stored_all_def
        flush_batch_with_retry_def quiet_def flush_batch_def no_faults_def sql_insert_events_def events_unique_def)
  obtain s2 where "timed_step demo_world 5 s1 s2" "tw_waits s2 = [(2, 5)]" "tw_flushes s2 = [5]"
    "tw_received s2 = 1" "tw_now s2 = 5" "\<not> tw_ended s2" "tw_writer s2 = ?w'"
    using timed_step.tick_flush [of 5 s1 5 demo_world 100 ?w' quiet 5] flushed
    by (simp add: s1(2) w1 due_def demo_turns_def demo_world_def held_up_def stored_all_def writer_init_def select_world_def)
  with that [of s2] start s1(1) flushed show ?thesis
    by (simp add: w1 stored_all_def writer_init_def) (meson reach_step)
qed

theorem writer_linger_bounded_witness:
  "\<exists>s. reach (timed_init [] 0) (timed_step demo_world 5) s \<and> tw_waits s = [(2, 5)] \<and> (5 :: nat) \<le> 2 + 100 + 5"
proof -
  obtain s where s: "reach (timed_init [] 0) (timed_step demo_world 5) s" "tw_waits s = [(2, 5)]"
    by (rule demo_timed_run)
  with writer_linger_bounded [OF s(1)] show ?thesis by (intro exI [of _ s]) (simp add: demo_world_def)
qed

theorem writer_flush_rate_witness:
  "\<exists>s :: timed_writer. tw_flushes s = [5] \<and> length (tw_flushes s) \<le> 1 div max 1 64 + 5 div 100 + 1"
proof -
  obtain s where s: "reach (timed_init [] 0) (timed_step demo_world 5) s" "tw_flushes s = [5]" "tw_received s = 1" "tw_now s = 5" "\<not> tw_ended s"
    by (rule demo_timed_run)
  let ?cfg = "\<lparr>max_batch_size = 256, max_batch_linger = 10, channel_capacity = 1\<rparr>"
  let ?st = "the (store_new False ?cfg 1000 None)"
  have st: "store_new False ?cfg 1000 None = Some ?st" "wd_cfg demo_world = wt_cfg (active_writer ?st)"
    by (simp_all add: store_new_def Let_def active_writer_def clamp_config_def edition_limits demo_world_def)
  from writer_flush_rate [OF s(1) st] s(2-5) show ?thesis by (intro exI [of _ s]) (simp add: demo_world_def)
qed

end
