(* ===== verification/Metered.thy ===== *)
theory Metered
  imports Concurrent
begin

text \<open>
  The rate limit where it matters: calls of \<open>save_event\<close> that interleave at their suspension points, and
  how many messages they send to JetStream.  The counters of the limiter's own analysis are carried
  along, over calls that come and go and crashes that reset the limiter.
\<close>

section \<open>Counting\<close>

text \<open>
  \<open>mt_windows\<close> counts the windows that were opened and the restarts, each of which begins with a fresh
  limiter; \<open>mt_admitted\<close> the calls that left the limiter; \<open>mt_published\<close> those that sent their message.
\<close>

record ('v, 'js) metered =
  mt_fleet :: "('v, 'js) fleet"
  mt_admitted :: nat
  mt_windows :: nat
  mt_published :: nat

definition is_publishing :: "save_pc \<Rightarrow> bool" where
  "is_publishing pc = (case pc of Publishing _ \<Rightarrow> True | _ \<Rightarrow> False)"

definition meter_move :: "'v save_task \<Rightarrow> 'v save_task \<Rightarrow> ('v, 'js) fleet \<Rightarrow> ('v, 'js) metered \<Rightarrow> ('v, 'js) metered" where
  "meter_move c c' f m = m\<lparr>mt_fleet := f,
     mt_admitted := mt_admitted m + (if tk_pc c \<noteq> Serializing \<and> tk_pc c' = Serializing then 1 else 0),
     mt_windows := mt_windows m + (if tk_pc c = Waiting Store_count then 1 else 0),
     mt_published := mt_published m + (if is_publishing (tk_pc c) then 1 else 0)\<rparr>"

text \<open>The other steps of the fleet move no call: what arrives, is dropped, received or flushed counts nothing.\<close>

inductive metered_step :: "('v, 'js) world \<Rightarrow> ('v, 'js) metered \<Rightarrow> ('v, 'js) metered \<Rightarrow> bool"
  for wd :: "('v, 'js) world" where
  move: "fl_calls (mt_fleet m) = before @ c # after \<Longrightarrow>
    save_move (wd_api wd) (wd_publish wd) (wd_limit wd) t (c, fl_io (mt_fleet m)) = (c', io') \<Longrightarrow>
    metered_step wd m (meter_move c c' ((mt_fleet m)\<lparr>fl_io := io', fl_calls := before @ c' # after\<rparr>) m)"
| arrive: "metered_step wd m (m\<lparr>mt_fleet := (mt_fleet m)
      \<lparr>fl_calls := fl_calls (mt_fleet m) @ [new_call (wd_limit wd) agent_id event_id payload]\<rparr>\<rparr>)"
| other: "fleet_step wd (mt_fleet m) f \<Longrightarrow> mset (fl_calls f) \<subseteq># mset (fl_calls (mt_fleet m)) \<Longrightarrow>
    io_limiter (fl_io f) = io_limiter (fl_io (mt_fleet m)) \<Longrightarrow> io_js (fl_io f) = io_js (fl_io (mt_fleet m)) \<Longrightarrow>
    metered_step wd m (m\<lparr>mt_fleet := f\<rparr>)"
| crash: "metered_step wd m (m\<lparr>mt_windows := Suc (mt_windows m), mt_fleet := (mt_fleet m)\<lparr>
      fl_io := (fl_io (mt_fleet m))\<lparr>io_limiter := rate_limiter_default,
        io_queue := (io_queue (fl_io (mt_fleet m)))\<lparr>q_items := []\<rparr>\<rparr>,
      fl_calls := [], fl_writer := (fl_writer (mt_fleet m))\<lparr>w_batch := []\<rparr>\<rparr>\<rparr>)"

definition metered_init :: "event_row list \<Rightarrow> ('v, 'js) metered \<Rightarrow> bool" where
  "metered_init events m \<longleftrightarrow> fleet_init events (mt_fleet m) \<and> io_limiter (fl_io (mt_fleet m)) = rate_limiter_default
     \<and> mt_admitted m = 0 \<and> mt_windows m = 0 \<and> mt_published m = 0"

text \<open>The counters change nothing: a metered run is a run of the fleet, and every step of the fleet can be metered.\<close>

interpretation meter: simulation "metered_init events" "metered_step wd" "fleet_init events" "fleet_step wd" mt_fleet
  for wd :: "('v, 'js) world" and events
proof unfold_locales
  fix m m' :: "('v, 'js) metered"
  assume "metered_step wd m m'"
  then show "(fleet_step wd)\<^sup>=\<^sup>= (mt_fleet m) (mt_fleet m')"
  proof (cases rule: metered_step.cases)
    case (move before c after t c' io')
    with fleet_step.move [OF move(2,3)] show ?thesis by (simp add: meter_move_def)
  next
    case (arrive agent_id event_id payload)
    with fleet_step.arrive [of wd "mt_fleet m" agent_id event_id payload] show ?thesis by simp
  next
    case (other f)
    then show ?thesis by simp
  next
    case crash
    with fleet_step.crash [of wd "mt_fleet m"] show ?thesis by simp
  qed
qed (simp add: metered_init_def)

lemma fleet_step_metered:
  assumes "fleet_step wd (mt_fleet m) f"
  obtains m' where "metered_step wd m m'" "mt_fleet m' = f"
  using assms
proof (cases rule: fleet_step.cases)
  case (move before c after t c' io')
  have "mt_fleet (meter_move c c' f m) = f" by (simp add: meter_move_def)
  with metered_step.move [OF move(2,3)] show ?thesis by (intro that [of "meter_move c c' f m"]) (simp_all add: move(1))
next
  case (arrive agent_id event_id payload)
  with metered_step.arrive [of wd m agent_id event_id payload] show ?thesis by (intro that [rotated]) simp_all
next
  case crash
  with metered_step.crash [of wd m] show ?thesis by (intro that [rotated]) simp_all
qed (use metered_step.other [OF assms] in \<open>intro that [rotated]; simp\<close>)+

section \<open>The limiter's invariant, over the calls of the fleet\<close>

definition wait_pc_of :: "'v save_task \<Rightarrow> wait_pc" where
  "wait_pc_of c = (case tk_pc c of Waiting pc \<Rightarrow> pc | _ \<Rightarrow> Returned)"

definition rl_of :: "('v, 'js) metered \<Rightarrow> rl_system" where
  "rl_of m = \<lparr>limiter = io_limiter (fl_io (mt_fleet m)),
     callers = (\<lambda>i. if i < length (fl_calls (mt_fleet m)) then wait_pc_of (fl_calls (mt_fleet m) ! i) else Returned),
     admitted = mt_admitted m, resets = mt_windows m\<rparr>"

definition unpublished :: "'v save_task \<Rightarrow> bool" where
  "unpublished c \<longleftrightarrow> tk_pc c = Serializing \<or> is_publishing (tk_pc c)"

definition metered_inv :: "('v, 'js) world \<Rightarrow> nat \<Rightarrow> ('v, 'js) metered \<Rightarrow> bool" where
  "metered_inv wd n m \<longleftrightarrow>
     rl_inv (wd_limit wd) (rl_of m)
     \<and> (\<forall>c \<in> set (fl_calls (mt_fleet m)). tk_pc c \<noteq> Waiting Returned)
     \<and> mt_published m + length (filter unpublished (fl_calls (mt_fleet m))) \<le> mt_admitted m
     \<and> length (wd_log wd (io_js (fl_io (mt_fleet m)))) \<le> n + mt_published m"

lemma rl_of_inv_iff:
  "rl_inv limit (rl_of m) \<longleftrightarrow> unat (slots (io_limiter (fl_io (mt_fleet m)))) \<le> slot_cap limit
     \<and> (\<forall>x \<in> set (fl_calls (mt_fleet m)). \<forall>k. wait_pc_of x = Claim k \<longrightarrow> k < limit)
     \<and> mt_admitted m + (slot_cap limit - unat (slots (io_limiter (fl_io (mt_fleet m)))))
        \<le> Suc (mt_windows m) * slot_cap limit"
  by (auto simp: rl_inv_def rl_of_def all_set_conv_all_nth split: if_splits)

text \<open>A move of a waiting call is a move of the limiter's system; any other leaves the limiter alone.\<close>

lemma rl_of_move:
  assumes "fl_calls (mt_fleet m) = before @ c # after" and "tk_pc c = Waiting pc" and "pc \<noteq> Returned"
    and "save_move api publish limit t (c, fl_io (mt_fleet m)) = (c', io')"
  shows "rl_of (meter_move c c' ((mt_fleet m)\<lparr>fl_io := io', fl_calls := before @ c' # after\<rparr>) m)
    = rl_move limit t (length before) (rl_of m)"
proof -
  let ?m' = "meter_move c c' ((mt_fleet m)\<lparr>fl_io := io', fl_calls := before @ c' # after\<rparr>) m"
  obtain l' pc' where step: "wait_step limit t (io_limiter (fl_io (mt_fleet m))) pc = (l', pc')" by fastforce
  with assms(2,4) have moved: "c' = c\<lparr>tk_pc := after_wait pc'\<rparr>" "io' = (fl_io (mt_fleet m))\<lparr>io_limiter := l'\<rparr>"
    by (simp_all add: save_move_Waiting)
  then have "wait_pc_of c' = pc'" by (simp add: wait_pc_of_def after_wait_def)
  then have "callers (rl_of ?m') = (callers (rl_of m))(length before := pc')"
    by (auto simp: rl_of_def meter_move_def assms(1) nth_append nth_Cons' fun_eq_iff)
  moreover have "callers (rl_of m) (length before) = pc" using assms(1,2) by (simp add: rl_of_def wait_pc_of_def)
  moreover have "limiter (rl_of m) = io_limiter (fl_io (mt_fleet m))" by (simp add: rl_of_def)
  ultimately show ?thesis
    using step moved assms(2,3)
    by (auto simp: rl_move_def rl_of_def meter_move_def after_wait_def Let_def)
qed

lemma save_move_limiter:
  assumes "save_move api publish limit t (c, io) = (c', io')" and "\<And>pc. tk_pc c \<noteq> Waiting pc"
  shows "io_limiter io' = io_limiter io" "\<And>pc. tk_pc c' \<noteq> Waiting pc" "tk_pc c' \<noteq> Serializing"
    and "is_publishing (tk_pc c') \<Longrightarrow> tk_pc c = Serializing"
    and "\<not> is_publishing (tk_pc c) \<Longrightarrow> io_js io' = io_js io"
proof -
  have "io_limiter io' = io_limiter io \<and> (\<forall>pc. tk_pc c' \<noteq> Waiting pc) \<and> tk_pc c' \<noteq> Serializing
    \<and> (is_publishing (tk_pc c') \<longrightarrow> tk_pc c = Serializing) \<and> (\<not> is_publishing (tk_pc c) \<longrightarrow> io_js io' = io_js io)"
  proof (cases "tk_pc c")
    case (Waiting pc)
    with assms(2) [of pc] show ?thesis by simp
  next
    case (Sending ev)
    obtain out io2 where enq: "enqueue ev io = (out, io2)" by fastforce
    with Sending assms(1) show ?thesis
      by (auto simp: save_move_def is_publishing_def enqueue_def Let_def split: if_splits)
  qed (use assms(1) in \<open>auto simp: save_move_def is_publishing_def Let_def split: option.splits sum.splits prod.splits\<close>)
  then show "io_limiter io' = io_limiter io" "\<And>pc. tk_pc c' \<noteq> Waiting pc" "tk_pc c' \<noteq> Serializing"
    "is_publishing (tk_pc c') \<Longrightarrow> tk_pc c = Serializing" "\<not> is_publishing (tk_pc c) \<Longrightarrow> io_js io' = io_js io"
    by blast+
qed

lemma save_move_one_message:
  assumes "js_durable publish log" and "save_move api publish limit t (c, io) = (c', io')"
  shows "length (log (io_js io')) \<le> Suc (length (log (io_js io)))"
  using assms by (cases rule: save_move_effect) auto

lemma metered_inv_move:
  assumes "durable wd" and "metered_inv wd n m" and "fl_calls (mt_fleet m) = before @ c # after"
    and "save_move (wd_api wd) (wd_publish wd) (wd_limit wd) t (c, fl_io (mt_fleet m)) = (c', io')"
  shows "metered_inv wd n (meter_move c c' ((mt_fleet m)\<lparr>fl_io := io', fl_calls := before @ c' # after\<rparr>) m)"
    (is "metered_inv wd n ?m'")
proof (cases "\<exists>pc. tk_pc c = Waiting pc")
  case True
  then obtain pc where Waiting: "tk_pc c = Waiting pc" by blast
  with assms(2,3) have pc: "pc \<noteq> Returned" by (auto simp: metered_inv_def)
  have "rl_inv (wd_limit wd) (rl_of ?m')"
    using assms(2) by (simp add: rl_of_move [OF assms(3) Waiting pc assms(4)] metered_inv_def rl_move_inv)
  moreover obtain pc' where "c' = c\<lparr>tk_pc := after_wait pc'\<rparr>" "io_js io' = io_js (fl_io (mt_fleet m))"
    using assms(4) Waiting by (auto simp: save_move_Waiting)
  ultimately show ?thesis
    using assms(2,3) Waiting
    by (auto simp: metered_inv_def meter_move_def unpublished_def is_publishing_def after_wait_def)
next
  case False
  then have no_wait: "\<And>pc. tk_pc c \<noteq> Waiting pc" by blast
  note moved = save_move_limiter [OF assms(4) no_wait]
  have pcs: "wait_pc_of c' = Returned"
    using moved(2) by (simp add: wait_pc_of_def split: save_pc.splits)
  have "rl_inv (wd_limit wd) (rl_of ?m')"
    using assms(2,3) moved(1) no_wait moved(3) pcs
    by (auto simp: metered_inv_def rl_of_inv_iff meter_move_def)
  moreover have "\<forall>x \<in> set (fl_calls (mt_fleet ?m')). tk_pc x \<noteq> Waiting Returned"
    using assms(2,3) moved(2) by (auto simp: metered_inv_def meter_move_def)
  moreover have "mt_published ?m' + length (filter unpublished (fl_calls (mt_fleet ?m'))) \<le> mt_admitted ?m'"
  proof -
    have "(if is_publishing (tk_pc c) then 1 else 0) + (if unpublished c' then 1 else (0 :: nat))
        \<le> (if unpublished c then 1 else 0)"
      using moved(3,4) by (auto simp: unpublished_def is_publishing_def)
    with assms(2,3) moved(3) show ?thesis by (auto simp: metered_inv_def meter_move_def split: if_splits)
  qed
  moreover have "length (wd_log wd (io_js io')) \<le> n + mt_published ?m'"
  proof (cases "is_publishing (tk_pc c)")
    case True
    from assms(1) have "js_durable (wd_publish wd) (wd_log wd)" by (simp add: durable_def)
    from save_move_one_message [OF this assms(4)] True assms(2) show ?thesis
      by (simp add: metered_inv_def meter_move_def)
  next
    case False
    with moved(5) assms(2) show ?thesis by (simp add: metered_inv_def meter_move_def)
  qed
  ultimately show ?thesis by (simp add: metered_inv_def meter_move_def)
qed

lemma filter_mset_length: "mset xs \<subseteq># mset ys \<Longrightarrow> length (filter P xs) \<le> length (filter P ys)"
  by (metis mset_filter multiset_filter_mono size_mset size_mset_mono)

lemma metered_inv_step:
  assumes "durable wd" and "wd_limit wd \<noteq> u32_MAX" and "metered_inv wd n m" and "metered_step wd m m'"
  shows "metered_inv wd n m'"
  using assms(4)
proof (cases rule: metered_step.cases)
  case (move before c after t c' io')
  with metered_inv_move [OF assms(1,3) move(2,3)] show ?thesis by simp
next
  case (arrive agent_id event_id payload)
  have "tk_pc (new_call (wd_limit wd) agent_id event_id payload) = Waiting Loop_top"
    using assms(2) by (simp add: new_call_def after_wait_def wait_enter_def)
  with assms(3) arrive show ?thesis
    by (auto simp: metered_inv_def rl_of_inv_iff wait_pc_of_def unpublished_def is_publishing_def)
next
  case (other f)
  from other(3) have "set (fl_calls f) \<subseteq> set (fl_calls (mt_fleet m))" by (metis set_mset_mono set_mset_mset)
  with assms(3) other filter_mset_length [OF other(3), of unpublished] show ?thesis
    by (auto simp: metered_inv_def rl_of_inv_iff)
next
  case crash
  with assms(3) show ?thesis
    by (auto simp: metered_inv_def rl_of_inv_iff rate_limiter_default_def)
qed

interpretation metered: inductive_invariant
    "\<lambda>m. durable wd \<and> wd_limit wd \<noteq> u32_MAX \<and> metered_init events m
       \<and> length (wd_log wd (io_js (fl_io (mt_fleet m)))) \<le> n"
    "\<lambda>m m'. durable wd \<and> wd_limit wd \<noteq> u32_MAX \<and> metered_step wd m m'" "metered_inv wd n"
  for wd :: "('v, 'js) world" and events n
proof unfold_locales
  show "metered_inv wd n m" if "durable wd \<and> wd_limit wd \<noteq> u32_MAX \<and> metered_init events m
       \<and> length (wd_log wd (io_js (fl_io (mt_fleet m)))) \<le> n" for m
    using that by (simp add: metered_inv_def rl_of_inv_iff metered_init_def fleet_init_def rate_limiter_default_def)
qed (auto intro: metered_inv_step)

text \<open>
  C28.  The rate limit bounds what reaches JetStream: for a store whose limit is not the unlimited one,
  under any interleaving of calls, dropped ones included, on any clock and across restarts, the log
  grows by at most the limit (one, if that is zero) for each window that the limiter has opened and each
  life of the process; and no call sends a message without having been admitted.
\<close>

theorem log_growth_limited:
  assumes "js_durable (wd_publish wd) (wd_log wd)" and "wd_limit wd \<noteq> u32_MAX"
    and "reach (\<lambda>m. metered_init events m \<and> wd_log wd (io_js (fl_io (mt_fleet m))) = old) (metered_step wd) m"
  shows "length (wd_log wd (io_js (fl_io (mt_fleet m)))) \<le> length old + mt_published m
    \<and> mt_published m \<le> mt_admitted m
    \<and> mt_admitted m \<le> Suc (mt_windows m) * max 1 (unat (wd_limit wd))"
proof -
  have durable: "durable wd" using assms(1) by (simp add: durable_def)
  have "reach (\<lambda>m. durable wd \<and> wd_limit wd \<noteq> u32_MAX \<and> metered_init events m
       \<and> length (wd_log wd (io_js (fl_io (mt_fleet m)))) \<le> length old)
      (\<lambda>m m'. durable wd \<and> wd_limit wd \<noteq> u32_MAX \<and> metered_step wd m m') m"
    using assms(3) by (rule reach_mono) (simp_all add: durable assms(2))
  then have "metered_inv wd (length old) m" by (rule metered.reach_inv)
  then show ?thesis by (auto simp: metered_inv_def rl_of_inv_iff slot_cap_def)
qed

section \<open>A run\<close>

definition meter_at :: "('v, 'js) world \<Rightarrow> int \<Rightarrow> nat \<Rightarrow> ('v, 'js) metered \<Rightarrow> ('v, 'js) metered" where
  "meter_at wd t i m =
     (let f = mt_fleet m;
          (c', io') = save_move (wd_api wd) (wd_publish wd) (wd_limit wd) t (fl_calls f ! i, fl_io f)
      in meter_move (fl_calls f ! i) c' (f\<lparr>fl_io := io', fl_calls := (fl_calls f)[i := c']\<rparr>) m)"

lemma meter_at_step:
  assumes "i < length (fl_calls (mt_fleet m))"
  shows "metered_step wd m (meter_at wd t i m)"
proof -
  obtain c' io' where run: "save_move (wd_api wd) (wd_publish wd) (wd_limit wd) t
      (fl_calls (mt_fleet m) ! i, fl_io (mt_fleet m)) = (c', io')" by fastforce
  from metered_step.move [OF id_take_nth_drop [OF assms] run] show ?thesis
    by (simp add: meter_at_def run Let_def upd_conv_take_nth_drop [OF assms])
qed

lemma meter_at_length [simp]: "length (fl_calls (mt_fleet (meter_at wd t i m))) = length (fl_calls (mt_fleet m))"
  by (simp add: meter_at_def meter_move_def Let_def split: prod.splits)

lemma meter_run_reach:
  "reach init (metered_step wd) m \<Longrightarrow> list_all (\<lambda>(t, i). i < length (fl_calls (mt_fleet m))) sched \<Longrightarrow>
     reach init (metered_step wd) (fold (\<lambda>(t, i). meter_at wd t i) sched m)"
proof (induction sched arbitrary: m)
  case (Cons ti sched)
  obtain t i where "ti = (t, i)" by fastforce
  with Cons.prems have "reach init (metered_step wd) (meter_at wd t i m)" by (auto intro: reach_step meter_at_step)
  with Cons.IH [of "meter_at wd t i m"] Cons.prems(2) \<open>ti = (t, i)\<close> show ?case by simp
qed simp

text \<open>With a limit of one, a single call opens the window of its second, and its message is logged.\<close>

definition narrow_world :: "(string, wal_msg list) world" where
  "narrow_world = demo_world\<lparr>wd_limit := 1\<rparr>"

definition narrow_start :: "(string, wal_msg list) metered" where
  "narrow_start = \<lparr>mt_fleet = \<lparr>fl_io = demo_io True, fl_calls = [], fl_writer = writer_init []\<rparr>,
     mt_admitted = 0, mt_windows = 0, mt_published = 0\<rparr>"

definition narrow_call :: "(string, wal_msg list) metered" where
  "narrow_call = narrow_start\<lparr>mt_fleet := (mt_fleet narrow_start)\<lparr>fl_calls := [new_call 1 ''a'' ''e'' ''p'']\<rparr>\<rparr>"

definition narrow_end :: "(string, wal_msg list) metered" where
  "narrow_end = fold (\<lambda>(t, i). meter_at narrow_world t i) [(5000, 0), (5000, 0), (5000, 0), (5000, 0), (5000, 0), (5000, 0)] narrow_call"

lemma narrow_reach:
  "reach (\<lambda>m. metered_init [] m \<and> wd_log narrow_world (io_js (fl_io (mt_fleet m))) = []) (metered_step narrow_world) narrow_end"
  unfolding narrow_end_def
proof (rule meter_run_reach)
  have "reach (\<lambda>m. metered_init [] m \<and> wd_log narrow_world (io_js (fl_io (mt_fleet m))) = [])
      (metered_step narrow_world) narrow_start"
    by (rule reach_init)
       (simp add: metered_init_def fleet_init_def narrow_start_def demo_io_def narrow_world_def demo_world_def)
  moreover have "metered_step narrow_world narrow_start narrow_call"
    using metered_step.arrive [of narrow_world narrow_start "''a''" "''e''" "''p''"]
    by (simp add: narrow_call_def narrow_start_def narrow_world_def)
  ultimately show "reach (\<lambda>m. metered_init [] m \<and> wd_log narrow_world (io_js (fl_io (mt_fleet m))) = [])
      (metered_step narrow_world) narrow_call" by (rule reach_step)
qed (simp add: narrow_call_def narrow_start_def)

lemma narrow_eval:
  "length (io_js (fl_io (mt_fleet narrow_end))) = 1" "mt_windows narrow_end = 1" "mt_published narrow_end = 1"
  "mt_admitted narrow_end = 1"
  by (simp_all add: narrow_end_def narrow_call_def narrow_start_def meter_at_def meter_move_def save_move_def
      new_call_def after_wait_def wait_enter_def u32_MAX_def narrow_world_def demo_world_def demo_publish_def
      trace_subject_def demo_io_def rate_limiter_default_def epoch_secs_def epoch_ms_def is_publishing_def Let_def)

theorem log_growth_limited_witness:
  "length (io_js (fl_io (mt_fleet narrow_end))) = 1 \<and> mt_published narrow_end \<le> mt_admitted narrow_end
    \<and> mt_admitted narrow_end \<le> Suc 1 * max 1 (unat (1 :: u32))"
proof -
  have "js_durable (wd_publish narrow_world) (wd_log narrow_world)" "wd_limit narrow_world \<noteq> u32_MAX"
    using demo_world_durable by (simp_all add: narrow_world_def u32_MAX_def demo_world_def)
  from log_growth_limited [OF this narrow_reach] narrow_eval show ?thesis
    by (simp add: narrow_world_def)
qed

end
