(* ===== verification/Cluster.thy ===== *)
theory Cluster
  imports Concurrent
begin

text \<open>
  Several instances of the sidecar beside each other, as a licence that allows HA permits: they share
  the log and the table \<open>agent_events\<close>, and each has its own limiter, queue, calls and writer.  A flush is
  here not one step but one step per attempt, so that between two attempts, while the writer sleeps,
  the other instances may write to the table, calls go on, and the instance may crash.  A flush
  whose attempts nothing separates is the function \<open>flush_batch_with_retry\<close>.
\<close>

section \<open>A flush, attempt by attempt\<close>

text \<open>
  Attempt \<open>k\<close> of a flush: it ends the flush, or is followed by the \<open>k\<close>-th delay and the next attempt; the
  last one gives the batch up.
\<close>

definition flush_move ::
  "collation \<Rightarrow> (bytes \<Rightarrow> string) \<Rightarrow> millis list \<Rightarrow> bool \<Rightarrow> flush_env \<Rightarrow> bool \<Rightarrow> nat \<times> writer \<Rightarrow> nat option \<times> writer" where
  "flush_move coll lossy delays dead_letter_tx env dl_closed kw =
     (let (k, w) = kw in
      case flush_batch coll lossy env (w_batch w) (w_events w) of
        (Inr _, batch, tbl) \<Rightarrow> (None, w\<lparr>w_batch := batch, w_events := tbl\<rparr>)
      | (Inl _, batch, tbl) \<Rightarrow>
          if k < length delays
          then (Some (Suc k), w\<lparr>w_batch := batch, w_events := tbl, w_slept := w_slept w + delays ! k\<rparr>)
          else (None, if dead_letter_tx \<and> \<not> dl_closed
                 then w\<lparr>w_batch := [], w_events := tbl, w_dead := w_dead w @ [batch]\<rparr>
                 else w\<lparr>w_batch := [], w_events := tbl, w_lost := w_lost w @ batch\<rparr>))"

text \<open>The attempts of a flush on its own, in the world of \<open>flush_batch_with_retry\<close>.\<close>

definition flush_turn ::
  "collation \<Rightarrow> (bytes \<Rightarrow> string) \<Rightarrow> millis list \<Rightarrow> bool \<Rightarrow> flush_world \<Rightarrow> nat option \<times> writer \<Rightarrow> nat option \<times> writer" where
  "flush_turn coll lossy delays dl world kw =
     (case fst kw of None \<Rightarrow> kw
      | Some k \<Rightarrow> flush_move coll lossy delays dl (fst world k) (snd world) (k, snd kw))"

text \<open>What is left to do of \<open>flush_batch_with_retry\<close> before attempt \<open>k\<close>.\<close>

definition flush_from ::
  "collation \<Rightarrow> (bytes \<Rightarrow> string) \<Rightarrow> millis list \<Rightarrow> bool \<Rightarrow> flush_world \<Rightarrow> nat \<Rightarrow> writer \<Rightarrow> writer" where
  "flush_from coll lossy delays dl world k w =
     flush_batch_with_retry coll lossy (drop k delays) dl (\<lambda>i. fst world (k + i), snd world) w"

lemma retry_attempts_shift:
  "retry_attempts coll lossy envs (k + i) delays batch tbl
     = retry_attempts coll lossy (\<lambda>j. envs (k + j)) i delays batch tbl"
  by (induction delays arbitrary: i batch tbl) (auto split: prod.splits sum.splits simp flip: add_Suc_right)

lemma flush_from_last:
  assumes "length delays \<le> k"
  shows "flush_move coll lossy delays dl (fst world k) (snd world) (k, w)
    = (None, flush_from coll lossy delays dl world k w)"
  using assms
  by (auto simp: flush_move_def flush_from_def flush_batch_with_retry_def Let_def split: prod.splits sum.splits)

lemma flush_from_next:
  assumes "k < length delays"
  shows "flush_move coll lossy delays dl (fst world k) (snd world) (k, w) = (None, flush_from coll lossy delays dl world k w)
    \<or> (\<exists>w'. flush_move coll lossy delays dl (fst world k) (snd world) (k, w) = (Some (Suc k), w')
         \<and> flush_from coll lossy delays dl world (Suc k) w' = flush_from coll lossy delays dl world k w)"
proof -
  have drop: "drop k delays = delays ! k # drop (Suc k) delays"
    using assms by (simp add: Cons_nth_drop_Suc)
  have ends: "k + length (drop k delays) = length delays" "Suc (k + length (drop (Suc k) delays)) = length delays"
    using assms by simp_all
  obtain r batch tbl where run: "flush_batch coll lossy (fst world k) (w_batch w) (w_events w) = (r, batch, tbl)"
    by (cases "flush_batch coll lossy (fst world k) (w_batch w) (w_events w)") auto
  show ?thesis
  proof (cases r)
    case (Inl e)
    let ?envs = "\<lambda>i. fst world (Suc (k + i))" and ?w = "w\<lparr>w_batch := batch, w_events := tbl, w_slept := w_slept w + delays ! k\<rparr>"
    obtain ok batch' tbl' slept where
      rest: "retry_attempts coll lossy ?envs 0 (drop (Suc k) delays) batch tbl = (ok, batch', tbl', slept)"
      by (metis prod_cases4)
    then have "retry_attempts coll lossy (\<lambda>i. fst world (k + i)) (Suc 0) (drop (Suc k) delays) batch tbl
        = (ok, batch', tbl', slept)"
      using retry_attempts_shift [of coll lossy "\<lambda>i. fst world (k + i)" 1 0] by simp
    with rest run Inl have "flush_from coll lossy delays dl world (Suc k) ?w = flush_from coll lossy delays dl world k w"
      by (simp add: flush_from_def flush_batch_with_retry_def drop ends Let_def add.assoc split: prod.splits sum.splits)
    moreover have "flush_move coll lossy delays dl (fst world k) (snd world) (k, w) = (Some (Suc k), ?w)"
      using run Inl assms by (simp add: flush_move_def)
    ultimately show ?thesis by blast
  next
    case (Inr u)
    then show ?thesis using assms run
      by (intro disjI1) (simp add: flush_move_def flush_from_def flush_batch_with_retry_def drop)
  qed
qed

lemma flush_turn_None: "(flush_turn coll lossy delays dl world ^^ n) (None, w) = (None, w)"
  by (induction n) (simp_all add: flush_turn_def)

lemma flush_turns:
  "length delays - k < n \<Longrightarrow>
     (flush_turn coll lossy delays dl world ^^ n) (Some k, w) = (None, flush_from coll lossy delays dl world k w)"
proof (induction n arbitrary: k w)
  case (Suc n)
  let ?turn = "flush_turn coll lossy delays dl world"
  have first: "?turn (Some k, w) = flush_move coll lossy delays dl (fst world k) (snd world) (k, w)"
    by (simp add: flush_turn_def)
  show ?case
  proof (cases "k < length delays")
    case False
    then show ?thesis
      by (simp add: funpow_Suc_right first flush_from_last flush_turn_None del: funpow.simps)
  next
    case True
    with Suc.prems have "length delays - Suc k < n" by simp
    from Suc.IH [OF this] flush_from_next [OF True, of coll lossy dl world w] show ?thesis
      by (auto simp: funpow_Suc_right first flush_turn_None simp del: funpow.simps)
  qed
qed simp

text \<open>
  A flush that nothing interrupts is the function \<open>flush_batch_with_retry\<close>: after one attempt more
  than there are delays it is over, and the batch, the table, the dead letters, the losses and the time
  slept are the function's.
\<close>

theorem flush_alone_is_flush_batch_with_retry:
  "(flush_turn coll lossy delays dl world ^^ Suc (length delays)) (Some 0, w)
     = (None, flush_batch_with_retry coll lossy delays dl world w)"
  by (subst flush_turns) (simp_all add: flush_from_def)

text \<open>What an attempt does to the batch, the table and what was given up.\<close>

lemma flush_move_effect:
  assumes "flush_move coll lossy delays dl env closed (k, w) = (pc, w')"
  obtains (stored) "w_batch w' = []" "w_events w' = w_events w @ push_values lossy (w_batch w)"
      "w_dead w' = w_dead w" "w_lost w' = w_lost w" "events_unique coll (w_events w @ push_values lossy (w_batch w))"
  | (again) "w_batch w' = w_batch w" "w_events w' = w_events w" "w_dead w' = w_dead w" "w_lost w' = w_lost w"
  | (unclear) "w_batch w' = w_batch w" "w_events w' = w_events w @ push_values lossy (w_batch w)"
      "w_dead w' = w_dead w" "w_lost w' = w_lost w" "events_unique coll (w_events w @ push_values lossy (w_batch w))"
  | (given_up) "w_batch w' = []" "w_events w' = w_events w" "gone w' = gone w + mset (w_batch w)"
  | (given_up_stored) "w_batch w' = []" "w_events w' = w_events w @ push_values lossy (w_batch w)"
      "gone w' = gone w + mset (w_batch w)" "events_unique coll (w_events w @ push_values lossy (w_batch w))"
proof (cases rule: flush_batch_cases [of coll lossy env "w_batch w" "w_events w"])
  case committed
  with assms show ?thesis by (intro stored) (auto simp: flush_move_def)
next
  case (failed e)
  with assms show ?thesis
    by (cases "k < length delays") (auto simp: flush_move_def gone_def intro: again given_up split: if_splits)
next
  case (unclear e)
  with assms show ?thesis
    by (cases "k < length delays")
       (auto simp: flush_move_def gone_def intro: that(3) given_up_stored split: if_splits)
qed

section \<open>A flush beside other instances\<close>

text \<open>
  The attempts of one flush with what happens before each: the rows that the other instances have
  committed to the table since, the database, and whether the dead-letter channel is closed.
\<close>

type_synonym flush_turn = "event_row list \<times> flush_env \<times> bool"

fun contested_flush ::
  "collation \<Rightarrow> (bytes \<Rightarrow> string) \<Rightarrow> millis list \<Rightarrow> bool \<Rightarrow> flush_turn list \<Rightarrow> nat option \<times> writer \<Rightarrow> nat option \<times> writer" where
  "contested_flush coll lossy delays dl ((others, env, closed) # turns) (Some k, w) =
     contested_flush coll lossy delays dl turns
       (flush_move coll lossy delays dl env closed (k, w\<lparr>w_events := w_events w @ others\<rparr>))"
| "contested_flush coll lossy delays dl _ kw = kw"

definition others_until :: "flush_turn list \<Rightarrow> nat \<Rightarrow> event_row list" where
  "others_until turns i = concat (map fst (take (Suc i) turns))"

text \<open>The \<open>i\<close>-th attempt cannot have stored the batch: the database fails, or a key is taken.\<close>

definition attempt_fails ::
  "collation \<Rightarrow> (bytes \<Rightarrow> string) \<Rightarrow> flush_turn list \<Rightarrow> writer \<Rightarrow> nat \<Rightarrow> bool" where
  "attempt_fails coll lossy turns w i \<longleftrightarrow> fst (snd (turns ! i)) \<noteq> no_faults \<or> w_batch w = []
     \<or> \<not> events_unique coll (w_events w @ others_until turns i @ push_values lossy (w_batch w))"

text \<open>The flush ends well with attempt \<open>m\<close>; it ends badly with attempt \<open>m\<close>.\<close>

definition flush_stores ::
  "collation \<Rightarrow> (bytes \<Rightarrow> string) \<Rightarrow> millis list \<Rightarrow> flush_turn list \<Rightarrow> writer \<Rightarrow> nat \<Rightarrow> writer \<Rightarrow> bool" where
  "flush_stores coll lossy delays turns w m w' \<longleftrightarrow>
     w_events w' = w_events w @ others_until turns m @ push_values lossy (w_batch w)
     \<and> events_unique coll (w_events w') \<and> w_dead w' = w_dead w \<and> w_lost w' = w_lost w
     \<and> w_slept w' = w_slept w + sum_list (take m delays)
     \<and> (\<forall>i < m. attempt_fails coll lossy turns w i)"

definition flush_gives_up ::
  "collation \<Rightarrow> (bytes \<Rightarrow> string) \<Rightarrow> millis list \<Rightarrow> bool \<Rightarrow> flush_turn list \<Rightarrow> writer \<Rightarrow> nat \<Rightarrow> writer \<Rightarrow> bool" where
  "flush_gives_up coll lossy delays dl turns w m w' \<longleftrightarrow>
     w_slept w' = w_slept w + sum_list (take m delays)
     \<and> w_dead w' = w_dead w @ (if dl \<and> \<not> snd (snd (turns ! m)) then [w_batch w] else [])
     \<and> w_lost w' = w_lost w @ (if dl \<and> \<not> snd (snd (turns ! m)) then [] else w_batch w)
     \<and> (w_events w' = w_events w @ others_until turns m \<and> (\<forall>i \<le> m. attempt_fails coll lossy turns w i)
        \<or> (\<exists>i e. i \<le> m \<and> fe_commit (fst (snd (turns ! i))) = Some (e, True)
             \<and> (\<forall>j \<le> i. attempt_fails coll lossy turns w j)
             \<and> w_events w' = w_events w @ others_until turns i @ push_values lossy (w_batch w)
                 @ concat (map fst (take (m - i) (drop (Suc i) turns)))
             \<and> events_unique coll (w_events w @ others_until turns i @ push_values lossy (w_batch w))))"

lemma others_until_simps [simp]:
  "others_until (t # turns) 0 = fst t"
  "others_until (t # turns) (Suc i) = fst t @ others_until turns i"
  by (simp_all add: others_until_def)

lemma all_less_Suc: "(\<forall>i < Suc m. P i) \<longleftrightarrow> P 0 \<and> (\<forall>i < m. P (Suc i))"
  by (auto simp: less_Suc_eq_0_disj)

lemma all_le_Suc: "(\<forall>i \<le> Suc m. P i) \<longleftrightarrow> P 0 \<and> (\<forall>i \<le> m. P (Suc i))"
  by (metis Suc_le_mono le0 not0_implies_Suc)

lemma attempt_fails_later:
  "attempt_fails coll lossy turns (w\<lparr>w_events := w_events w @ fst t, w_slept := n\<rparr>) i
     \<longleftrightarrow> attempt_fails coll lossy (t # turns) w (Suc i)"
  by (simp add: attempt_fails_def)

lemma flush_stores_later:
  assumes "flush_stores coll lossy ds turns (w\<lparr>w_events := w_events w @ fst t, w_slept := w_slept w + d\<rparr>) m w'"
    and "attempt_fails coll lossy (t # turns) w 0"
  shows "flush_stores coll lossy (d # ds) (t # turns) w (Suc m) w'"
  using assms by (auto simp: flush_stores_def all_less_Suc attempt_fails_later)

lemma flush_gives_up_later:
  assumes "flush_gives_up coll lossy ds dl turns (w\<lparr>w_events := w_events w @ fst t, w_slept := w_slept w + d\<rparr>) m w'"
    and "attempt_fails coll lossy (t # turns) w 0"
  shows "flush_gives_up coll lossy (d # ds) dl (t # turns) w (Suc m) w'"
proof -
  from assms(1) have rest: "w_slept w' = w_slept w + d + sum_list (take m ds)"
    "w_dead w' = w_dead w @ (if dl \<and> \<not> snd (snd (turns ! m)) then [w_batch w] else [])"
    "w_lost w' = w_lost w @ (if dl \<and> \<not> snd (snd (turns ! m)) then [] else w_batch w)"
    by (simp_all add: flush_gives_up_def)
  from assms(1) consider
    (missing) "w_events w' = w_events w @ fst t @ others_until turns m"
      "\<forall>i \<le> m. attempt_fails coll lossy (t # turns) w (Suc i)"
  | (there) i e where "i \<le> m" "fe_commit (fst (snd (turns ! i))) = Some (e, True)"
      "\<forall>j \<le> i. attempt_fails coll lossy (t # turns) w (Suc j)"
      "w_events w' = w_events w @ fst t @ others_until turns i @ push_values lossy (w_batch w)
         @ concat (map fst (take (m - i) (drop (Suc i) turns)))"
      "events_unique coll (w_events w @ fst t @ others_until turns i @ push_values lossy (w_batch w))"
    unfolding flush_gives_up_def attempt_fails_later by auto
  then show ?thesis
  proof cases
    case missing
    with rest assms(2) show ?thesis by (simp add: flush_gives_up_def all_le_Suc)
  next
    case (there i e)
    with rest assms(2) show ?thesis unfolding flush_gives_up_def
      by (intro conjI disjI2 exI [of _ "Suc i"] exI [of _ e]) (simp_all add: all_le_Suc)
  qed
qed

text \<open>After a commit whose answer was lost, the rows are there and the batch is given up.\<close>

lemma flush_gives_up_stored:
  assumes "flush_gives_up coll lossy ds dl turns
      (w\<lparr>w_events := w_events w @ fst t @ push_values lossy (w_batch w), w_slept := w_slept w + d\<rparr>) m w'"
    and "fe_commit (fst (snd t)) = Some (e, True)" and "w_batch w \<noteq> []"
    and unique: "events_unique coll (w_events w @ fst t @ push_values lossy (w_batch w))" and "length ds = m" and "m < length turns"
  shows "flush_gives_up coll lossy (d # ds) dl (t # turns) w (Suc m) w'"
proof -
  let ?rows = "push_values lossy (w_batch w)"
  have once: "\<not> events_unique coll (w_events w @ fst t @ ?rows @ others @ ?rows)" for others
    using assms(3) by (cases "w_batch w") (auto simp: events_unique_def)
  with assms(1) have "w_events w' = w_events w @ fst t @ ?rows @ concat (map fst (take (Suc m) turns))"
    by (auto simp: flush_gives_up_def others_until_def)
  moreover have "attempt_fails coll lossy (t # turns) w 0"
    using assms(2) by (auto simp: attempt_fails_def no_faults_def)
  ultimately show ?thesis using assms(1,2) unique
    unfolding flush_gives_up_def by (intro conjI disjI2 exI [of _ 0] exI [of _ e]) simp_all
qed

lemma next_delay:
  assumes "length delays = k + length ds" and "drop k delays = ds" and "ds = d # ds'"
  shows "delays ! k = d" "drop (Suc k) delays = ds'" "k < length delays"
  using assms nth_via_drop [of k delays d ds'] by (simp_all add: drop_Suc flip: tl_drop)

lemma contested_flush_from:
  assumes "length ds < length turns" and "length delays = k + length ds" and "drop k delays = ds"
    and "contested_flush coll lossy delays dl turns (Some k, w) = (pc, w')"
  shows "pc = None \<and> w_batch w' = []
    \<and> ((\<exists>m \<le> length ds. fst (snd (turns ! m)) = no_faults \<and> flush_stores coll lossy ds turns w m w')
       \<or> flush_gives_up coll lossy ds dl turns w (length ds) w')"
  using assms
proof (induction turns arbitrary: k ds w)
  case Nil
  then show ?case by simp
next
  case (Cons t turns)
  obtain others env closed where t: "t = (others, env, closed)" by (cases t) auto
  let ?w = "w\<lparr>w_events := w_events w @ others\<rparr>" and ?rows = "push_values lossy (w_batch w)"
  have turn: "contested_flush coll lossy delays dl turns (flush_move coll lossy delays dl env closed (k, ?w)) = (pc, w')"
    using Cons.prems(4) by (simp add: t)
  have over: "contested_flush coll lossy delays dl turns (None, v) = (None, v)" for v
    by (cases turns) simp_all
  show ?case
  proof (cases rule: flush_batch_cases [of coll lossy env "w_batch ?w" "w_events ?w"])
    case committed
    then have "flush_move coll lossy delays dl env closed (k, ?w)
        = (None, ?w\<lparr>w_batch := [], w_events := w_events w @ others @ ?rows\<rparr>)" by (simp add: flush_move_def)
    with turn over have "pc = None" "w' = ?w\<lparr>w_batch := [], w_events := w_events w @ others @ ?rows\<rparr>" by simp_all
    with committed show ?thesis by (auto simp: t flush_stores_def intro!: exI [of _ 0])
  next
    case (failed e)
    have fails: "attempt_fails coll lossy (t # turns) w 0"
      using flush_batch_clean [of "w_batch w" coll "w_events ?w" lossy] failed by (auto simp: t attempt_fails_def)
    show ?thesis
    proof (cases ds)
      case Nil
      with failed turn over Cons.prems(2) fails show ?thesis
        by (auto simp: t flush_move_def flush_gives_up_def split: if_splits)
    next
      case ds: (Cons d ds')
      note d = next_delay [OF Cons.prems(2,3) ds]
      let ?v = "?w\<lparr>w_slept := w_slept w + d\<rparr>"
      have "flush_move coll lossy delays dl env closed (k, ?w) = (Some (Suc k), ?v)"
        using failed d by (simp add: flush_move_def)
      with turn have "contested_flush coll lossy delays dl turns (Some (Suc k), ?v) = (pc, w')" by simp
      from Cons.IH [OF _ _ d(2) this] Cons.prems(1,2) ds
      have "pc = None \<and> w_batch w' = []
        \<and> ((\<exists>m \<le> length ds'. fst (snd (turns ! m)) = no_faults \<and> flush_stores coll lossy ds' turns ?v m w')
           \<or> flush_gives_up coll lossy ds' dl turns ?v (length ds') w')" by simp
      then show ?thesis
        using flush_stores_later [where t = t and d = d, OF _ fails]
          flush_gives_up_later [where t = t and d = d, OF _ fails]
        by (fastforce simp: ds t)
    qed
  next
    case (unclear e)
    have unique: "events_unique coll (w_events w @ fst t @ ?rows)" using unclear by (simp add: t)
    show ?thesis
    proof (cases ds)
      case Nil
      with unclear turn over Cons.prems(2) show ?thesis
        by (auto simp: t flush_move_def flush_gives_up_def attempt_fails_def no_faults_def split: if_splits
            intro!: exI [of _ 0])
    next
      case ds: (Cons d ds')
      note d = next_delay [OF Cons.prems(2,3) ds]
      let ?v = "w\<lparr>w_events := w_events w @ others @ ?rows, w_slept := w_slept w + d\<rparr>"
      have "flush_move coll lossy delays dl env closed (k, ?w) = (Some (Suc k), ?v)"
        using unclear d by (simp add: flush_move_def)
      with turn have "contested_flush coll lossy delays dl turns (Some (Suc k), ?v) = (pc, w')" by simp
      from Cons.IH [OF _ _ d(2) this] Cons.prems(1,2) ds
      have rest: "pc = None \<and> w_batch w' = []
        \<and> ((\<exists>m \<le> length ds'. fst (snd (turns ! m)) = no_faults \<and> flush_stores coll lossy ds' turns ?v m w')
           \<or> flush_gives_up coll lossy ds' dl turns ?v (length ds') w')" by simp
      moreover have "\<not> flush_stores coll lossy ds' turns ?v m w'" for m
        using unclear(2) by (cases "w_batch w") (auto simp: flush_stores_def events_unique_def)
      ultimately have "flush_gives_up coll lossy ds' dl turns ?v (length ds') w'" by blast
      with flush_gives_up_stored [where t = t and d = d and w = w and e = e and m = "length ds'"] unclear unique Cons.prems(1) rest
      show ?thesis by (auto simp: t ds)
    qed
  qed
qed

text \<open>
  C11.  A flush ends, however the writers of other instances and the database stand in its way: with
  rows of others coming in before every attempt, it is over after at most one attempt more than there
  are delays.  Either one attempt meets no fault and no taken key, and then the batch is stored by the
  first such one, once, behind what the others have stored; or no attempt does, and then the batch is
  handed over whole, to the dead-letter channel or to the log, after all the delays, and its rows are
  in the table at most once, namely if the answer to the commit was lost.  The rows of the others stay.
\<close>

theorem flush_settles_beside_others:
  assumes "length delays < length turns"
    and "contested_flush coll lossy delays dl turns (Some 0, w) = (pc, w')"
  shows "pc = None \<and> w_batch w' = []
    \<and> ((\<exists>m \<le> length delays. fst (snd (turns ! m)) = no_faults \<and> flush_stores coll lossy delays turns w m w')
       \<or> flush_gives_up coll lossy delays dl turns w (length delays) w')"
  by (rule contested_flush_from [OF assms(1) _ _ assms(2)]) simp_all

section \<open>Instances\<close>

text \<open>
  One instance: \<open>nd_flush\<close> is the attempt that its writer is at, if it is in a flush.  The field \<open>w_events\<close>
  of its writer is the table as the writer saw it last; \<open>nd_stored\<close>, the rows that it has added to the
  table, is history.
\<close>

record 'v node =
  nd_limiter :: rate_limiter
  nd_queue :: queue
  nd_calls :: "'v save_task list"
  nd_flush :: "nat option"
  nd_writer :: writer
  nd_stored :: "event_row list"

record ('v, 'js) cluster =
  cl_js :: 'js
  cl_rows :: "event_row list"
  cl_nodes :: "'v node list"

definition node_new :: "'v node \<Rightarrow> bool" where
  "node_new n \<longleftrightarrow> nd_limiter n = rate_limiter_default \<and> q_items (nd_queue n) = [] \<and> nd_calls n = []
     \<and> nd_flush n = None \<and> nd_writer n = writer_init [] \<and> nd_stored n = []"

definition node_io :: "'js \<Rightarrow> 'v node \<Rightarrow> 'js store_io" where
  "node_io js n = \<lparr>io_limiter = nd_limiter n, io_js = js, io_queue = nd_queue n\<rparr>"

text \<open>
  What \<open>select!\<close> starts when it has received an event, or ticked: \<open>batch.push\<close>, and a flush if the batch is
  full; a flush if there is anything to flush.
\<close>

definition node_receive :: "skialith_config \<Rightarrow> pending_event \<Rightarrow> 'v node \<Rightarrow> 'v node" where
  "node_receive cfg ev n =
     (let w = (nd_writer n)\<lparr>w_batch := w_batch (nd_writer n) @ [ev]\<rparr>
      in n\<lparr>nd_writer := w, nd_flush := (if max_batch_size cfg \<le> length (w_batch w) then Some 0 else None)\<rparr>)"

definition node_tick :: "'v node \<Rightarrow> 'v node" where
  "node_tick n = (if w_batch (nd_writer n) \<noteq> [] then n\<lparr>nd_flush := Some 0\<rparr> else n)"

text \<open>The steps of an instance, with the log and the table that it shares.\<close>

inductive node_step ::
  "('v, 'js) world \<Rightarrow> 'v node \<times> 'js \<times> event_row list \<Rightarrow> 'v node \<times> 'js \<times> event_row list \<Rightarrow> bool"
  for wd :: "('v, 'js) world" where
  arrive: "node_step wd (n, js, rows)
    (n\<lparr>nd_calls := nd_calls n @ [new_call (wd_limit wd) agent_id event_id payload]\<rparr>, js, rows)"
| move: "nd_calls n = before @ c # after \<Longrightarrow>
    save_move (wd_api wd) (wd_publish wd) (wd_limit wd) t (c, node_io js n) = (c', io') \<Longrightarrow>
    node_step wd (n, js, rows)
      (n\<lparr>nd_limiter := io_limiter io', nd_queue := io_queue io', nd_calls := before @ c' # after\<rparr>, io_js io', rows)"
| drop: "nd_calls n = before @ c # after \<Longrightarrow> node_step wd (n, js, rows) (n\<lparr>nd_calls := before @ after\<rparr>, js, rows)"
| receive: "nd_flush n = None \<Longrightarrow> q_items (nd_queue n) = ev # items \<Longrightarrow>
    node_step wd (n, js, rows)
      (node_receive (wd_cfg wd) ev (n\<lparr>nd_queue := (nd_queue n)\<lparr>q_items := items\<rparr>\<rparr>), js, rows)"
| tick: "nd_flush n = None \<Longrightarrow> node_step wd (n, js, rows) (node_tick n, js, rows)"
| attempt: "nd_flush n = Some k \<Longrightarrow>
    flush_move (wd_coll wd) (wd_lossy wd) (wd_delays wd) (wd_dead_letter wd) env closed
      (k, (nd_writer n)\<lparr>w_events := rows\<rparr>) = (pc, w') \<Longrightarrow>
    node_step wd (n, js, rows)
      (n\<lparr>nd_flush := pc, nd_writer := w', nd_stored := nd_stored n @ List.drop (length rows) (w_events w')\<rparr>,
       js, w_events w')"
| crash: "node_step wd (n, js, rows)
    (n\<lparr>nd_limiter := rate_limiter_default, nd_queue := (nd_queue n)\<lparr>q_items := []\<rparr>, nd_calls := [], nd_flush := None,
       nd_writer := (nd_writer n)\<lparr>w_batch := []\<rparr>\<rparr>, js, rows)"

text \<open>An instance starts, or one of them makes a step.\<close>

inductive cluster_step :: "('v, 'js) world \<Rightarrow> ('v, 'js) cluster \<Rightarrow> ('v, 'js) cluster \<Rightarrow> bool"
  for wd :: "('v, 'js) world" where
  join: "node_new n \<Longrightarrow> cluster_step wd c (c\<lparr>cl_nodes := cl_nodes c @ [n]\<rparr>)"
| at_node: "cl_nodes c = before @ n # after \<Longrightarrow> node_step wd (n, cl_js c, cl_rows c) (n', js', rows') \<Longrightarrow>
    cluster_step wd c (c\<lparr>cl_js := js', cl_rows := rows', cl_nodes := before @ n' # after\<rparr>)"

definition cluster_init :: "event_row list \<Rightarrow> ('v, 'js) cluster \<Rightarrow> bool" where
  "cluster_init events c \<longleftrightarrow> cl_rows c = events \<and> cl_nodes c = []"

section \<open>What the instances promise together\<close>

text \<open>
  The specification is that of \<open>Pipeline\<close>, with two steps more: events may become rows and stay pending,
  when the answer to a commit is lost before the last attempt; and a crash forgets the pending events of
  one instance only.
\<close>

inductive shared_step :: "collation \<Rightarrow> (bytes \<Rightarrow> string) \<Rightarrow> pipeline \<Rightarrow> pipeline \<Rightarrow> bool"
  for coll :: collation and lossy :: "bytes \<Rightarrow> string" where
  single: "pipeline_step coll lossy p p' \<Longrightarrow> shared_step coll lossy p p'"
| unclear: "mset evs \<subseteq># pl_pending p \<Longrightarrow> events_unique coll (pl_rows p @ push_values lossy evs) \<Longrightarrow>
    shared_step coll lossy p (p\<lparr>pl_rows := pl_rows p @ push_values lossy evs\<rparr>)"
| crash_one: "rest \<subseteq># pl_pending p \<Longrightarrow> shared_step coll lossy p (p\<lparr>pl_pending := rest\<rparr>)"

lemma pipeline_inv_shared:
  assumes inv: "pipeline_inv coll lossy events p" and step: "shared_step coll lossy p p'"
  shows "pipeline_inv coll lossy events p'"
  using step
proof (cases rule: shared_step.cases)
  case single
  with inv show ?thesis by (rule pipeline_inv_step)
next
  case (unclear evs)
  then have "set evs \<subseteq> pipeline_logged p"
    using mset_subset_set [of evs "pl_pending p"] inv by (auto simp: pipeline_inv_def)
  with unclear inv show ?thesis by (auto simp: pipeline_inv_def pipeline_logged_def push_values_def)
next
  case (crash_one rest)
  with inv show ?thesis
    by (auto simp: pipeline_inv_def pipeline_logged_def dest: mset_subset_eqD)
qed

text \<open>It has a frame rule: a step is still one if other events are pending or given up beside it.\<close>

definition beside :: "pending_event multiset \<Rightarrow> pending_event multiset \<Rightarrow> pipeline \<Rightarrow> pipeline" where
  "beside pending given p = p\<lparr>pl_pending := pl_pending p + pending, pl_gone := pl_gone p + given\<rparr>"

lemma beside_sel [simp]:
  "pl_log (beside pending given p) = pl_log p"
  "pl_pending (beside pending given p) = pl_pending p + pending"
  "pl_rows (beside pending given p) = pl_rows p"
  "pl_gone (beside pending given p) = pl_gone p + given"
  by (simp_all add: beside_def)

lemma subset_beside: "A \<subseteq># P \<Longrightarrow> A \<subseteq># P + Q" for A :: "'a multiset"
  by (rule subset_mset.order_trans [of _ P]) simp_all

lemma diff_beside: "A \<subseteq># P \<Longrightarrow> P - A + Q = P + Q - A" for A :: "'a multiset"
  by (rule subset_mset.diff_add_assoc2 [symmetric])

lemma shared_step_frame:
  assumes "shared_step coll lossy p p'"
  shows "shared_step coll lossy (beside pending given p) (beside pending given p')" (is "shared_step coll lossy ?p ?p'")
  using assms
proof (cases rule: shared_step.cases)
  case single
  then show ?thesis
  proof (cases rule: pipeline_step.cases)
    case (log m)
    then have "?p' = ?p\<lparr>pl_log := pl_log ?p @ [m]\<rparr>" by (intro pipeline.equality) simp_all
    then show ?thesis by (simp only: shared_step.single pipeline_step.log)
  next
    case (accept ev)
    then have "?p' = ?p\<lparr>pl_log := pl_log ?p @ [msg_of ev], pl_pending := add_mset ev (pl_pending ?p)\<rparr>"
      by (intro pipeline.equality) simp_all
    then show ?thesis by (simp only: shared_step.single pipeline_step.accept)
  next
    case (refuse ev)
    then have "?p' = ?p\<lparr>pl_pending := pl_pending ?p - {#ev#}\<rparr>" by (intro pipeline.equality) simp_all
    moreover have "ev \<in># pl_pending ?p" using refuse by simp
    ultimately show ?thesis by (simp only: shared_step.single pipeline_step.refuse)
  next
    case (store evs)
    then have "?p' = ?p\<lparr>pl_pending := pl_pending ?p - mset evs, pl_rows := pl_rows ?p @ push_values lossy evs\<rparr>"
      by (intro pipeline.equality) (simp_all add: diff_beside)
    moreover have "pipeline_step coll lossy ?p \<dots>"
      using store by (intro pipeline_step.store) (simp_all add: subset_beside)
    ultimately show ?thesis by (simp only: shared_step.single)
  next
    case (give_up evs)
    then have "?p' = ?p\<lparr>pl_pending := pl_pending ?p - mset evs, pl_gone := pl_gone ?p + mset evs\<rparr>"
      by (intro pipeline.equality) (simp_all add: diff_beside)
    moreover have "pipeline_step coll lossy ?p \<dots>"
      using give_up by (intro pipeline_step.give_up) (simp add: subset_beside)
    ultimately show ?thesis by (simp only: shared_step.single)
  next
    case (give_up_stored evs)
    then have "?p' = ?p\<lparr>pl_pending := pl_pending ?p - mset evs, pl_rows := pl_rows ?p @ push_values lossy evs,
        pl_gone := pl_gone ?p + mset evs\<rparr>"
      by (intro pipeline.equality) (simp_all add: diff_beside)
    moreover have "pipeline_step coll lossy ?p \<dots>"
      using give_up_stored by (intro pipeline_step.give_up_stored) (simp_all add: subset_beside)
    ultimately show ?thesis by (simp only: shared_step.single)
  next
    case crash
    then have "?p' = ?p\<lparr>pl_pending := pending\<rparr>" by (intro pipeline.equality) simp_all
    moreover have "shared_step coll lossy ?p \<dots>" by (intro shared_step.crash_one) simp
    ultimately show ?thesis by (simp only:)
  qed
next
  case (unclear evs)
  then have "?p' = ?p\<lparr>pl_rows := pl_rows ?p @ push_values lossy evs\<rparr>" by (intro pipeline.equality) simp_all
  moreover have "shared_step coll lossy ?p \<dots>"
    using unclear by (intro shared_step.unclear) (simp_all add: subset_beside)
  ultimately show ?thesis by (simp only:)
next
  case (crash_one rest)
  then have "?p' = ?p\<lparr>pl_pending := rest + pending\<rparr>" by (intro pipeline.equality) simp_all
  moreover have "shared_step coll lossy ?p \<dots>" using crash_one by (intro shared_step.crash_one) simp
  ultimately show ?thesis by (simp only:)
qed

section \<open>The instances refine it\<close>

definition node_pending :: "'v node \<Rightarrow> pending_event multiset" where
  "node_pending n = mset (w_batch (nd_writer n)) + mset (q_items (nd_queue n)) + mset (concat (map in_hand (nd_calls n)))"

definition node_pipeline :: "('v, 'js) world \<Rightarrow> 'v node \<times> 'js \<times> event_row list \<Rightarrow> pipeline" where
  "node_pipeline wd s = (case s of (n, js, rows) \<Rightarrow>
     \<lparr>pl_log = wd_log wd js, pl_pending = node_pending n, pl_rows = rows, pl_gone = gone (nd_writer n)\<rparr>)"

definition cluster_pipeline :: "('v, 'js) world \<Rightarrow> ('v, 'js) cluster \<Rightarrow> pipeline" where
  "cluster_pipeline wd c = \<lparr>pl_log = wd_log wd (cl_js c), pl_pending = (\<Sum>n \<leftarrow> cl_nodes c. node_pending n),
     pl_rows = cl_rows c, pl_gone = (\<Sum>n \<leftarrow> cl_nodes c. gone (nd_writer n))\<rparr>"

lemma gone_w_events [simp]: "gone (w\<lparr>w_events := rows\<rparr>) = gone w"
  by (simp add: gone_def)

lemma gone_w_batch [simp]: "gone (w\<lparr>w_batch := b\<rparr>) = gone w"
  by (simp add: gone_def)

lemma node_step_refines:
  assumes "durable wd" and step: "node_step wd s s'"
  shows "(shared_step (wd_coll wd) (wd_lossy wd))\<^sup>=\<^sup>= (node_pipeline wd s) (node_pipeline wd s')"
proof -
  from assms(1) have js: "js_durable (wd_publish wd) (wd_log wd)" by (simp add: durable_def)
  let ?p = "node_pipeline wd s"
  have lift: "(shared_step coll lossy)\<^sup>=\<^sup>= p p'" if "(pipeline_step coll lossy)\<^sup>=\<^sup>= p p'" for coll lossy p p'
    using that by (auto intro: shared_step.single)
  from step show ?thesis
  proof (cases rule: node_step.cases)
    case (arrive n js rows agent_id event_id payload)
    have "in_hand (new_call (wd_limit wd) agent_id event_id payload) = []"
      by (simp add: in_hand_def new_call_def after_wait_def)
    with arrive show ?thesis by (simp add: node_pipeline_def node_pending_def)
  next
    case (move n before c after t js c' io' rows)
    from js move(4) show ?thesis
    proof (cases rule: save_move_effect)
      case (quiet ms)
      with move lift [OF pipeline_log_only [of ms "wd_coll wd" "wd_lossy wd" ?p]] show ?thesis
        by (simp add: node_pipeline_def node_pending_def node_io_def)
    next
      case (accepted ev)
      with move shared_step.single [OF pipeline_step.accept [of "wd_coll wd" "wd_lossy wd" ?p ev]] show ?thesis
        by (simp add: node_pipeline_def node_pending_def node_io_def)
    next
      case (queued ev)
      with move show ?thesis by (simp add: node_pipeline_def node_pending_def node_io_def)
    next
      case (refused ev)
      with move shared_step.single [OF pipeline_step.refuse [of ev ?p "wd_coll wd" "wd_lossy wd"]] show ?thesis
        by (simp add: node_pipeline_def node_pending_def node_io_def)
    qed
  next
    case (drop n before c after js rows)
    with shared_step.crash_one [of "mset (w_batch (nd_writer n)) + mset (q_items (nd_queue n))
        + mset (concat (map in_hand (before @ after)))" ?p "wd_coll wd" "wd_lossy wd"] show ?thesis
      by (simp add: node_pipeline_def node_pending_def)
  next
    case (receive n ev items js rows)
    then show ?thesis by (simp add: node_pipeline_def node_pending_def node_receive_def Let_def)
  next
    case (tick n js rows)
    then show ?thesis by (simp add: node_pipeline_def node_pending_def node_tick_def)
  next
    case (attempt n k env closed rows pc w' js)
    let ?b = "w_batch (nd_writer n)"
    have sub: "mset ?b \<subseteq># pl_pending ?p" by (simp add: attempt(1) node_pipeline_def node_pending_def)
    from attempt(4) show ?thesis
    proof (cases rule: flush_move_effect)
      case stored
      with attempt(1,2) shared_step.single [OF pipeline_step.store [OF sub, of "wd_coll wd" "wd_lossy wd"]] show ?thesis
        by (simp add: node_pipeline_def node_pending_def gone_def)
    next
      case again
      with attempt(1,2) show ?thesis by (simp add: node_pipeline_def node_pending_def gone_def)
    next
      case unclear
      with attempt(1,2) shared_step.unclear [OF sub, of "wd_coll wd" "wd_lossy wd"] show ?thesis
        by (simp add: node_pipeline_def node_pending_def gone_def)
    next
      case given_up
      with attempt(1,2) shared_step.single [OF pipeline_step.give_up [OF sub, of "wd_coll wd" "wd_lossy wd"]] show ?thesis
        by (simp add: node_pipeline_def node_pending_def)
    next
      case given_up_stored
      with attempt(1,2) shared_step.single [OF pipeline_step.give_up_stored [OF sub, of "wd_coll wd" "wd_lossy wd"]]
      show ?thesis by (simp add: node_pipeline_def node_pending_def)
    qed
  next
    case (crash n js rows)
    with shared_step.single [OF pipeline_step.crash [of "wd_coll wd" "wd_lossy wd" ?p]] show ?thesis
      by (simp add: node_pipeline_def node_pending_def)
  qed
qed

text \<open>Towards the cluster, what the other instances hold stands beside it.\<close>

lemma cluster_step_refines:
  assumes "durable wd" and "cluster_step wd c c'"
  shows "(shared_step (wd_coll wd) (wd_lossy wd))\<^sup>=\<^sup>= (cluster_pipeline wd c) (cluster_pipeline wd c')"
  using assms(2)
proof (cases rule: cluster_step.cases)
  case (join n)
  then show ?thesis
    by (simp add: cluster_pipeline_def node_new_def node_pending_def writer_init_def gone_def)
next
  case (at_node before n after n' js' rows')
  let ?pending = "(\<Sum>m \<leftarrow> before @ after. node_pending m)" and ?gone = "(\<Sum>m \<leftarrow> before @ after. gone (nd_writer m))"
  have "cluster_pipeline wd c = beside ?pending ?gone (node_pipeline wd (n, cl_js c, cl_rows c))"
    and "cluster_pipeline wd c' = beside ?pending ?gone (node_pipeline wd (n', js', rows'))"
    by (simp_all add: at_node(1,2) cluster_pipeline_def beside_def node_pipeline_def ac_simps)
  with node_step_refines [OF assms(1) at_node(3)] show ?thesis
    by (auto intro: shared_step_frame)
qed

interpretation shared: inductive_invariant "pipeline_init events" "shared_step coll lossy"
    "pipeline_inv coll lossy events"
  for events coll lossy
  by unfold_locales (rule pipeline.init_inv, assumption, rule pipeline_inv_shared)

interpretation cluster_spec: refined_invariant
    "\<lambda>c. durable wd \<and> cluster_init events c" "\<lambda>c d. durable wd \<and> cluster_step wd c d"
    "pipeline_init events" "shared_step (wd_coll wd) (wd_lossy wd)" "cluster_pipeline wd"
    "pipeline_inv (wd_coll wd) (wd_lossy wd) events"
  for wd :: "('v, 'js) world" and events
proof unfold_locales
  show "pipeline_init events (cluster_pipeline wd c)" if "durable wd \<and> cluster_init events c" for c
    using that by (simp add: cluster_init_def pipeline_init_def cluster_pipeline_def)
qed (auto dest: cluster_step_refines)

lemma durable_cluster_reach:
  "durable wd \<Longrightarrow> reach (cluster_init events) (cluster_step wd) c \<Longrightarrow>
     reach (\<lambda>c. durable wd \<and> cluster_init events c) (\<lambda>c d. durable wd \<and> cluster_step wd c d) c"
  by (erule reach_mono) simp_all

text \<open>What an instance holds: given up, in its batch or in its queue.\<close>

definition node_held :: "'v node \<Rightarrow> pending_event list" where
  "node_held n = concat (w_dead (nd_writer n)) @ w_lost (nd_writer n) @ w_batch (nd_writer n) @ q_items (nd_queue n)"

lemma node_held_covered: "set (node_held n) \<subseteq> set_mset (node_pending n) \<union> set_mset (gone (nd_writer n))"
  by (auto simp: node_held_def node_pending_def gone_def)

lemma cluster_rows_grow:
  assumes "durable wd" and "(cluster_step wd)\<^sup>*\<^sup>* c d"
  shows "prefix (cl_rows c) (cl_rows d)"
  using assms(2)
proof (induction rule: rtranclp_induct)
  case (step d e)
  from cluster_step_refines [OF assms(1) step.hyps(2)]
  have "prefix (pl_rows (cluster_pipeline wd d)) (pl_rows (cluster_pipeline wd e))"
    by (auto elim!: shared_step.cases pipeline_step.cases)
  with step show ?case by (simp add: cluster_pipeline_def)
qed simp

text \<open>
  C8.  However many instances run, and whatever interleaves with the attempts of their flushes: what any
  instance holds has been acknowledged by the log that they share; the table they share has only rows
  from before and rows of logged events; what is in it at any time stays as it is, new rows come
  behind it, and no two of its rows have one key, although each instance knows only its own batch.
\<close>

theorem cluster_behind_log:
  assumes "js_durable (wd_publish wd) (wd_log wd)" and "reach (cluster_init events) (cluster_step wd) b"
    and "(cluster_step wd)\<^sup>*\<^sup>* b c"
  shows "(\<forall>n \<in> set (cl_nodes c). msg_of ` set (node_held n) \<subseteq> set (wd_log wd (cl_js c)))
    \<and> set (cl_rows c) \<subseteq> set events \<union> row_of_event (wd_lossy wd) ` {ev. msg_of ev \<in> set (wd_log wd (cl_js c))}
    \<and> prefix (cl_rows b) (cl_rows c) \<and> (events_unique (wd_coll wd) events \<longrightarrow> events_unique (wd_coll wd) (cl_rows c))"
proof -
  from assms(1) have durable: "durable wd" by (simp add: durable_def)
  from cluster_spec.reach_inv [OF durable_cluster_reach [OF durable reach_steps [OF assms(2,3)]]]
  have spec: "pipeline_inv (wd_coll wd) (wd_lossy wd) events (cluster_pipeline wd c)" .
  have "set (node_held n) \<subseteq> pipeline_logged (cluster_pipeline wd c)" if "n \<in> set (cl_nodes c)" for n
  proof (rule order_trans [OF node_held_covered])
    show "set_mset (node_pending n) \<union> set_mset (gone (nd_writer n)) \<subseteq> pipeline_logged (cluster_pipeline wd c)"
    proof -
      have "set_mset (node_pending n) \<subseteq> set_mset (pl_pending (cluster_pipeline wd c))"
        and "set_mset (gone (nd_writer n)) \<subseteq> set_mset (pl_gone (cluster_pipeline wd c))"
        using that by (auto simp: cluster_pipeline_def)
      with spec show ?thesis unfolding pipeline_inv_def by (meson Un_subset_iff order_trans)
    qed
  qed
  then have "\<forall>n \<in> set (cl_nodes c). msg_of ` set (node_held n) \<subseteq> set (wd_log wd (cl_js c))"
    by (simp add: pipeline_logged_def cluster_pipeline_def subset_iff) blast
  with spec cluster_rows_grow [OF durable assms(3)] show ?thesis
    by (simp add: pipeline_inv_def pipeline_logged_def cluster_pipeline_def)
qed

section \<open>What becomes of the events\<close>

definition node_saved :: "'v json_api \<Rightarrow> 'v node \<Rightarrow> pending_event list" where
  "node_saved api n = concat (map (returned_ok api) (nd_calls n))"

text \<open>
  An instance is in order: its calls have logged what their place in the code says, and the events of
  those that have returned \<open>Ok\<close> are among the rows it has stored and the events it holds.
\<close>

definition node_entries :: "(bytes \<Rightarrow> string) \<Rightarrow> 'v node \<Rightarrow> event_row multiset" where
  "node_entries lossy n = mset (nd_stored n) + image_mset (row_of_event lossy)
     (gone (nd_writer n) + mset (w_batch (nd_writer n)) + mset (q_items (nd_queue n)))"

definition node_ok :: "('v, 'js) world \<Rightarrow> 'js \<Rightarrow> 'v node \<Rightarrow> bool" where
  "node_ok wd js n \<longleftrightarrow> list_all (call_ok (wd_api wd) (wd_log wd js)) (nd_calls n)
     \<and> image_mset (row_of_event (wd_lossy wd)) (mset (node_saved (wd_api wd) n)) \<subseteq># node_entries (wd_lossy wd) n"

lemma mset_push_values: "mset (push_values lossy evs) = image_mset (row_of_event lossy) (mset evs)"
  by (simp add: push_values_def)

lemma node_entries_held:
  "node_entries lossy n = mset (nd_stored n) + mset (push_values lossy (node_held n))"
  by (simp add: node_entries_def node_held_def mset_push_values gone_def ac_simps del: push_values_simps)

lemma node_ok_mono: "node_ok wd js n \<Longrightarrow> set (wd_log wd js) \<subseteq> set (wd_log wd js') \<Longrightarrow> node_ok wd js' n"
  by (auto simp: node_ok_def list_all_iff intro: call_ok_mono)

lemma node_ok_entries:
  "node_ok wd js n \<Longrightarrow> nd_calls n' = nd_calls n \<Longrightarrow> node_entries (wd_lossy wd) n \<subseteq># node_entries (wd_lossy wd) n' \<Longrightarrow>
     node_ok wd js n'"
  by (auto simp: node_ok_def node_saved_def intro: subset_mset.order_trans)

text \<open>An attempt adds to the table what it adds to the instance's entries, and loses none of them.\<close>

lemma attempt_entries:
  assumes "flush_move coll lossy delays dl env closed (k, (nd_writer n)\<lparr>w_events := rows\<rparr>) = (pc, w')"
    and n': "n' = n\<lparr>nd_flush := pc, nd_writer := w', nd_stored := nd_stored n @ List.drop (length rows) (w_events w')\<rparr>"
  shows "node_entries lossy n \<subseteq># node_entries lossy n'"
    and "\<exists>new. w_events w' = rows @ new \<and> nd_stored n' = nd_stored n @ new"
  using assms(1)
  by (cases rule: flush_move_effect;
      simp add: n' node_entries_def gone_def mset_push_values ac_simps del: push_values_simps)+

lemma node_step_ok:
  assumes "durable wd" and step: "node_step wd (n, js, rows) (n', js', rows')" and ok: "node_ok wd js n"
  shows "node_ok wd js' n'" and "set (wd_log wd js) \<subseteq> set (wd_log wd js')"
    and "\<exists>new. rows' = rows @ new \<and> nd_stored n' = nd_stored n @ new"
proof -
  from assms(1) have jd: "js_durable (wd_publish wd) (wd_log wd)" by (simp add: durable_def)
  have "node_ok wd js' n' \<and> set (wd_log wd js) \<subseteq> set (wd_log wd js')
    \<and> (\<exists>new. rows' = rows @ new \<and> nd_stored n' = nd_stored n @ new)"
    using step
  proof (cases rule: node_step.cases)
    case (arrive agent_id event_id payload)
    then show ?thesis using ok
      by (simp add: node_ok_def node_saved_def node_entries_def new_call_def after_wait_def call_ok_def returned_ok_def)
  next
    case (move before c after t c' io')
    have grow: "set (wd_log wd js) \<subseteq> set (wd_log wd js')"
      using save_move_log [OF jd move(5)] move(2) by (simp add: node_io_def)
    have cs: "call_ok (wd_api wd) (wd_log wd (io_js (node_io js n))) c"
      "list_all (call_ok (wd_api wd) (wd_log wd js')) (before @ after)"
      using ok grow by (auto simp: node_ok_def move(4) node_io_def list_all_iff intro: call_ok_mono)
    from save_move_ok [OF jd move(5) cs(1)] cs(2)
    have calls: "list_all (call_ok (wd_api wd) (wd_log wd js')) (nd_calls n')" by (simp add: move(1,2))
    from cs(1) move(5) show ?thesis
    proof (cases rule: save_move_returned)
      case same
      with ok grow calls move show ?thesis by (simp add: node_ok_def node_saved_def node_entries_def node_io_def)
    next
      case (saved ev)
      with ok grow calls move show ?thesis by (simp add: node_ok_def node_saved_def node_entries_def node_io_def add.assoc)
    qed
  next
    case (drop before c after)
    then have "mset (node_saved (wd_api wd) n') \<subseteq># mset (node_saved (wd_api wd) n)" by (simp add: node_saved_def)
    from image_mset_subseteq_mono [OF this] ok drop show ?thesis
      by (auto simp: node_ok_def node_entries_def intro: subset_mset.order_trans)
  next
    case (receive ev items)
    with ok show ?thesis
      by (auto simp: node_receive_def Let_def node_entries_def elim!: node_ok_entries)
  next
    case tick
    with ok show ?thesis by (auto simp: node_tick_def node_entries_def elim!: node_ok_entries)
  next
    case (attempt k env closed pc w')
    from attempt_entries [OF attempt(5) attempt(1)] node_ok_entries [OF ok, of n'] attempt(1-3) show ?thesis
      by simp
  next
    case crash
    then show ?thesis by (simp add: node_ok_def node_saved_def)
  qed
  then show "node_ok wd js' n'" and "set (wd_log wd js) \<subseteq> set (wd_log wd js')"
    and "\<exists>new. rows' = rows @ new \<and> nd_stored n' = nd_stored n @ new" by simp_all
qed

definition cluster_ok :: "('v, 'js) world \<Rightarrow> event_row list \<Rightarrow> ('v, 'js) cluster \<Rightarrow> bool" where
  "cluster_ok wd events c \<longleftrightarrow> list_all (node_ok wd (cl_js c)) (cl_nodes c)
     \<and> mset (cl_rows c) = mset events + (\<Sum>n \<leftarrow> cl_nodes c. mset (nd_stored n))"

lemma cluster_ok_step:
  assumes "durable wd" and ok: "cluster_ok wd events c" and "cluster_step wd c c'"
  shows "cluster_ok wd events c'"
  using assms(3)
proof (cases rule: cluster_step.cases)
  case (join n)
  with ok show ?thesis by (simp add: cluster_ok_def node_new_def node_ok_def node_saved_def)
next
  case (at_node before n after n' js' rows')
  have "node_ok wd (cl_js c) n" using ok by (simp add: cluster_ok_def at_node(2))
  note step = node_step_ok [OF assms(1) at_node(3) this]
  have "list_all (node_ok wd js') (before @ after)"
    using ok step(2) by (auto simp: cluster_ok_def at_node(2) list_all_iff intro: node_ok_mono)
  with ok step(1,3) show ?thesis by (auto simp: cluster_ok_def at_node(1,2))
qed

interpretation cluster_ledger: inductive_invariant "\<lambda>c. durable wd \<and> cluster_init events c"
    "\<lambda>c d. durable wd \<and> cluster_step wd c d" "cluster_ok wd events"
  for wd :: "('v, 'js) world" and events
proof unfold_locales
  show "cluster_ok wd events c" if "durable wd \<and> cluster_init events c" for c
    using that by (simp add: cluster_init_def cluster_ok_def)
qed (auto intro: cluster_ok_step)

lemma sum_list_subseteq:
  "list_all (\<lambda>x. f x \<subseteq># g x) xs \<Longrightarrow> (\<Sum>x \<leftarrow> xs. f x) \<subseteq># (\<Sum>x \<leftarrow> xs. g x)"
  by (induction xs) (auto intro: subset_mset.add_mono)

lemma mset_concat_map: "mset (concat (map f xs)) = (\<Sum>x \<leftarrow> xs. mset (f x))"
  by (induction xs) simp_all

lemma image_mset_sum_list: "image_mset h (\<Sum>x \<leftarrow> xs. f x) = (\<Sum>x \<leftarrow> xs. image_mset h (f x))"
  by (induction xs) simp_all

text \<open>
  C7.  With any number of instances, and whatever interleaves with the attempts of their flushes, the
  calls that have returned \<open>Ok\<close> since their instance last started are accounted for together: beside the
  rows from before, their events, counted with multiplicity, are in the shared table or are held by
  an instance, given up, in its batch or in its queue.  No row counts for two of them.
\<close>

theorem cluster_saves_accounted:
  assumes "js_durable (wd_publish wd) (wd_log wd)" and "reach (cluster_init events) (cluster_step wd) c"
  shows "mset events + mset (push_values (wd_lossy wd) (concat (map (node_saved (wd_api wd)) (cl_nodes c))))
      \<subseteq># mset (cl_rows c) + mset (push_values (wd_lossy wd) (concat (map node_held (cl_nodes c))))
    \<and> length (concat (map (node_saved (wd_api wd)) (cl_nodes c)))
      = length (filter (\<lambda>c. tk_pc c = Finished (Inr ())) (concat (map nd_calls (cl_nodes c))))"
proof -
  let ?row = "row_of_event (wd_lossy wd)" and ?saved = "node_saved (wd_api wd)"
  from assms(1) have "durable wd" by (simp add: durable_def)
  from cluster_ledger.reach_inv [OF durable_cluster_reach [OF this assms(2)]]
  have nodes: "list_all (node_ok wd (cl_js c)) (cl_nodes c)"
    and rows: "mset (cl_rows c) = mset events + (\<Sum>n \<leftarrow> cl_nodes c. mset (nd_stored n))"
    by (simp_all add: cluster_ok_def)
  have "(\<Sum>n \<leftarrow> cl_nodes c. image_mset ?row (mset (?saved n))) \<subseteq># (\<Sum>n \<leftarrow> cl_nodes c. node_entries (wd_lossy wd) n)"
    using nodes by (intro sum_list_subseteq) (simp add: list_all_iff node_ok_def)
  also have "\<dots> = (\<Sum>n \<leftarrow> cl_nodes c. mset (nd_stored n)) + (\<Sum>n \<leftarrow> cl_nodes c. image_mset ?row (mset (node_held n)))"
    by (simp add: node_entries_held mset_push_values sum_list_addf)
  finally have "mset events + mset (push_values (wd_lossy wd) (concat (map ?saved (cl_nodes c))))
      \<subseteq># mset (cl_rows c) + mset (push_values (wd_lossy wd) (concat (map node_held (cl_nodes c))))"
    by (simp add: rows mset_push_values mset_concat_map image_mset_sum_list add.assoc)
  moreover have "length (concat (map ?saved ns)) = length (filter (\<lambda>c. tk_pc c = Finished (Inr ())) (concat (map nd_calls ns)))"
    if "list_all (node_ok wd (cl_js c)) ns" for ns
    using that by (induction ns) (simp_all add: node_saved_def node_ok_def returned_ok_length [of "wd_api wd" "wd_log wd (cl_js c)"])
  ultimately show ?thesis using nodes by blast
qed

section \<open>A run\<close>

text \<open>A schedule names the instance, and what it does if it can.\<close>

datatype node_act = Do_call nat | Do_receive | Do_tick | Do_attempt flush_env

definition node_act ::
  "('v, 'js) world \<Rightarrow> node_act \<Rightarrow> 'v node \<times> 'js \<times> event_row list \<Rightarrow> 'v node \<times> 'js \<times> event_row list" where
  "node_act wd a s =
     (let (n, js, rows) = s in
      case a of
        Do_call i \<Rightarrow>
          (if i < length (nd_calls n)
           then (let (c', io') = save_move (wd_api wd) (wd_publish wd) (wd_limit wd) 0 (nd_calls n ! i, node_io js n)
                 in (n\<lparr>nd_limiter := io_limiter io', nd_queue := io_queue io', nd_calls := (nd_calls n)[i := c']\<rparr>,
                     io_js io', rows))
           else s)
      | Do_receive \<Rightarrow>
          (case (nd_flush n, q_items (nd_queue n)) of
             (None, ev # items) \<Rightarrow>
               (node_receive (wd_cfg wd) ev (n\<lparr>nd_queue := (nd_queue n)\<lparr>q_items := items\<rparr>\<rparr>), js, rows)
           | _ \<Rightarrow> s)
      | Do_tick \<Rightarrow> (if nd_flush n = None then (node_tick n, js, rows) else s)
      | Do_attempt env \<Rightarrow>
          (case nd_flush n of
             None \<Rightarrow> s
           | Some k \<Rightarrow>
               (let (pc, w') = flush_move (wd_coll wd) (wd_lossy wd) (wd_delays wd) (wd_dead_letter wd) env False
                  (k, (nd_writer n)\<lparr>w_events := rows\<rparr>)
                in (n\<lparr>nd_flush := pc, nd_writer := w', nd_stored := nd_stored n @ List.drop (length rows) (w_events w')\<rparr>,
                    js, w_events w'))))"

definition cluster_act :: "('v, 'js) world \<Rightarrow> nat \<times> node_act \<Rightarrow> ('v, 'js) cluster \<Rightarrow> ('v, 'js) cluster" where
  "cluster_act wd ia c =
     (if fst ia < length (cl_nodes c)
      then (let (n', js', rows') = node_act wd (snd ia) (cl_nodes c ! fst ia, cl_js c, cl_rows c)
            in c\<lparr>cl_js := js', cl_rows := rows', cl_nodes := (cl_nodes c)[fst ia := n']\<rparr>)
      else c)"

lemma node_act_step: "(node_step wd)\<^sup>=\<^sup>= s (node_act wd a s)"
proof (cases s)
  case (fields n js rows)
  show ?thesis
  proof (cases a)
    case (Do_call i)
    obtain c' io' where run: "save_move (wd_api wd) (wd_publish wd) (wd_limit wd) 0 (nd_calls n ! i, node_io js n) = (c', io')"
      by fastforce
    show ?thesis
    proof (cases "i < length (nd_calls n)")
      case True
      from node_step.move [OF id_take_nth_drop [OF True] run] show ?thesis
        by (simp add: fields Do_call node_act_def run True upd_conv_take_nth_drop [OF True])
    qed (simp add: fields Do_call node_act_def)
  next
    case Do_receive
    then show ?thesis
      by (auto simp: fields node_act_def node_step.receive split: option.splits list.splits)
  next
    case Do_tick
    then show ?thesis by (simp add: fields node_act_def node_step.tick)
  next
    case (Do_attempt env)
    show ?thesis
    proof (cases "nd_flush n")
      case (Some k)
      obtain pc w' where run: "flush_move (wd_coll wd) (wd_lossy wd) (wd_delays wd) (wd_dead_letter wd) env False
          (k, (nd_writer n)\<lparr>w_events := rows\<rparr>) = (pc, w')" by fastforce
      from node_step.attempt [OF Some run] show ?thesis by (simp add: fields Do_attempt node_act_def Some run)
    qed (simp add: fields Do_attempt node_act_def)
  qed
qed

lemma cluster_act_step: "(cluster_step wd)\<^sup>=\<^sup>= c (cluster_act wd (i, a) c)"
proof (cases "i < length (cl_nodes c)")
  case True
  obtain n' js' rows' where run: "node_act wd a (cl_nodes c ! i, cl_js c, cl_rows c) = (n', js', rows')"
    by (metis prod_cases3)
  from node_act_step [of wd "(cl_nodes c ! i, cl_js c, cl_rows c)" a] consider
      "node_step wd (cl_nodes c ! i, cl_js c, cl_rows c) (n', js', rows')"
    | "(n', js', rows') = (cl_nodes c ! i, cl_js c, cl_rows c)"
    by (auto simp: run)
  then show ?thesis
  proof cases
    case 1
    from cluster_step.at_node [OF id_take_nth_drop [OF True] this] show ?thesis
      by (simp add: cluster_act_def True run upd_conv_take_nth_drop [OF True])
  next
    case 2
    then show ?thesis by (simp add: cluster_act_def True run)
  qed
qed (simp add: cluster_act_def)

lemma cluster_acts_steps: "(cluster_step wd)\<^sup>*\<^sup>* c (fold (cluster_act wd) sched c)"
proof (induction sched arbitrary: c)
  case (Cons ia sched)
  obtain i a where "ia = (i, a)" by fastforce
  with cluster_act_step [of wd c i a] Cons.IH [of "cluster_act wd ia c"] show ?case
    by (auto intro: converse_rtranclp_into_rtranclp)
qed simp

text \<open>
  Two instances; an agent saves the event \<open>1\<close> with the first, and, as after a lost answer, again with the
  second, which it also hands the event \<open>2\<close>.
\<close>

definition demo_node :: "string save_task list \<Rightarrow> string node" where
  "demo_node calls = \<lparr>nd_limiter = rate_limiter_default, nd_queue = \<lparr>q_items = [], q_capacity = 9, q_open = True\<rparr>,
     nd_calls = calls, nd_flush = None, nd_writer = writer_init [], nd_stored = []\<rparr>"

definition demo_call :: "string \<Rightarrow> string save_task" where
  "demo_call e = new_call u32_MAX ''a'' e ''p''"

definition demo_cluster :: "string node list \<Rightarrow> (string, wal_msg list) cluster" where
  "demo_cluster nodes = \<lparr>cl_js = [], cl_rows = [], cl_nodes = nodes\<rparr>"

lemma demo_cluster_join:
  "reach (cluster_init []) (cluster_step demo_world) (demo_cluster nodes) \<Longrightarrow>
     reach (cluster_init []) (cluster_step demo_world) (demo_cluster (nodes @ [demo_node []]))"
  using reach_step [of "cluster_init []" "cluster_step demo_world" "demo_cluster nodes",
      OF _ cluster_step.join [of "demo_node []"]]
  by (simp add: demo_cluster_def demo_node_def node_new_def)

lemma demo_cluster_arrive:
  assumes "reach (cluster_init []) (cluster_step demo_world) (demo_cluster (nodes @ [demo_node calls]))"
  shows "reach (cluster_init []) (cluster_step demo_world) (demo_cluster (nodes @ [demo_node (calls @ [demo_call e])]))"
proof -
  have "node_step demo_world (demo_node calls, [], []) (demo_node (calls @ [demo_call e]), [], [])"
    using node_step.arrive [of demo_world "demo_node calls" "[]" "[]" "''a''" e "''p''"]
    by (simp add: demo_node_def demo_call_def demo_world_def)
  with cluster_step.at_node [of "demo_cluster (nodes @ [demo_node calls])" nodes "demo_node calls" "[]"] assms
  show ?thesis by (auto simp: demo_cluster_def intro: reach_step)
qed

definition demo_twice :: "(string, wal_msg list) cluster" where
  "demo_twice = fold (cluster_act demo_world)
     (replicate 4 (0, Do_call 0) @ [(0, Do_receive), (0, Do_tick)]
      @ replicate 4 (1, Do_call 0) @ replicate 4 (1, Do_call 1) @ [(1, Do_receive), (1, Do_receive), (1, Do_tick)]
      @ [(0, Do_attempt no_faults), (1, Do_attempt no_faults)])
     (demo_cluster [demo_node [demo_call ''1''], demo_node [demo_call ''1'', demo_call ''2'']])"

lemma demo_twice_reach: "reach (cluster_init []) (cluster_step demo_world) demo_twice"
proof -
  have "reach (cluster_init []) (cluster_step demo_world) (demo_cluster [])"
    by (rule reach_init) (simp add: cluster_init_def demo_cluster_def)
  from demo_cluster_arrive [OF demo_cluster_join [OF this], of "''1''"]
  have "reach (cluster_init []) (cluster_step demo_world) (demo_cluster ([] @ [demo_node ([] @ [demo_call ''1''])]))" .
  from demo_cluster_arrive [OF demo_cluster_arrive [OF demo_cluster_join [OF this], of "''1''"], of "''2''"]
  have "reach (cluster_init []) (cluster_step demo_world)
      (demo_cluster [demo_node [demo_call ''1''], demo_node [demo_call ''1'', demo_call ''2'']])" by simp
  from reach_steps [OF this cluster_acts_steps] show ?thesis by (simp only: demo_twice_def)
qed

lemma demo_twice_eval:
  "cl_js demo_twice = [msg_of (demo_nth ''1''), msg_of (demo_nth ''1''), msg_of (demo_nth ''2'')]"
  "cl_rows demo_twice = push_values id [demo_nth ''1'']"
  "map node_held (cl_nodes demo_twice) = [[], [demo_nth ''1'', demo_nth ''2'']]"
  "map (\<lambda>n. w_lost (nd_writer n)) (cl_nodes demo_twice) = [[], [demo_nth ''1'', demo_nth ''2'']]"
  "map (\<lambda>n. map tk_pc (nd_calls n)) (cl_nodes demo_twice) = [[Finished (Inr ())], [Finished (Inr ()), Finished (Inr ())]]"
  "map (node_saved demo_json) (cl_nodes demo_twice) = [[demo_nth ''1''], [demo_nth ''1'', demo_nth ''2'']]"
  by (simp_all add: demo_twice_def demo_cluster_def demo_node_def demo_call_def cluster_act_def node_act_def
      node_io_def node_receive_def node_tick_def save_move_def new_call_def after_wait_def eval_nat_numeral
      wait_enter_def demo_world_def demo_publish_def published_def trace_subject_def enqueue_def writer_init_def
      demo_nth_def msg_of_def pending_of_def event_msg_def Let_def flush_move_def flush_batch_def no_faults_def
      sql_insert_events_def events_unique_def uq_agent_event_def row_of_event_def node_held_def
      node_saved_def returned_ok_def)

theorem cluster_behind_log_witness:
  "msg_of ` {demo_nth ''1'', demo_nth ''2''} \<subseteq> set (cl_js demo_twice) \<and> events_unique id (cl_rows demo_twice)"
proof -
  obtain n m where nodes: "cl_nodes demo_twice = [n, m]" and held: "set (node_held m) = {demo_nth ''1'', demo_nth ''2''}"
    using demo_twice_eval(3) by auto
  have "msg_of ` set (node_held m) \<subseteq> set (wd_log demo_world (cl_js demo_twice))"
      "events_unique (wd_coll demo_world) (cl_rows demo_twice)"
    using cluster_behind_log [OF demo_world_durable demo_twice_reach rtranclp.rtrancl_refl] by (simp_all add: nodes events_unique_def)
  then show ?thesis by (simp add: held demo_world_def)
qed

theorem cluster_saves_accounted_witness:
  "mset (push_values id [demo_nth ''1'', demo_nth ''1'', demo_nth ''2''])
     \<subseteq># mset (cl_rows demo_twice) + mset (push_values id [demo_nth ''1'', demo_nth ''2''])"
proof -
  have "wd_api demo_world = demo_json" "wd_lossy demo_world = id" by (simp_all add: demo_world_def)
  with cluster_saves_accounted [OF demo_world_durable demo_twice_reach] show ?thesis
    by (simp add: demo_twice_eval(3,6))
qed

text \<open>A lock wait ends the first attempt; another instance's row is there before the second.\<close>

definition demo_turns :: "flush_turn list" where
  "demo_turns = [([], \<lparr>fe_begin = None, fe_execute = Some (Database (Some ''HY000'') ''Lock wait timeout exceeded''), fe_commit = None\<rparr>, False),
     (push_values id [demo_nth ''1''], no_faults, False)]"

theorem flush_settles_beside_others_witness:
  "\<exists>w'. contested_flush id id [200] False demo_turns (Some 0, (writer_init [])\<lparr>w_batch := [demo_nth ''2'']\<rparr>) = (None, w')
     \<and> w_events w' = push_values id [demo_nth ''1'', demo_nth ''2''] \<and> w_lost w' = []"
proof -
  let ?w = "(writer_init [])\<lparr>w_batch := [demo_nth ''2'']\<rparr>"
  obtain pc w' where run: "contested_flush id id [200] False demo_turns (Some 0, ?w) = (pc, w')" by fastforce
  have "length [200 :: millis] < length demo_turns" by (simp add: demo_turns_def)
  from flush_settles_beside_others [OF this run] have over: "pc = None"
    and ends: "(\<exists>m \<le> Suc 0. fst (snd (demo_turns ! m)) = no_faults \<and> flush_stores id id [200] demo_turns ?w m w')
      \<or> flush_gives_up id id [200] False demo_turns ?w (Suc 0) w'" by simp_all
  have second: "\<not> attempt_fails id id demo_turns ?w (Suc 0)"
    by (simp add: attempt_fails_def demo_turns_def others_until_def writer_init_def events_unique_def
        uq_agent_event_def row_of_event_def demo_nth_def pending_of_def)
  have "fe_commit (fst (snd (demo_turns ! i))) = None" if "i \<le> Suc 0" for i
    using that by (cases i) (simp_all add: demo_turns_def no_faults_def)
  with second have "\<not> flush_gives_up id id [200] False demo_turns ?w (Suc 0) w'"
    by (auto simp: flush_gives_up_def)
  with ends obtain m where "m \<le> Suc 0" "fst (snd (demo_turns ! m)) = no_faults"
    and stores: "flush_stores id id [200] demo_turns ?w m w'" by blast
  then have "m = Suc 0" by (cases m) (simp_all add: demo_turns_def no_faults_def)
  with run over stores show ?thesis
    by (simp add: flush_stores_def demo_turns_def others_until_def writer_init_def)
qed

text \<open>
  The unique key holds across the instances, and one repeated event defeats a batch on whichever of
  them it was saved before: all three calls have returned \<open>Ok\<close>, the database has never failed and no
  instance has crashed, yet the event \<open>2\<close> is reported as lost with its batch.
\<close>

theorem repeated_across_instances_loses_batch:
  "\<exists>(c :: (string, wal_msg list) cluster) ev1 ev2.
     reach (cluster_init []) (cluster_step demo_world) c \<and> ev1 \<noteq> ev2
     \<and> map (\<lambda>n. map tk_pc (nd_calls n)) (cl_nodes c) = [[Finished (Inr ())], [Finished (Inr ()), Finished (Inr ())]]
     \<and> map (node_saved (wd_api demo_world)) (cl_nodes c) = [[ev1], [ev1, ev2]]
     \<and> cl_rows c = push_values (wd_lossy demo_world) [ev1]
     \<and> map (\<lambda>n. w_lost (nd_writer n)) (cl_nodes c) = [[], [ev1, ev2]]"
proof -
  have "wd_api demo_world = demo_json" "wd_lossy demo_world = id" by (simp_all add: demo_world_def)
  moreover have "demo_nth ''1'' \<noteq> demo_nth ''2''" by (simp add: demo_nth_def pending_of_def)
  ultimately show ?thesis
    using demo_twice_reach demo_twice_eval(2,4,5,6)
    by (intro exI [of _ demo_twice] exI [of _ "demo_nth ''1''"] exI [of _ "demo_nth ''2''"]) simp
qed

end
