(* ===== verification/Spec2Isabelle.thy ===== *)
theory Spec2Isabelle
  imports Benchmark Example Recovery Ticker Metered Cluster
begin

text \<open>
  \<^bold>\<open>Skialith, a durability sidecar for agents.\<close>  An agent's events are published to NATS JetStream (the
  write-ahead log) and queued for a background writer that batches them into the table
  \<open>agent_events\<close>; its checkpoints are published under subjects of their own; a separate ingest loop
  consumes trace subjects into the table \<open>agent_traces\<close>, from which a restarted agent resumes.  Around
  this stand a rate limiter, an enterprise licence that lifts it, and a lock that keeps a second
  Community instance from starting.  The code is the Rust crate under \<open>src/src\<close>.

  \<^bold>\<open>Theories, in import order.\<close>
  \<^item> \<open>Prelude\<close>: machine types (\<open>u64\<close> and the like are words), Rust's \<open>Result\<close> and string operations,
    reachability, and the interfaces of the library as locales: \<open>inductive_invariant\<close> (an invariant of a
    step relation holds in every reachable state), \<open>simulation\<close> and \<open>refined_invariant\<close> (an abstraction
    maps each step to an abstract step or to none, and carries invariants back), \<open>ledger\<close> (a run of steps
    loses nothing that it was handed) and \<open>first_wins\<close> (a store in which a taken key is never written
    again, so that replays change nothing).
  \<^item> \<open>Limits\<close>, of \<open>limits.rs\<close>: \<open>wait_step\<close> is \<open>RateLimiter::wait\<close> at the grain of its atomic operations,
    \<open>rl_step\<close> any number of callers that interleave, \<open>wait_pass\<close> and \<open>wait_alone\<close> a caller on its own.
  \<^item> \<open>License\<close>, of \<open>license.rs\<close>: \<open>parse_and_verify\<close>, \<open>load\<close>, and the rights a licence gives.
  \<^item> \<open>External\<close>: \<open>serde_json\<close> and JetStream as parameters, with their laws.
  \<^item> \<open>Agent_Manager\<close>, of \<open>agent_manager.rs\<close>: \<open>checkpoint_state\<close>.
  \<^item> \<open>Agent_Trace\<close>, of \<open>agent_trace.rs\<close> and the table \<open>agent_traces\<close>: \<open>trace_insert\<close>.
  \<^item> \<open>Trace_Ingest\<close>, of \<open>trace_ingest.rs\<close>: \<open>decode_message\<close>, \<open>process_message\<close>, and the two loops.
  \<^item> \<open>Resurrection\<close>, of \<open>resurrection.rs\<close>: \<open>resume_agent\<close>.
  \<^item> \<open>Batch_Writer\<close>, of the second half of \<open>durable_event_store.rs\<close> and the table \<open>agent_events\<close>:
    \<open>flush_batch\<close>, \<open>flush_batch_with_retry\<close>, \<open>run_tidb_batch_writer\<close>.
  \<^item> \<open>Instance_Lock\<close>, of \<open>instance_lock.rs\<close>: \<open>acquire\<close>, \<open>heartbeat_tick\<close>, \<open>lock_drop\<close>, and \<open>lock_step\<close>, the
    instances that share a bucket, with time.
  \<^item> \<open>Event_Store\<close>, of the first half of \<open>durable_event_store.rs\<close>: \<open>store_new\<close>, \<open>with_dead_letter\<close>,
    \<open>connect\<close>, \<open>save_event\<close>, \<open>ensure_stream\<close>.
  \<^item> \<open>Server\<close>, of \<open>bin/server.rs\<close>: the handlers, the routes, \<open>main\<close> up to serving, and \<open>serve\<close>, which
    takes a request to a response through the router.
  \<^item> \<open>System\<close>: the sidecar as one step relation over requests, the writer task and crashes, and the
    properties that span components.
  \<^item> \<open>Pipeline\<close>: what the sidecar promises as an abstract system of its own (\<open>pipeline_step\<close>: a log, pending
    events, rows, given-up events), and the sidecar's refinement of it.
  \<^item> \<open>Recovery\<close>: the sidecar and the ingest loop beside each other on one log (\<open>deploy_step\<close>), either of
    which may fail and start again at any time, and the agents that resume.
  \<^item> \<open>Ticker\<close>: the writer's loop with its clock (\<open>timed_step\<close>).
  \<^item> \<open>Concurrent\<close>: \<open>save_event\<close> at the grain of its suspension points (\<open>save_move\<close>), any number of calls
    that interleave with the writer and may be dropped half-way (\<open>fleet_step\<close>).
  \<^item> \<open>Cluster\<close>: several instances on one log and one table, as HA permits, their flushes attempt by attempt
    (\<open>flush_move\<close>, \<open>node_step\<close>, \<open>cluster_step\<close>).
  \<^item> \<open>Metered\<close>: the interleaved calls with the counters of the limiter's analysis (\<open>metered_step\<close>).
  \<^item> \<open>Bench_Data\<close>, \<open>Bench_Tasks\<close>, \<open>Benchmark\<close>, of \<open>bin/benchmark.rs\<close>: its profiles, statistics and
    events; the two scenarios whose tasks run at the same time, on \<open>Concurrent\<close>; the other three and \<open>main\<close>.
  \<^item> \<open>Example\<close>, of \<open>main.rs\<close>.

  \<^bold>\<open>State and effects.\<close> A table is the list of its rows in insertion order, under its unique key and
  a collation that is a parameter.  Every call that can fail takes what happens to it as an
  argument: a \<open>fault\<close> of a statement says the error and whether the statement took effect all the
  same, a \<open>flush_env\<close> does so for a transaction, a \<open>delivery\<close> for a message and its ack.  JetStream
  is an abstract state with a publish function and a view of its log; a key-value bucket likewise.
  The assumptions are predicates (\<open>json_laws\<close>, \<open>js_durable\<close>, \<open>kv_laws\<close>, \<open>honest_fault\<close>,
  \<open>matcher_0_7\<close>, \<open>captures\<close>), each of them with an instance that the witnesses run on.  \<open>kv_reliable\<close>,
  that NATS is reachable throughout, is not a law but a circumstance: it is assumed only where a lemma
  says what happens in that case.  \<open>honest_fault\<close> says that no failure of the database passes for a
  duplicate key.  The insert into \<open>agent_traces\<close> enforces the enumeration, the width of
  \<open>agent_id\<close> and the unique key; the widths of \<open>agent_events\<close> are among the faults of a transaction.
  A dead-letter channel that is full only delays the writer, which is not modelled.  A panic is \<open>None\<close>
  or \<open>Panicked\<close>.

  \<^bold>\<open>What the lemmas show.\<close> \<open>Limits\<close>: the limit per second of callers one at a time, for each
  time that the clock comes to the second, the bound for callers that interleave and the race that makes
  it soft, that a call returns after one sleep, and that its compare-exchange loop is lock-free.
  \<open>License\<close>: no right exists without a signature.  \<open>Agent_Trace\<close>, \<open>Trace_Ingest\<close>, \<open>Resurrection\<close>:
  when an insert is \<open>Ok\<close> and when it is not, inserts are first-writer-wins and may be repeated, an ack
  implies a row, redelivery has an exactly-once effect, and the agent's highest thought is what it
  resumes from.  \<open>Batch_Writer\<close>: the writer is a
  ledger that loses nothing silently, an append-only log when flushes get through, and gives up a
  whole batch over one duplicate; and the delays of its retries. \<open>Instance_Lock\<close>: exclusion among the
  heartbeats that have not ended, whichever calls fail; on a fresh bucket that is always reachable,
  exclusion until an instance stops; and its loss after the lock has been taken again. \<open>Event_Store\<close>, \<open>Server\<close>: the log before the queue, the limits and
  the well-formedness of a store, what each response means, and which requests the routes reach
  under the locked version of the router.  \<open>System\<close>: the database stays behind the log in every run, no
  acknowledged event is unaccounted for until a crash, and where the parts do not fit together.
  \<open>Pipeline\<close>: the refinement, and that the queue drains.  \<open>Recovery\<close>: under any faults and
  redeliveries, an agent resumes from the last of its messages that were acknowledged or from a later
  one; a loop that is restarted often enough, and fails anywhere but at the first message of a run,
  catches up with the log (\<open>restarts\<close>), and then every saved event is covered; one identifier that does
  not fit the column stops it for every agent; and checkpoints are never resumed from.  \<open>Ticker\<close>: how long an event stays in the batch, and how often the database is written
  to.  \<open>Concurrent\<close>: a call alone is \<open>save_event\<close>, interleaved calls stay behind the log and are all
  accounted for, the queue need not have the order of the log, and a dropped call may leave its event
  in the log only.  \<open>Cluster\<close>: a flush alone is \<open>flush_batch_with_retry\<close>, and one beside other instances
  (\<open>contested_flush\<close>) ends, with the batch stored once or given up; instances that share a table stay
  behind the log, keep its key, and account for every call, and a repeated event defeats a batch across
  instances.  \<open>Metered\<close>: the rate limit bounds
  what reaches JetStream.  \<open>Bench_Data\<close> to \<open>Benchmark\<close>: the
  printed percentiles have the ranks they claim, a run's keys are distinct, a joined run has logged
  every event, the polling ends, and a Community run panics over its own lock.

  \<^bold>\<open>Loops and bounds.\<close> \<open>wait\<close> may wait for ever on a stuck clock, so \<open>wait_alone\<close> has fuel, one unit
  per pass; two are enough if a sleep lasts as long as it was asked to.  The polling loop of the
  benchmark has fuel, one unit per query; 3002 are enough for its 15 seconds if each sleep lasts its
  5 milliseconds.  The ingest loop and the writer loop run for ever by design; they are functions of
  the finitely many inputs they have seen.  The timed loop has the latency of \<open>select!\<close> as a
  parameter \<open>slack\<close>, and takes of \<open>tokio::time::interval\<close> that ticks are not early and that late
  ones delay the next by at most the period.  Step indexes are 32-bit: what \<open>Recovery\<close> shows holds
  for logs of fewer than \<open>2 ^ 31\<close> messages.  Sizes (\<open>usize\<close>) and durations are natural numbers,
  counters and revisions words.

  \<^bold>\<open>Not modelled.\<close> The memory orderings of the atomics beyond sequential consistency; logging and
  printed banners; elapsed times and throughputs, which the benchmark only prints; the traits of
  \<open>managed/\<close>, which nothing in the repository implements or calls; the module list of \<open>lib.rs\<close>; the
  Python and TypeScript clients; the HTTP, SQL and NATS protocols themselves.
\<close>

end
